(* ===== verification/Seek_Prelude.thy ===== *)
theory Seek_Prelude
  imports Main "HOL-Library.Word" "HOL-Library.Char_ord"
begin

unbundle bit_operations_syntax

text \<open>
  Shared ground of the development: machine integers, C strings, the result type of
  fallible operations, the primitives of the external library bc-core, and the lemma
  collections the component theories add to.

  A C string argument is its characters up to the terminating NUL, so \<open>value[0] == '\0'\<close>
  reads \<open>s = []\<close>; a pointer that may be NULL is a \<open>string option\<close>; a byte buffer with a
  capacity is the list of all its bytes.
\<close>

named_theorems word_num \<open>reading fixed-width values as natural numbers\<close>
named_theorems core_laws \<open>what the bc-core primitives promise\<close>

section \<open>Machine integers\<close>

type_synonym u8 = "8 word"
type_synonym u32 = "32 word"
type_synonym u64 = "64 word"

text \<open>\<open>int64_t\<close>, \<open>time_t\<close> and \<open>off_t\<close> are 64-bit words read through \<open>sint\<close>.\<close>

type_synonym i64 = "64 word"

definition UINT64_MAX :: u64 where
  "UINT64_MAX = 0xFFFFFFFFFFFFFFFF"

definition INT64_MAX :: i64 where
  "INT64_MAX = 0x7FFFFFFFFFFFFFFF"

definition UINT_MAX :: u32 where
  "UINT_MAX = 0xFFFFFFFF"

lemma unat_UINT64_MAX [word_num]: "unat UINT64_MAX = 2 ^ 64 - 1"
  by (simp add: UINT64_MAX_def)

lemma unat_INT64_MAX [word_num]: "unat INT64_MAX = 2 ^ 63 - 1"
  by (simp add: INT64_MAX_def)

lemma unat_of_nat_64 [word_num]: "n < 2 ^ 64 \<Longrightarrow> unat (of_nat n :: u64) = n"
  by (simp add: unat_of_nat)

lemma unat_lt_64: "unat (x :: u64) < 2 ^ 64"
  using unsigned_less [of x] by simp

lemma unat_add_64 [word_num]: "unat a + unat b < 2 ^ 64 \<Longrightarrow> unat (a + b :: u64) = unat a + unat b"
  by (simp add: unat_word_ariths)

lemma unat_mult_64 [word_num]: "unat a * unat b < 2 ^ 64 \<Longrightarrow> unat (a * b :: u64) = unat a * unat b"
  by (simp add: unat_word_ariths)

text \<open>Signed reading of a 64-bit word.\<close>

lemma sint_of_small [word_num]:
  fixes d :: i64
  assumes "unat d < 2 ^ 63"
  shows "sint d = int (unat d)"
proof -
  have "int (unat d) < int (2 ^ 63)" using assms by (simp only: of_nat_less_iff)
  then have "uint d < 2 ^ 63" by simp
  then have "signed_take_bit 63 (uint d) = uint d"
    by (intro signed_take_bit_int_eq_self) (simp_all add: order_trans [OF _ uint_ge_0])
  then show ?thesis unfolding sint_uint by simp
qed

lemma unat_eq_iff_sint_eq:
  fixes d :: i64
  assumes "n < 2 ^ 63"
  shows "unat d = n \<longleftrightarrow> sint d = int n"
proof
  assume "unat d = n"
  then show "sint d = int n" using assms sint_of_small [of d] by simp
next
  assume "sint d = int n"
  then have "uint d = take_bit 64 (int n)" unfolding uint_sint [of d] by simp
  also have "\<dots> = int n" using assms by (intro take_bit_int_eq_self) simp_all
  finally have "int (unat d) = int n" by simp
  then show "unat d = n" by (simp only: of_nat_eq_iff)
qed

text \<open>The overflow tests of the parsers, read on natural numbers.\<close>

lemma mul_add_overflow_iff:
  fixes acc digit :: u64
  assumes "unat digit \<le> 9"
  shows "(UINT64_MAX - digit) div 10 < acc \<longleftrightarrow> 2 ^ 64 \<le> unat acc * 10 + unat digit"
proof -
  have le: "digit \<le> UINT64_MAX"
    using unat_lt_64 [of digit] by (simp add: word_le_nat_alt unat_UINT64_MAX)
  have "unat ((UINT64_MAX - digit) div 10) = (2 ^ 64 - 1 - unat digit) div 10"
    by (simp add: unat_div unat_sub [OF le] unat_UINT64_MAX)
  then show ?thesis
    using assms by (simp add: word_less_nat_alt div_less_iff_less_mult) arith
qed

lemma mul_overflow_iff:
  fixes n m :: u64
  assumes "m \<noteq> 0"
  shows "UINT64_MAX div m < n \<longleftrightarrow> 2 ^ 64 \<le> unat n * unat m"
proof -
  have "0 < unat m" using assms by (simp add: unat_gt_0)
  then show ?thesis
    by (auto simp: word_less_nat_alt unat_div unat_UINT64_MAX div_less_iff_less_mult)
qed

section \<open>Results\<close>

text \<open>A fallible step returns \<open>Inl\<close> an error or \<open>Inr\<close> a value; stages run in order and the
  first error ends the run, as the early returns of the code do.\<close>

fun run_stages :: "('a \<Rightarrow> 'e + 'a) list \<Rightarrow> 'a \<Rightarrow> 'e + 'a" where
  "run_stages [] a = Inr a"
| "run_stages (f # fs) a = (case f a of Inl e \<Rightarrow> Inl e | Inr b \<Rightarrow> run_stages fs b)"

lemma run_stages_append:
  "run_stages (fs @ gs) a = (case run_stages fs a of Inl e \<Rightarrow> Inl e | Inr b \<Rightarrow> run_stages gs b)"
  by (induction fs arbitrary: a) (auto split: sum.splits)

lemma run_stages_invariant:
  assumes "\<And>f a b. f \<in> set fs \<Longrightarrow> f a = Inr b \<Longrightarrow> P a \<Longrightarrow> P b"
    and "run_stages fs a = Inr b" and "P a"
  shows "P b"
  using assms
proof (induction fs arbitrary: a)
  case Nil
  then show ?case by simp
next
  case (Cons f fs)
  then obtain c where c: "f a = Inr c" "run_stages fs c = Inr b"
    by (auto split: sum.splits)
  have "P c" using Cons.prems(1) [of f a c] c(1) Cons.prems(3) by simp
  then show ?case using Cons.IH [OF _ c(2)] Cons.prems(1) by auto
qed

section \<open>C strings and buffers\<close>

abbreviation NUL :: char where
  "NUL \<equiv> CHR 0x00"

abbreviation slash :: char where
  "slash \<equiv> CHR 0x2F"

text \<open>\<open>name[i]\<close> of a NUL-terminated string: position \<open>strlen\<close> holds the NUL.\<close>

definition char_at :: "string \<Rightarrow> nat \<Rightarrow> char" where
  "char_at s i = (if i < length s then s ! i else NUL)"

text \<open>The C string that starts at the front of a buffer.\<close>

definition cstr :: "char list \<Rightarrow> string" where
  "cstr buf = takeWhile (\<lambda>c. c \<noteq> NUL) buf"

definition no_nul :: "string \<Rightarrow> bool" where
  "no_nul s \<longleftrightarrow> NUL \<notin> set s"

lemma no_nul_Nil [simp]: "no_nul []"
  and no_nul_append [simp]: "no_nul (s @ t) \<longleftrightarrow> no_nul s \<and> no_nul t"
  and no_nul_Cons [simp]: "no_nul (c # s) \<longleftrightarrow> c \<noteq> NUL \<and> no_nul s"
  by (auto simp: no_nul_def)

lemma cstr_prefix: "no_nul s \<Longrightarrow> cstr (s @ NUL # rest) = s"
  by (simp add: cstr_def no_nul_def takeWhile_append)

text \<open>\<open>memcpy\<close> into a buffer at an offset.\<close>

definition copy_at :: "char list \<Rightarrow> nat \<Rightarrow> string \<Rightarrow> char list" where
  "copy_at buf i s = take i buf @ s @ drop (i + length s) buf"

lemma length_copy_at [simp]: "i + length s \<le> length buf \<Longrightarrow> length (copy_at buf i s) = length buf"
  by (simp add: copy_at_def)

section \<open>Digits\<close>

definition is_digit :: "char \<Rightarrow> bool" where
  "is_digit c \<longleftrightarrow> CHR ''0'' \<le> c \<and> c \<le> CHR ''9''"

definition digit_value :: "char \<Rightarrow> nat" where
  "digit_value c = of_char c - 48"

text \<open>The number a digit string denotes in a base, most significant digit first.\<close>

definition base_value :: "nat \<Rightarrow> string \<Rightarrow> nat" where
  "base_value b s = foldl (\<lambda>acc c. acc * b + digit_value c) 0 s"

abbreviation dec_value :: "string \<Rightarrow> nat" where
  "dec_value \<equiv> base_value 10"

lemma is_digit_code: "is_digit c \<longleftrightarrow> 48 \<le> (of_char c :: nat) \<and> (of_char c :: nat) \<le> 57"
  by (simp add: is_digit_def less_eq_char_def)

lemma foldl_base_mono:
  "a \<le> c \<Longrightarrow> foldl (\<lambda>acc d. acc * b + digit_value d) a s \<le> foldl (\<lambda>acc d. acc * b + digit_value d) c s"
  by (induction s arbitrary: a c) (auto intro: mult_le_mono1)

lemma foldl_base_ge:
  "0 < b \<Longrightarrow> a \<le> foldl (\<lambda>acc d. acc * b + digit_value d) a s"
proof (induction s arbitrary: a)
  case Nil
  then show ?case by simp
next
  case (Cons d s)
  have "a \<le> a * b + digit_value d" using Cons.prems by (cases b) auto
  also have "\<dots> \<le> foldl (\<lambda>acc d. acc * b + digit_value d) (a * b + digit_value d) s"
    by (rule Cons.IH [OF Cons.prems])
  finally show ?case by simp
qed

text \<open>Decimal printing, the inverse the round trips use.\<close>

fun dec_string :: "nat \<Rightarrow> string" where
  "dec_string n = (if n < 10 then [char_of (n + 48)] else dec_string (n div 10) @ [char_of (n mod 10 + 48)])"

declare dec_string.simps [simp del]

lemma digit_char: "d < 10 \<Longrightarrow> is_digit (char_of (d + 48)) \<and> digit_value (char_of (d + 48)) = d"
  by (simp add: is_digit_code digit_value_def)

lemma dec_string_digits: "\<forall>c \<in> set (dec_string n). is_digit c"
proof (induction n rule: dec_string.induct)
  case (1 n)
  then show ?case
    by (subst dec_string.simps) (auto simp: digit_char)
qed

lemma dec_string_nonempty [simp]: "dec_string n \<noteq> []"
  by (subst dec_string.simps) simp

lemma dec_value_dec_string: "dec_value (dec_string n) = n"
proof (induction n rule: dec_string.induct)
  case (1 n)
  show ?case
  proof (cases "n < 10")
    case True
    then show ?thesis by (subst dec_string.simps) (simp add: base_value_def digit_char)
  next
    case False
    then have "foldl (\<lambda>acc c. acc * 10 + digit_value c) 0 (dec_string (n div 10)) = n div 10"
      using 1 by (simp add: base_value_def)
    with False show ?thesis
      by (subst dec_string.simps) (simp add: base_value_def digit_char)
  qed
qed

section \<open>The external library bc-core\<close>

text \<open>
  The byte primitives the code calls (\<open>bc_core_length\<close>, \<open>bc_core_equal\<close>,
  \<open>bc_core_find_last_byte\<close>, \<open>bc_core_parse_unsigned_integer_64_decimal\<close>) are not part of the
  repository: they are parameters, and \<open>core_ok\<close> states what they are documented to do. Each
  returns \<open>None\<close> where the C function returns false.
\<close>

record bc_core =
  core_length :: "string \<Rightarrow> char \<Rightarrow> nat option"
  core_equal :: "string \<Rightarrow> string \<Rightarrow> nat \<Rightarrow> bool option"
  core_find_last_byte :: "string \<Rightarrow> nat \<Rightarrow> char \<Rightarrow> nat option"
  core_parse_u64 :: "string \<Rightarrow> nat \<Rightarrow> (u64 \<times> nat) option"

fun last_index :: "char \<Rightarrow> string \<Rightarrow> nat option" where
  "last_index c [] = None"
| "last_index c (x # xs) =
     (case last_index c xs of Some i \<Rightarrow> Some (Suc i) | None \<Rightarrow> if x = c then Some 0 else None)"

definition parse_u64_prefix :: "string \<Rightarrow> (u64 \<times> nat) option" where
  "parse_u64_prefix s =
     (let ds = takeWhile is_digit s in
      if ds = [] \<or> 2 ^ 64 \<le> dec_value ds then None else Some (of_nat (dec_value ds), length ds))"

definition core_ok :: "bc_core \<Rightarrow> bool" where
  "core_ok C \<longleftrightarrow>
     (\<forall>s. no_nul s \<longrightarrow> core_length C s NUL = Some (length s)) \<and>
     (\<forall>s t n. n \<le> length s \<and> n \<le> length t \<longrightarrow> core_equal C s t n = Some (take n s = take n t)) \<and>
     (\<forall>s n c. n \<le> length s \<longrightarrow> core_find_last_byte C s n c = last_index c (take n s)) \<and>
     (\<forall>s n. n \<le> length s \<longrightarrow> core_parse_u64 C s n = parse_u64_prefix (take n s))"

lemma core_lengthI [core_laws]: "core_ok C \<Longrightarrow> no_nul s \<Longrightarrow> core_length C s NUL = Some (length s)"
  and core_equalI [core_laws]: "core_ok C \<Longrightarrow> n \<le> length s \<Longrightarrow> n \<le> length t \<Longrightarrow>
         core_equal C s t n = Some (take n s = take n t)"
  and core_find_last_byteI [core_laws]: "core_ok C \<Longrightarrow> n \<le> length s \<Longrightarrow>
         core_find_last_byte C s n c = last_index c (take n s)"
  and core_parse_u64I [core_laws]: "core_ok C \<Longrightarrow> n \<le> length s \<Longrightarrow>
         core_parse_u64 C s n = parse_u64_prefix (take n s)"
  by (simp_all add: core_ok_def)

lemma last_index_None [simp]: "last_index c xs = None \<longleftrightarrow> c \<notin> set xs"
  by (induction xs) (auto split: option.splits)

lemma last_index_Some:
  "last_index c xs = Some i \<Longrightarrow> i < length xs \<and> xs ! i = c \<and> c \<notin> set (drop (Suc i) xs)"
proof (induction xs arbitrary: i)
  case Nil
  then show ?case by simp
next
  case (Cons x xs)
  show ?case
  proof (cases "last_index c xs")
    case None
    with Cons.prems have "i = 0" "x = c" by (auto split: if_splits)
    moreover have "c \<notin> set xs" using None by simp
    ultimately show ?thesis by simp
  next
    case (Some j)
    with Cons.prems Cons.IH [of j] show ?thesis by auto
  qed
qed

text \<open>A concrete library with the documented behaviour, for the closed instances.\<close>

definition ref_core :: bc_core where
  "ref_core = \<lparr>core_length = (\<lambda>s c. Some (length s)),
     core_equal = (\<lambda>s t n. Some (take n s = take n t)),
     core_find_last_byte = (\<lambda>s n c. last_index c (take n s)),
     core_parse_u64 = (\<lambda>s n. parse_u64_prefix (take n s))\<rparr>"

lemma ref_core_ok: "core_ok ref_core"
  by (simp add: core_ok_def ref_core_def)

end
