(* ===== verification/Seek_Types.thy ===== *)
theory Seek_Types
  imports Seek_Prelude
begin

text \<open>
  The data of the program: the enums and structs of the internal headers
  (\<^verbatim>\<open>bc_seek_types_internal.h\<close>, \<^verbatim>\<open>bc_seek_filter_internal.h\<close>) and the operating system as
  the code sees it. Sizes and times keep their C width; \<open>size_t\<close> counters that are never
  wrapped by the code (depths, lengths, worker counts) are \<open>nat\<close>.

  The operating system is a parameter: the answers of \<open>fstatat\<close>, \<open>stat\<close>, \<open>openat\<close>,
  \<open>fstat\<close>, \<open>fnmatch\<close>, \<open>time\<close> and of the directory reader of bc-io. The file system does not
  change while the program runs, and a handle stands for the directory it was opened on.
\<close>

section \<open>Enums of bc_seek_types_internal.h\<close>

datatype entry_type = ENTRY_TYPE_ANY | ENTRY_TYPE_FILE | ENTRY_TYPE_DIRECTORY | ENTRY_TYPE_SYMLINK

datatype compare_op = COMPARE_EQUAL | COMPARE_GREATER | COMPARE_LESS

datatype threads_mode = THREADS_MODE_AUTO | THREADS_MODE_MONO | THREADS_MODE_EXPLICIT | THREADS_MODE_IO

datatype output_mode = OUTPUT_MODE_STDOUT | OUTPUT_MODE_FILE

datatype filter_decision = DECISION_REJECT | DECISION_ACCEPT | DECISION_STAT_REQUIRED

section \<open>Options, predicate and candidate\<close>

record cli_options =
  opt_threads_mode :: threads_mode
  opt_explicit_worker_count :: nat
  opt_has_name_glob :: bool
  opt_name_glob :: "string option"
  opt_name_case_insensitive :: bool
  opt_has_path_glob :: bool
  opt_path_glob :: "string option"
  opt_has_type_filter :: bool
  opt_type_filter :: entry_type
  opt_has_size_filter :: bool
  opt_size_op :: compare_op
  opt_size_threshold_bytes :: u64
  opt_has_mtime_filter :: bool
  opt_mtime_op :: compare_op
  opt_mtime_threshold_seconds_ago :: i64
  opt_has_newer_reference :: bool
  opt_newer_reference_mtime :: i64
  opt_has_perm_filter :: bool
  opt_perm_mask :: u32
  opt_has_max_depth :: bool
  opt_max_depth :: nat
  opt_min_depth :: nat
  opt_include_hidden :: bool
  opt_respect_ignore_defaults :: bool
  opt_follow_symlinks :: bool
  opt_one_file_system :: bool
  opt_null_terminated :: bool
  opt_output_mode :: output_mode
  opt_output_path :: "string option"
  opt_positional_argument_count :: nat
  opt_positional_argument_values :: "string list"

text \<open>\<open>bc_core_zero(out_options, sizeof(*out_options))\<close>: every field zero, every pointer NULL.\<close>

definition zero_options :: cli_options where
  "zero_options = \<lparr>opt_threads_mode = THREADS_MODE_AUTO, opt_explicit_worker_count = 0,
     opt_has_name_glob = False, opt_name_glob = None, opt_name_case_insensitive = False,
     opt_has_path_glob = False, opt_path_glob = None,
     opt_has_type_filter = False, opt_type_filter = ENTRY_TYPE_ANY,
     opt_has_size_filter = False, opt_size_op = COMPARE_EQUAL, opt_size_threshold_bytes = 0,
     opt_has_mtime_filter = False, opt_mtime_op = COMPARE_EQUAL, opt_mtime_threshold_seconds_ago = 0,
     opt_has_newer_reference = False, opt_newer_reference_mtime = 0,
     opt_has_perm_filter = False, opt_perm_mask = 0,
     opt_has_max_depth = False, opt_max_depth = 0, opt_min_depth = 0,
     opt_include_hidden = False, opt_respect_ignore_defaults = False, opt_follow_symlinks = False,
     opt_one_file_system = False, opt_null_terminated = False,
     opt_output_mode = OUTPUT_MODE_STDOUT, opt_output_path = None,
     opt_positional_argument_count = 0, opt_positional_argument_values = []\<rparr>"

record predicate =
  pred_has_name_glob :: bool
  pred_name_glob :: "string option"
  pred_name_case_insensitive :: bool
  pred_has_path_glob :: bool
  pred_path_glob :: "string option"
  pred_has_type_filter :: bool
  pred_type_filter :: entry_type
  pred_has_size_filter :: bool
  pred_size_op :: compare_op
  pred_size_threshold_bytes :: u64
  pred_has_mtime_filter :: bool
  pred_mtime_op :: compare_op
  pred_mtime_threshold_seconds_ago :: i64
  pred_has_newer_reference :: bool
  pred_newer_reference_mtime :: i64
  pred_has_perm_filter :: bool
  pred_perm_mask :: u32
  pred_has_max_depth :: bool
  pred_max_depth :: nat
  pred_min_depth :: nat
  pred_include_hidden :: bool
  pred_respect_ignore_defaults :: bool
  pred_follow_symlinks :: bool
  pred_require_stat :: bool
  pred_evaluation_reference_time :: i64

text \<open>
  A candidate. \<open>cand_path\<close> and \<open>cand_basename\<close> are the C strings behind the two pointers
  (up to their NUL); the lengths are the separate fields of the struct, which may be
  shorter than the C string.
\<close>

record candidate =
  cand_path :: string
  cand_path_length :: nat
  cand_basename :: string
  cand_basename_length :: nat
  cand_depth :: nat
  cand_entry_type :: entry_type
  cand_type_resolved :: bool
  cand_size_bytes :: u64
  cand_modification_time :: i64
  cand_permission_mask :: u32
  cand_stat_populated :: bool
  cand_follow_symlinks_enabled :: bool
  cand_parent_directory_fd :: int

section \<open>The operating system\<close>

text \<open>The fields of \<open>struct stat\<close> the code reads.\<close>

record stat_info =
  st_mode :: u32
  st_size :: i64
  st_mtime :: i64
  st_dev :: u64

text \<open>A directory entry as \<open>bc_io_dirent_reader_next\<close> delivers it.\<close>

record dirent =
  de_name :: string
  de_d_type :: u8

type_synonym fd = int
type_synonym errno = int

definition AT_FDCWD :: fd where
  "AT_FDCWD = -100"

definition STDOUT_FILENO :: fd where
  "STDOUT_FILENO = 1"

text \<open>
  \<open>sys_fstatat fd name follow\<close> follows symbolic links when \<open>follow\<close> is set (flags 0) and
  not otherwise (\<open>AT_SYMLINK_NOFOLLOW\<close>). \<open>sys_openat fd name nofollow\<close> opens a directory
  (\<open>O_RDONLY | O_DIRECTORY | O_CLOEXEC\<close>, with \<open>O_NOFOLLOW\<close> when \<open>nofollow\<close>).
  A failing call is \<open>Inl errno\<close>.
  \<open>sys_reader_create fd\<close> is whether \<open>bc_io_dirent_reader_create\<close> succeeds;
  \<open>sys_entries fd\<close> the entries \<open>bc_io_dirent_reader_next\<close> then returns one by one, and
  \<open>sys_read_error fd\<close> the error that ends them, if any.
  \<open>sys_errno_residue fd name\<close> is the value \<open>errno\<close> happens to hold after a call that did not
  fail: no call of the code sets it there.
\<close>

record os =
  sys_fstatat :: "fd \<Rightarrow> string \<Rightarrow> bool \<Rightarrow> errno + stat_info"
  sys_openat :: "fd \<Rightarrow> string \<Rightarrow> bool \<Rightarrow> errno + fd"
  sys_fstat :: "fd \<Rightarrow> errno + stat_info"
  sys_errno_residue :: "fd \<Rightarrow> string \<Rightarrow> errno"
  sys_fnmatch :: "string \<Rightarrow> string \<Rightarrow> nat \<Rightarrow> int"
  sys_time :: i64
  sys_reader_create :: "fd \<Rightarrow> bool"
  sys_entries :: "fd \<Rightarrow> dirent list"
  sys_read_error :: "fd \<Rightarrow> errno option"

text \<open>\<open>stat(path)\<close> is \<open>fstatat(AT_FDCWD, path, 0)\<close>.\<close>

definition sys_stat :: "os \<Rightarrow> string \<Rightarrow> errno + stat_info" where
  "sys_stat os path = sys_fstatat os AT_FDCWD path True"

subsection \<open>Macros of the system headers\<close>

definition S_IFMT :: u32 where "S_IFMT = 0xF000"

definition S_ISREG :: "u32 \<Rightarrow> bool" where "S_ISREG m \<longleftrightarrow> m AND S_IFMT = 0x8000"

definition S_ISDIR :: "u32 \<Rightarrow> bool" where "S_ISDIR m \<longleftrightarrow> m AND S_IFMT = 0x4000"

definition S_ISLNK :: "u32 \<Rightarrow> bool" where "S_ISLNK m \<longleftrightarrow> m AND S_IFMT = 0xA000"

definition DT_UNKNOWN :: u8 where "DT_UNKNOWN = 0"

definition DT_DIR :: u8 where "DT_DIR = 4"

definition DT_REG :: u8 where "DT_REG = 8"

definition DT_LNK :: u8 where "DT_LNK = 10"

text \<open>\<open>FNM_CASEFOLD\<close> of the GNU C library.\<close>

definition FNM_CASEFOLD :: nat where "FNM_CASEFOLD = 16"

definition ENOMEM :: errno where "ENOMEM = 12"

definition EINVAL :: errno where "EINVAL = 22"

definition ENAMETOOLONG :: errno where "ENAMETOOLONG = 36"

text \<open>The bits of the file type exclude each other.\<close>

lemma S_IS_exclusive:
  "S_ISREG m \<Longrightarrow> \<not> S_ISDIR m" "S_ISREG m \<Longrightarrow> \<not> S_ISLNK m" "S_ISDIR m \<Longrightarrow> \<not> S_ISLNK m"
  by (simp_all add: S_ISREG_def S_ISDIR_def S_ISLNK_def)

text \<open>The type three places of the code read off a stat mode, with the same four branches.\<close>

definition type_of_mode :: "u32 \<Rightarrow> entry_type" where
  "type_of_mode m =
     (if S_ISREG m then ENTRY_TYPE_FILE
      else if S_ISDIR m then ENTRY_TYPE_DIRECTORY
      else if S_ISLNK m then ENTRY_TYPE_SYMLINK
      else ENTRY_TYPE_ANY)"

text \<open>\<open>st_size >= 0 ? (uint64_t)st_size : 0u\<close> and \<open>(unsigned int)(st_mode & 07777)\<close>.\<close>

definition size_of_stat :: "stat_info \<Rightarrow> u64" where
  "size_of_stat st = (if 0 \<le> sint (st_size st) then st_size st else 0)"

definition perm_of_stat :: "stat_info \<Rightarrow> u32" where
  "perm_of_stat st = st_mode st AND 0xFFF"

end
