(* ===== verification/Seek_Strings.thy ===== *)
theory Seek_Strings
  imports Seek_Types
begin

text \<open>
  The string helpers of \<^verbatim>\<open>src/strings/bc_seek_strings.c\<close> over the bc-core primitives.
\<close>

text \<open>A failing \<open>bc_core_length\<close> or \<open>bc_core_equal\<close> makes the comparison false.\<close>

definition strings_equal :: "bc_core \<Rightarrow> string \<Rightarrow> string \<Rightarrow> bool" where
  "strings_equal C left right =
     (case core_length C left NUL of None \<Rightarrow> False
      | Some left_length \<Rightarrow>
        (case core_length C right NUL of None \<Rightarrow> False
         | Some right_length \<Rightarrow>
             if left_length \<noteq> right_length then False
             else (case core_equal C left right left_length of None \<Rightarrow> False | Some result \<Rightarrow> result)))"

text \<open>A failing \<open>bc_core_length\<close> leaves the initial 0.\<close>

definition strings_length :: "bc_core \<Rightarrow> string \<Rightarrow> nat" where
  "strings_length C value = (case core_length C value NUL of None \<Rightarrow> 0 | Some n \<Rightarrow> n)"

lemma strings_equal_eq [core_laws]:
  assumes "core_ok C" "no_nul s" "no_nul t"
  shows "strings_equal C s t \<longleftrightarrow> s = t"
  using assms by (auto simp: strings_equal_def core_laws)

lemma strings_length_eq [core_laws]: "core_ok C \<Longrightarrow> no_nul s \<Longrightarrow> strings_length C s = length s"
  by (simp add: strings_length_def core_laws)

end
