(* ===== verification/Seek_Demo.thy ===== *)
theory Seek_Demo
  imports Seek_Types
begin

text \<open>
  A small concrete system for the closed instances of the theorems: a glob matcher with
  \<^verbatim>\<open>*\<close> and \<^verbatim>\<open>?\<close>, and the tree of the end-to-end tests (\<^verbatim>\<open>top.txt\<close>, \<^verbatim>\<open>sub/alpha.c\<close>,
  \<^verbatim>\<open>sub/beta.h\<close>, \<^verbatim>\<open>sub/deep/gamma.c\<close>, \<^verbatim>\<open>.hidden\<close> and \<^verbatim>\<open>.git/config\<close>) under the working
  directory. No general statement depends on it.
\<close>

fun demo_glob :: "string \<Rightarrow> string \<Rightarrow> bool" where
  "demo_glob [] s = (s = [])"
| "demo_glob (p # ps) [] = (p = CHR ''*'' \<and> demo_glob ps [])"
| "demo_glob (p # ps) (c # s) =
     (if p = CHR ''*'' then demo_glob ps (c # s) \<or> demo_glob (p # ps) s
      else (p = CHR ''?'' \<or> p = c) \<and> demo_glob ps s)"

definition regular :: "i64 \<Rightarrow> i64 \<Rightarrow> stat_info" where
  "regular bytes mtime = \<lparr>st_mode = 0x81A4, st_size = bytes, st_mtime = mtime, st_dev = 1\<rparr>"

definition directory :: stat_info where
  "directory = \<lparr>st_mode = 0x41ED, st_size = 4096, st_mtime = 0, st_dev = 1\<rparr>"

definition file_entry :: "string \<Rightarrow> dirent" where
  "file_entry name = \<lparr>de_name = name, de_d_type = 8\<rparr>"

definition dir_entry :: "string \<Rightarrow> dirent" where
  "dir_entry name = \<lparr>de_name = name, de_d_type = 4\<rparr>"

definition demo_stat :: "fd \<Rightarrow> string \<Rightarrow> errno + stat_info" where
  "demo_stat fd name =
     (if fd = -100 \<and> name = ''.'' then Inr directory
      else if name = ''top.txt'' then Inr (regular 9 1000)
      else if name = ''alpha.c'' then Inr (regular 64 2000)
      else if name = ''beta.h'' then Inr (regular 4 3000)
      else if name = ''gamma.c'' then Inr (regular 5 4000)
      else if name = ''sub'' \<or> name = ''deep'' \<or> name = ''.git'' then Inr directory
      else Inl 2)"

definition demo_open :: "fd \<Rightarrow> string \<Rightarrow> errno + fd" where
  "demo_open fd name =
     (if fd = -100 \<and> name = ''.'' then Inr 3
      else if fd = 3 \<and> name = ''sub'' then Inr 4
      else if fd = 4 \<and> name = ''deep'' then Inr 5
      else if fd = 3 \<and> name = ''.git'' then Inr 6
      else Inl 2)"

definition demo_entries :: "fd \<Rightarrow> dirent list" where
  "demo_entries fd =
     (if fd = 3 then [file_entry ''top.txt'', dir_entry ''sub'', file_entry ''.hidden'', dir_entry ''.git'']
      else if fd = 4 then [file_entry ''alpha.c'', file_entry ''beta.h'', dir_entry ''deep'']
      else if fd = 5 then [file_entry ''gamma.c'']
      else if fd = 6 then [file_entry ''config'']
      else [])"

definition demo_os :: os where
  "demo_os = \<lparr>sys_fstatat = (\<lambda>fd name follow. demo_stat fd name),
     sys_openat = (\<lambda>fd name nofollow. demo_open fd name),
     sys_fstat = (\<lambda>fd. Inr directory),
     sys_errno_residue = (\<lambda>fd name. 0),
     sys_fnmatch = (\<lambda>pattern value flags. if demo_glob pattern value then 0 else 1),
     sys_time = 10000,
     sys_reader_create = (\<lambda>fd. True),
     sys_entries = demo_entries,
     sys_read_error = (\<lambda>fd. None)\<rparr>"

lemmas demo_simps = demo_os_def demo_stat_def demo_open_def demo_entries_def regular_def directory_def
  file_entry_def dir_entry_def

text \<open>A predicate with every filter off, and a candidate with nothing known.\<close>

definition plain_predicate :: predicate where
  "plain_predicate = \<lparr>pred_has_name_glob = False, pred_name_glob = None, pred_name_case_insensitive = False,
     pred_has_path_glob = False, pred_path_glob = None,
     pred_has_type_filter = False, pred_type_filter = ENTRY_TYPE_ANY,
     pred_has_size_filter = False, pred_size_op = COMPARE_EQUAL, pred_size_threshold_bytes = 0,
     pred_has_mtime_filter = False, pred_mtime_op = COMPARE_EQUAL, pred_mtime_threshold_seconds_ago = 0,
     pred_has_newer_reference = False, pred_newer_reference_mtime = 0,
     pred_has_perm_filter = False, pred_perm_mask = 0,
     pred_has_max_depth = False, pred_max_depth = 0, pred_min_depth = 0,
     pred_include_hidden = False, pred_respect_ignore_defaults = True, pred_follow_symlinks = False,
     pred_require_stat = False, pred_evaluation_reference_time = 10000\<rparr>"

definition plain_candidate :: "string \<Rightarrow> fd \<Rightarrow> candidate" where
  "plain_candidate name fd = \<lparr>cand_path = name, cand_path_length = length name,
     cand_basename = name, cand_basename_length = length name, cand_depth = 1,
     cand_entry_type = ENTRY_TYPE_ANY, cand_type_resolved = False, cand_size_bytes = 0,
     cand_modification_time = 0, cand_permission_mask = 0, cand_stat_populated = False,
     cand_follow_symlinks_enabled = False, cand_parent_directory_fd = fd\<rparr>"

end
