(* ===== verification/Seek_Filter.thy ===== *)
theory Seek_Filter
  imports Seek_Strings Seek_Demo
begin

text \<open>
  The predicate filter of \<^verbatim>\<open>src/filter/bc_seek_filter.c\<close>: the table of pruned directory
  names, the glob match, the two comparisons, the predicate built from the options, the lazy
  stat and the eight checks of \<open>bc_seek_filter_evaluate\<close> in their order.

  \<open>predicate_matches\<close> is the specification: the conjunction of the eight conditions, read off a
  candidate whose stat fields are known. The lemmas show that the evaluation decides exactly
  that conjunction, that it never answers \<open>DECISION_STAT_REQUIRED\<close> to its callers, which stat
  calls it makes and which it saves, and that saving them does not change the decision.
  The four checks that read stat fields share the contract \<open>stat_filter\<close>.
\<close>

section \<open>Definitions\<close>

subsection \<open>Pruned directory names and globs\<close>

definition ignored_directory_names :: "string list" where
  "ignored_directory_names =
     [''.git'', ''.hg'', ''.svn'', ''.bzr'', ''CVS'', ''.cache'', ''node_modules'', ''target'',
      ''__pycache__'', ''.venv'', ''.tox'', ''.mypy_cache'', ''.pytest_cache'', ''.ruff_cache'',
      ''.ccls-cache'']"

fun ignored_name_loop :: "bc_core \<Rightarrow> string list \<Rightarrow> string \<Rightarrow> nat \<Rightarrow> bool" where
  "ignored_name_loop C [] name name_length = False"
| "ignored_name_loop C (entry # rest) name name_length =
     (if strings_length C entry \<noteq> name_length then ignored_name_loop C rest name name_length
      else if core_equal C entry name name_length = Some True then True
      else ignored_name_loop C rest name name_length)"

definition filter_ignored_directory_name :: "bc_core \<Rightarrow> string \<Rightarrow> nat \<Rightarrow> bool" where
  "filter_ignored_directory_name C name name_length =
     ignored_name_loop C ignored_directory_names name name_length"

definition filter_glob_matches :: "os \<Rightarrow> string \<Rightarrow> string \<Rightarrow> bool \<Rightarrow> bool" where
  "filter_glob_matches os pattern value case_insensitive =
     (sys_fnmatch os pattern value (if case_insensitive then FNM_CASEFOLD else 0) = 0)"

subsection \<open>Comparisons\<close>

definition filter_compare :: "u64 \<Rightarrow> u64 \<Rightarrow> compare_op \<Rightarrow> bool" where
  "filter_compare left right op =
     (case op of COMPARE_GREATER \<Rightarrow> left > right
      | COMPARE_LESS \<Rightarrow> left < right
      | COMPARE_EQUAL \<Rightarrow> left = right)"

definition filter_compare_signed :: "i64 \<Rightarrow> i64 \<Rightarrow> compare_op \<Rightarrow> bool" where
  "filter_compare_signed left right op =
     (case op of COMPARE_GREATER \<Rightarrow> sint left > sint right
      | COMPARE_LESS \<Rightarrow> sint left < sint right
      | COMPARE_EQUAL \<Rightarrow> left = right)"

subsection \<open>The predicate of the options\<close>

definition predicate_from_options :: "os \<Rightarrow> cli_options \<Rightarrow> predicate" where
  "predicate_from_options os options =
     \<lparr>pred_has_name_glob = opt_has_name_glob options,
      pred_name_glob = opt_name_glob options,
      pred_name_case_insensitive = opt_name_case_insensitive options,
      pred_has_path_glob = opt_has_path_glob options,
      pred_path_glob = opt_path_glob options,
      pred_has_type_filter = opt_has_type_filter options,
      pred_type_filter = opt_type_filter options,
      pred_has_size_filter = opt_has_size_filter options,
      pred_size_op = opt_size_op options,
      pred_size_threshold_bytes = opt_size_threshold_bytes options,
      pred_has_mtime_filter = opt_has_mtime_filter options,
      pred_mtime_op = opt_mtime_op options,
      pred_mtime_threshold_seconds_ago = opt_mtime_threshold_seconds_ago options,
      pred_has_newer_reference = opt_has_newer_reference options,
      pred_newer_reference_mtime = opt_newer_reference_mtime options,
      pred_has_perm_filter = opt_has_perm_filter options,
      pred_perm_mask = opt_perm_mask options,
      pred_has_max_depth = opt_has_max_depth options,
      pred_max_depth = opt_max_depth options,
      pred_min_depth = opt_min_depth options,
      pred_include_hidden = opt_include_hidden options,
      pred_respect_ignore_defaults = opt_respect_ignore_defaults options,
      pred_follow_symlinks = opt_follow_symlinks options,
      pred_require_stat =
        (opt_has_size_filter options \<or> opt_has_mtime_filter options \<or>
         opt_has_newer_reference options \<or> opt_has_perm_filter options),
      pred_evaluation_reference_time = sys_time os\<rparr>"

subsection \<open>The lazy stat\<close>

definition filter_populate_stat :: "os \<Rightarrow> candidate \<Rightarrow> bool \<times> candidate" where
  "filter_populate_stat os c =
     (case sys_fstatat os (cand_parent_directory_fd c) (cand_basename c) (cand_follow_symlinks_enabled c) of
        Inl _ \<Rightarrow> (False, c)
      | Inr entry_stat \<Rightarrow>
          (let c1 = (if \<not> cand_type_resolved c \<or> cand_follow_symlinks_enabled c
                     then c\<lparr>cand_entry_type := type_of_mode (st_mode entry_stat), cand_type_resolved := True\<rparr>
                     else c)
           in (True, c1\<lparr>cand_size_bytes := size_of_stat entry_stat,
                        cand_modification_time := st_mtime entry_stat,
                        cand_permission_mask := perm_of_stat entry_stat,
                        cand_stat_populated := True\<rparr>)))"

subsection \<open>The checks\<close>

definition check_depth :: "predicate \<Rightarrow> candidate \<Rightarrow> filter_decision" where
  "check_depth p c =
     (if cand_depth c < pred_min_depth p then DECISION_REJECT
      else if pred_has_max_depth p \<and> cand_depth c > pred_max_depth p then DECISION_REJECT
      else DECISION_ACCEPT)"

definition check_type :: "predicate \<Rightarrow> candidate \<Rightarrow> filter_decision" where
  "check_type p c =
     (if \<not> pred_has_type_filter p then DECISION_ACCEPT
      else if \<not> cand_type_resolved c then DECISION_STAT_REQUIRED
      else if cand_entry_type c = pred_type_filter p then DECISION_ACCEPT else DECISION_REJECT)"

definition check_name :: "os \<Rightarrow> predicate \<Rightarrow> candidate \<Rightarrow> filter_decision" where
  "check_name os p c =
     (if \<not> pred_has_name_glob p then DECISION_ACCEPT
      else if filter_glob_matches os (the (pred_name_glob p)) (cand_basename c) (pred_name_case_insensitive p)
        then DECISION_ACCEPT else DECISION_REJECT)"

definition check_path :: "os \<Rightarrow> predicate \<Rightarrow> candidate \<Rightarrow> filter_decision" where
  "check_path os p c =
     (if \<not> pred_has_path_glob p then DECISION_ACCEPT
      else if filter_glob_matches os (the (pred_path_glob p)) (cand_path c) False
        then DECISION_ACCEPT else DECISION_REJECT)"

definition check_size :: "predicate \<Rightarrow> candidate \<Rightarrow> filter_decision" where
  "check_size p c =
     (if \<not> pred_has_size_filter p then DECISION_ACCEPT
      else if \<not> cand_stat_populated c then DECISION_STAT_REQUIRED
      else if filter_compare (cand_size_bytes c) (pred_size_threshold_bytes p) (pred_size_op p)
        then DECISION_ACCEPT else DECISION_REJECT)"

text \<open>The age is a 64-bit signed subtraction. For times so far apart that it overflows C leaves the
  result undefined; the word wraps around, as the machine does.\<close>

definition check_mtime :: "predicate \<Rightarrow> candidate \<Rightarrow> filter_decision" where
  "check_mtime p c =
     (if \<not> pred_has_mtime_filter p then DECISION_ACCEPT
      else if \<not> cand_stat_populated c then DECISION_STAT_REQUIRED
      else let seconds_ago = pred_evaluation_reference_time p - cand_modification_time c in
        if filter_compare_signed seconds_ago (pred_mtime_threshold_seconds_ago p) (pred_mtime_op p)
        then DECISION_ACCEPT else DECISION_REJECT)"

definition check_newer :: "predicate \<Rightarrow> candidate \<Rightarrow> filter_decision" where
  "check_newer p c =
     (if \<not> pred_has_newer_reference p then DECISION_ACCEPT
      else if \<not> cand_stat_populated c then DECISION_STAT_REQUIRED
      else if sint (cand_modification_time c) > sint (pred_newer_reference_mtime p)
        then DECISION_ACCEPT else DECISION_REJECT)"

definition check_perm :: "predicate \<Rightarrow> candidate \<Rightarrow> filter_decision" where
  "check_perm p c =
     (if \<not> pred_has_perm_filter p then DECISION_ACCEPT
      else if \<not> cand_stat_populated c then DECISION_STAT_REQUIRED
      else if cand_permission_mask c AND 0xFFF = pred_perm_mask p AND 0xFFF
        then DECISION_ACCEPT else DECISION_REJECT)"

subsection \<open>bc_seek_filter_evaluate\<close>

text \<open>The last four checks, in order; the first that does not accept is the decision.\<close>

definition evaluate_stat_checks :: "predicate \<Rightarrow> candidate \<Rightarrow> filter_decision" where
  "evaluate_stat_checks p c =
     (let decision = check_size p c in
      if decision \<noteq> DECISION_ACCEPT then decision
      else let decision = check_mtime p c in
      if decision \<noteq> DECISION_ACCEPT then decision
      else let decision = check_newer p c in
      if decision \<noteq> DECISION_ACCEPT then decision
      else let decision = check_perm p c in
      if decision \<noteq> DECISION_ACCEPT then decision
      else DECISION_ACCEPT)"

text \<open>From the name check on. The candidate is passed by pointer: the stat updates it.\<close>

definition evaluate_after_type :: "os \<Rightarrow> predicate \<Rightarrow> candidate \<Rightarrow> filter_decision \<times> candidate" where
  "evaluate_after_type os p c =
     (let decision = check_name os p c in
      if decision \<noteq> DECISION_ACCEPT then (decision, c)
      else let decision = check_path os p c in
      if decision \<noteq> DECISION_ACCEPT then (decision, c)
      else if pred_require_stat p \<and> \<not> cand_stat_populated c
        then (let (ok, c1) = filter_populate_stat os c in
              if \<not> ok then (DECISION_REJECT, c1) else (evaluate_stat_checks p c1, c1))
      else (evaluate_stat_checks p c, c))"

definition filter_evaluate :: "os \<Rightarrow> predicate \<Rightarrow> candidate \<Rightarrow> filter_decision \<times> candidate" where
  "filter_evaluate os p c =
     (let decision = check_depth p c in
      if decision \<noteq> DECISION_ACCEPT then (decision, c)
      else let decision = check_type p c in
      if decision = DECISION_REJECT then (decision, c)
      else if decision = DECISION_STAT_REQUIRED
        then (let (ok, c1) = filter_populate_stat os c in
              if \<not> ok then (DECISION_REJECT, c1)
              else let decision = check_type p c1 in
                if decision \<noteq> DECISION_ACCEPT then (decision, c1)
                else evaluate_after_type os p c1)
      else evaluate_after_type os p c)"

section \<open>The specification\<close>

definition depth_ok :: "predicate \<Rightarrow> nat \<Rightarrow> bool" where
  "depth_ok p d \<longleftrightarrow> pred_min_depth p \<le> d \<and> (pred_has_max_depth p \<longrightarrow> d \<le> pred_max_depth p)"

definition type_ok :: "predicate \<Rightarrow> candidate \<Rightarrow> bool" where
  "type_ok p c \<longleftrightarrow> (pred_has_type_filter p \<longrightarrow> cand_entry_type c = pred_type_filter p)"

definition globs_ok :: "os \<Rightarrow> predicate \<Rightarrow> candidate \<Rightarrow> bool" where
  "globs_ok os p c \<longleftrightarrow>
     (pred_has_name_glob p \<longrightarrow>
        filter_glob_matches os (the (pred_name_glob p)) (cand_basename c) (pred_name_case_insensitive p)) \<and>
     (pred_has_path_glob p \<longrightarrow> filter_glob_matches os (the (pred_path_glob p)) (cand_path c) False)"

definition size_test :: "predicate \<Rightarrow> candidate \<Rightarrow> bool" where
  "size_test p c \<longleftrightarrow> filter_compare (cand_size_bytes c) (pred_size_threshold_bytes p) (pred_size_op p)"

definition mtime_test :: "predicate \<Rightarrow> candidate \<Rightarrow> bool" where
  "mtime_test p c \<longleftrightarrow>
     filter_compare_signed (pred_evaluation_reference_time p - cand_modification_time c)
       (pred_mtime_threshold_seconds_ago p) (pred_mtime_op p)"

definition newer_test :: "predicate \<Rightarrow> candidate \<Rightarrow> bool" where
  "newer_test p c \<longleftrightarrow> sint (pred_newer_reference_mtime p) < sint (cand_modification_time c)"

definition perm_test :: "predicate \<Rightarrow> candidate \<Rightarrow> bool" where
  "perm_test p c \<longleftrightarrow> cand_permission_mask c AND 0xFFF = pred_perm_mask p AND 0xFFF"

definition stat_ok :: "predicate \<Rightarrow> candidate \<Rightarrow> bool" where
  "stat_ok p c \<longleftrightarrow>
     (pred_has_size_filter p \<longrightarrow> size_test p c) \<and> (pred_has_mtime_filter p \<longrightarrow> mtime_test p c) \<and>
     (pred_has_newer_reference p \<longrightarrow> newer_test p c) \<and> (pred_has_perm_filter p \<longrightarrow> perm_test p c)"

definition predicate_matches :: "os \<Rightarrow> predicate \<Rightarrow> candidate \<Rightarrow> bool" where
  "predicate_matches os p c \<longleftrightarrow> depth_ok p (cand_depth c) \<and> type_ok p c \<and> globs_ok os p c \<and> stat_ok p c"

text \<open>What \<open>predicate_from_options\<close> guarantees: \<open>require_stat\<close> is set for every stat filter, and a
  glob that is on has a pattern.\<close>

definition needs_stat :: "predicate \<Rightarrow> bool" where
  "needs_stat p \<longleftrightarrow> pred_has_size_filter p \<or> pred_has_mtime_filter p \<or> pred_has_newer_reference p \<or> pred_has_perm_filter p"

definition wf_predicate :: "predicate \<Rightarrow> bool" where
  "wf_predicate p \<longleftrightarrow> pred_require_stat p = needs_stat p"

lemma predicate_from_options_wf [simp]: "wf_predicate (predicate_from_options os options)"
  by (simp add: wf_predicate_def needs_stat_def predicate_from_options_def)

section \<open>The checks that read stat fields\<close>

text \<open>The contract of a check that needs the stat fields when its option is on.\<close>

locale stat_filter =
  fixes check :: "predicate \<Rightarrow> candidate \<Rightarrow> filter_decision"
    and active :: "predicate \<Rightarrow> bool"
    and test :: "predicate \<Rightarrow> candidate \<Rightarrow> bool"
  assumes check_inactive: "\<not> active p \<Longrightarrow> check p c = DECISION_ACCEPT"
    and check_unknown: "active p \<Longrightarrow> \<not> cand_stat_populated c \<Longrightarrow> check p c = DECISION_STAT_REQUIRED"
    and check_known: "active p \<Longrightarrow> cand_stat_populated c \<Longrightarrow>
           check p c = (if test p c then DECISION_ACCEPT else DECISION_REJECT)"
begin

lemma check_cases:
  "check p c = (if \<not> active p then DECISION_ACCEPT
     else if \<not> cand_stat_populated c then DECISION_STAT_REQUIRED
     else if test p c then DECISION_ACCEPT else DECISION_REJECT)"
  by (simp add: check_inactive check_unknown check_known)

lemma accept_iff: "check p c = DECISION_ACCEPT \<longleftrightarrow> (active p \<longrightarrow> cand_stat_populated c \<and> test p c)"
  by (simp add: check_cases)

lemma decided: "cand_stat_populated c \<or> \<not> active p \<Longrightarrow> check p c \<noteq> DECISION_STAT_REQUIRED"
  by (auto simp: check_cases)

end

interpretation size_check: stat_filter check_size pred_has_size_filter size_test
  by unfold_locales (simp_all add: check_size_def size_test_def)

interpretation mtime_check: stat_filter check_mtime pred_has_mtime_filter mtime_test
  by unfold_locales (simp_all add: check_mtime_def mtime_test_def)

interpretation newer_check: stat_filter check_newer pred_has_newer_reference newer_test
  by unfold_locales (simp_all add: check_newer_def newer_test_def)

interpretation perm_check: stat_filter check_perm pred_has_perm_filter perm_test
  by unfold_locales (simp_all add: check_perm_def perm_test_def)

lemmas stat_check_cases = size_check.check_cases mtime_check.check_cases newer_check.check_cases
  perm_check.check_cases

lemma stat_checks_known:
  assumes "cand_stat_populated c \<or> \<not> needs_stat p"
  shows "evaluate_stat_checks p c = (if stat_ok p c then DECISION_ACCEPT else DECISION_REJECT)"
  using assms by (auto simp: evaluate_stat_checks_def Let_def stat_check_cases stat_ok_def needs_stat_def)

text \<open>The decisions in order: a rejection outweighs a missing stat, which outweighs an acceptance. The
  early returns of the stat checks take the least of the four decisions, so their order only
  matters for the work done.\<close>

fun decision_rank :: "filter_decision \<Rightarrow> nat" where
  "decision_rank DECISION_REJECT = 0"
| "decision_rank DECISION_STAT_REQUIRED = 1"
| "decision_rank DECISION_ACCEPT = 2"

lemma decision_rank_inject: "decision_rank d = decision_rank e \<Longrightarrow> d = e"
  by (cases d; cases e) simp_all

instantiation filter_decision :: linorder
begin

definition less_eq_filter_decision :: "filter_decision \<Rightarrow> filter_decision \<Rightarrow> bool" where
  "less_eq_filter_decision d e \<longleftrightarrow> decision_rank d \<le> decision_rank e"

definition less_filter_decision :: "filter_decision \<Rightarrow> filter_decision \<Rightarrow> bool" where
  "less_filter_decision d e \<longleftrightarrow> decision_rank d < decision_rank e"

instance
  by standard (auto simp: less_eq_filter_decision_def less_filter_decision_def decision_rank_inject)

end

lemma stat_checks_least:
  "evaluate_stat_checks p c = min (check_size p c) (min (check_mtime p c) (min (check_newer p c) (check_perm p c)))"
  by (simp add: evaluate_stat_checks_def Let_def stat_check_cases min_def less_eq_filter_decision_def)

lemma depth_check_iff: "check_depth p c = (if depth_ok p (cand_depth c) then DECISION_ACCEPT else DECISION_REJECT)"
  by (auto simp: check_depth_def depth_ok_def)

lemma type_check_known:
  "cand_type_resolved c \<or> \<not> pred_has_type_filter p \<Longrightarrow>
   check_type p c = (if type_ok p c then DECISION_ACCEPT else DECISION_REJECT)"
  by (auto simp: check_type_def type_ok_def)

lemma type_check_unknown:
  "\<not> cand_type_resolved c \<Longrightarrow> pred_has_type_filter p \<Longrightarrow> check_type p c = DECISION_STAT_REQUIRED"
  by (simp add: check_type_def)

lemma glob_checks_iff:
  "check_name os p c = DECISION_ACCEPT \<and> check_path os p c = DECISION_ACCEPT \<longleftrightarrow> globs_ok os p c"
  "check_name os p c \<noteq> DECISION_STAT_REQUIRED" "check_path os p c \<noteq> DECISION_STAT_REQUIRED"
  by (auto simp: check_name_def check_path_def globs_ok_def)

section \<open>The stat call\<close>

text \<open>What a stat leaves alone, and what it fills in.\<close>

lemma populate_frame:
  assumes "filter_populate_stat os c = (ok, c1)"
  shows "cand_path c1 = cand_path c" "cand_path_length c1 = cand_path_length c"
    "cand_basename c1 = cand_basename c" "cand_basename_length c1 = cand_basename_length c"
    "cand_depth c1 = cand_depth c" "cand_follow_symlinks_enabled c1 = cand_follow_symlinks_enabled c"
    "cand_parent_directory_fd c1 = cand_parent_directory_fd c"
  using assms by (auto simp: filter_populate_stat_def Let_def split: sum.splits if_splits)

lemma populate_failed: "filter_populate_stat os c = (False, c1) \<Longrightarrow> c1 = c"
  by (auto simp: filter_populate_stat_def Let_def split: sum.splits)

lemma populate_ok:
  "filter_populate_stat os c = (True, c1) \<Longrightarrow> cand_stat_populated c1 \<and> cand_type_resolved c1"
  by (auto simp: filter_populate_stat_def Let_def split: sum.splits)

lemma populate_keeps_type:
  "filter_populate_stat os c = (ok, c1) \<Longrightarrow> cand_type_resolved c \<Longrightarrow> \<not> cand_follow_symlinks_enabled c \<Longrightarrow>
   cand_entry_type c1 = cand_entry_type c \<and> cand_type_resolved c1"
  by (auto simp: filter_populate_stat_def Let_def split: sum.splits)

lemma populate_keeps_resolved:
  "filter_populate_stat os c = (ok, c1) \<Longrightarrow> cand_type_resolved c \<Longrightarrow> cand_type_resolved c1"
  by (auto simp: filter_populate_stat_def Let_def split: sum.splits if_splits)

lemma globs_ok_cong:
  "cand_path c1 = cand_path c \<Longrightarrow> cand_basename c1 = cand_basename c \<Longrightarrow> globs_ok os p c1 = globs_ok os p c"
  by (simp add: globs_ok_def)

text \<open>A second stat of the same candidate adds nothing.\<close>

lemma populate_again:
  "filter_populate_stat os c = (True, c1) \<Longrightarrow> filter_populate_stat os c1 = (True, c1)"
  by (auto simp: filter_populate_stat_def Let_def split: sum.splits if_splits)

section \<open>The evaluation\<close>

lemma after_type_known:
  assumes "wf_predicate p" "cand_stat_populated c \<or> \<not> needs_stat p"
  shows "evaluate_after_type os p c =
    (if globs_ok os p c \<and> stat_ok p c then DECISION_ACCEPT else DECISION_REJECT, c)"
proof -
  have r: "\<not> (pred_require_stat p \<and> \<not> cand_stat_populated c)"
    using assms by (auto simp: wf_predicate_def)
  show ?thesis
    unfolding evaluate_after_type_def Let_def stat_checks_known [OF assms(2)]
    using r glob_checks_iff [of os p c] by (cases "check_name os p c"; cases "check_path os p c") auto
qed

lemma after_type_unknown:
  assumes "wf_predicate p" "\<not> cand_stat_populated c" "needs_stat p"
  shows "evaluate_after_type os p c =
    (if \<not> globs_ok os p c then (DECISION_REJECT, c)
     else (case filter_populate_stat os c of (ok, c1) \<Rightarrow>
       (if ok \<and> stat_ok p c1 then DECISION_ACCEPT else DECISION_REJECT, c1)))"
proof -
  have r: "pred_require_stat p" using assms by (simp add: wf_predicate_def)
  obtain ok c1 where pop: "filter_populate_stat os c = (ok, c1)" by fastforce
  show ?thesis
  proof (cases ok)
    case True
    then have "cand_stat_populated c1" using pop populate_ok by simp
    then have "evaluate_stat_checks p c1 = (if stat_ok p c1 then DECISION_ACCEPT else DECISION_REJECT)"
      by (intro stat_checks_known) simp
    then show ?thesis
      using True r assms(2) glob_checks_iff [of os p c]
      by (cases "check_name os p c"; cases "check_path os p c") (auto simp: evaluate_after_type_def pop)
  next
    case False
    then show ?thesis
      using r assms(2) glob_checks_iff [of os p c]
      by (cases "check_name os p c"; cases "check_path os p c") (auto simp: evaluate_after_type_def pop)
  qed
qed

text \<open>The evaluation in four cases: by depth, by an unresolved type, by a stat still missing, and
  with everything known.\<close>

lemma evaluate_shallow: "\<not> depth_ok p (cand_depth c) \<Longrightarrow> filter_evaluate os p c = (DECISION_REJECT, c)"
  by (simp add: filter_evaluate_def depth_check_iff)

lemma evaluate_unresolved:
  assumes "wf_predicate p" "depth_ok p (cand_depth c)" "pred_has_type_filter p" "\<not> cand_type_resolved c"
  shows "filter_evaluate os p c =
    (case filter_populate_stat os c of (ok, c1) \<Rightarrow>
      (if ok \<and> type_ok p c1 \<and> globs_ok os p c \<and> stat_ok p c1 then DECISION_ACCEPT else DECISION_REJECT, c1))"
proof -
  obtain ok c1 where pop: "filter_populate_stat os c = (ok, c1)" by fastforce
  show ?thesis
  proof (cases ok)
    case True
    then have known: "cand_stat_populated c1" "cand_type_resolved c1" using pop populate_ok by auto
    have g: "globs_ok os p c1 = globs_ok os p c" using populate_frame [OF pop] by (intro globs_ok_cong)
    show ?thesis
      using True assms pop known g
      by (simp add: filter_evaluate_def depth_check_iff type_check_unknown type_check_known after_type_known Let_def)
  next
    case False
    then show ?thesis
      using assms pop by (simp add: filter_evaluate_def depth_check_iff type_check_unknown Let_def)
  qed
qed

lemma evaluate_resolved:
  assumes "depth_ok p (cand_depth c)" "cand_type_resolved c \<or> \<not> pred_has_type_filter p"
  shows "filter_evaluate os p c =
    (if type_ok p c then evaluate_after_type os p c else (DECISION_REJECT, c))"
  using assms by (simp add: filter_evaluate_def depth_check_iff type_check_known Let_def)

lemma evaluate_known:
  assumes "wf_predicate p" "cand_type_resolved c \<or> \<not> pred_has_type_filter p"
    "cand_stat_populated c \<or> \<not> needs_stat p"
  shows "filter_evaluate os p c =
    (if predicate_matches os p c then DECISION_ACCEPT else DECISION_REJECT, c)"
  using assms evaluate_shallow evaluate_resolved [OF _ assms(2)] after_type_known [OF assms(1,3)]
  by (cases "depth_ok p (cand_depth c)") (auto simp: predicate_matches_def)

lemma evaluate_missing_stat:
  assumes "wf_predicate p" "cand_type_resolved c \<or> \<not> pred_has_type_filter p"
    "needs_stat p" "\<not> cand_stat_populated c"
  shows "filter_evaluate os p c =
    (if depth_ok p (cand_depth c) \<and> type_ok p c \<and> globs_ok os p c
     then (case filter_populate_stat os c of (ok, c1) \<Rightarrow>
       (if ok \<and> stat_ok p c1 then DECISION_ACCEPT else DECISION_REJECT, c1))
     else (DECISION_REJECT, c))"
  using assms evaluate_shallow [of p c os] evaluate_resolved [OF _ assms(2), of os]
    after_type_unknown [OF assms(1,4,3), of os]
  by (cases "depth_ok p (cand_depth c)") auto

text \<open>Whatever the decision, it is final, and the candidate is untouched or freshly statted.\<close>

lemma evaluate_shape:
  assumes "wf_predicate p"
  shows "\<exists>b c1. filter_evaluate os p c = (if b then DECISION_ACCEPT else DECISION_REJECT, c1) \<and>
    (c1 = c \<or> filter_populate_stat os c = (True, c1))"
proof -
  obtain ok c1 where pop: "filter_populate_stat os c = (ok, c1)" by fastforce
  have kept: "c1 = c \<or> filter_populate_stat os c = (True, c1)"
    using pop populate_failed by (cases ok) auto
  consider "\<not> depth_ok p (cand_depth c)"
    | "depth_ok p (cand_depth c)" "pred_has_type_filter p" "\<not> cand_type_resolved c"
    | "cand_type_resolved c \<or> \<not> pred_has_type_filter p" "cand_stat_populated c \<or> \<not> needs_stat p"
    | "cand_type_resolved c \<or> \<not> pred_has_type_filter p" "needs_stat p" "\<not> cand_stat_populated c"
    by blast
  then show ?thesis
  proof cases
    case 1
    then show ?thesis using evaluate_shallow [of p c os] by (intro exI [of _ False] exI [of _ c]) simp
  next
    case 2
    then show ?thesis using evaluate_unresolved [OF assms 2] pop kept by auto
  next
    case 3
    then show ?thesis using evaluate_known [OF assms 3] by blast
  next
    case 4
    let ?cheap = "depth_ok p (cand_depth c) \<and> type_ok p c \<and> globs_ok os p c"
    show ?thesis
    proof (cases ?cheap)
      case True
      then show ?thesis using evaluate_missing_stat [OF assms 4] pop kept by auto
    next
      case False
      then show ?thesis
        using evaluate_missing_stat [OF assms 4] by (intro exI [of _ False] exI [of _ c]) auto
    qed
  qed
qed

lemma evaluate_frame:
  assumes "wf_predicate p" "filter_evaluate os p c = (d, c1)"
  shows "cand_path c1 = cand_path c" "cand_path_length c1 = cand_path_length c"
    "cand_basename c1 = cand_basename c" "cand_depth c1 = cand_depth c"
    "cand_follow_symlinks_enabled c1 = cand_follow_symlinks_enabled c"
    "cand_parent_directory_fd c1 = cand_parent_directory_fd c"
  using evaluate_shape [OF assms(1), of os c] assms(2) populate_frame by fastforce+

section \<open>The pruned names\<close>

lemma ignored_name_loop_iff:
  assumes "core_ok C" "\<forall>e \<in> set names. no_nul e" "n \<le> length name"
  shows "ignored_name_loop C names name n \<longleftrightarrow> take n name \<in> set names"
  using assms
proof (induction names)
  case Nil
  then show ?case by simp
next
  case (Cons e names)
  then show ?case
    by (auto simp: strings_length_eq core_equalI)
qed

lemma ignored_directory_names_no_nul: "\<forall>e \<in> set ignored_directory_names. no_nul e"
  by (simp add: ignored_directory_names_def)

lemma ignored_directory_name_iff:
  assumes "core_ok C" "n \<le> length name"
  shows "filter_ignored_directory_name C name n \<longleftrightarrow> take n name \<in> set ignored_directory_names"
  unfolding filter_ignored_directory_name_def
  by (rule ignored_name_loop_iff [OF assms(1) ignored_directory_names_no_nul assms(2)])

section \<open>Properties\<close>

text \<open>The size filter \<^verbatim>\<open>--size=+32c\<close> of the end-to-end tests, and a file of the demo tree.\<close>

definition size_predicate :: predicate where
  "size_predicate = plain_predicate\<lparr>pred_has_size_filter := True, pred_size_op := COMPARE_GREATER,
     pred_size_threshold_bytes := 32, pred_require_stat := True\<rparr>"

definition alpha_candidate :: candidate where
  "alpha_candidate = (plain_candidate ''alpha.c'' 4)\<lparr>cand_entry_type := ENTRY_TYPE_FILE,
     cand_type_resolved := True\<rparr>"

lemmas filter_demo_simps = size_predicate_def plain_predicate_def alpha_candidate_def plain_candidate_def
  wf_predicate_def needs_stat_def

lemma plain_predicate_flags:
  "\<not> pred_include_hidden plain_predicate" "\<not> pred_has_max_depth plain_predicate"
  "pred_respect_ignore_defaults plain_predicate"
  by (simp_all add: plain_predicate_def)

lemma plain_evaluate: "filter_evaluate os plain_predicate c = (DECISION_ACCEPT, c)"
  by (simp add: filter_evaluate_def check_depth_def check_type_def evaluate_after_type_def check_name_def check_path_def
      evaluate_stat_checks_def check_size_def check_mtime_def check_newer_def check_perm_def plain_predicate_def)

text \<open>C8: on a candidate whose type and stat fields are known, the eight checks with their
  early returns decide exactly the conjunction of the eight conditions, in any combination of
  options, and leave the candidate alone.\<close>

theorem evaluate_decides_predicate:
  assumes "wf_predicate p" "cand_type_resolved c" "cand_stat_populated c"
  shows "filter_evaluate os p c =
    (if predicate_matches os p c then DECISION_ACCEPT else DECISION_REJECT, c)"
  using assms by (intro evaluate_known) simp_all

theorem evaluate_decides_predicate_witness:
  "filter_evaluate demo_os size_predicate
     (alpha_candidate\<lparr>cand_stat_populated := True, cand_size_bytes := 64\<rparr>) =
   (DECISION_ACCEPT, alpha_candidate\<lparr>cand_stat_populated := True, cand_size_bytes := 64\<rparr>)"
  by (subst evaluate_decides_predicate)
    (simp_all add: filter_demo_simps predicate_matches_def depth_ok_def type_ok_def globs_ok_def stat_ok_def
      size_test_def filter_compare_def)

text \<open>C39: For every predicate built from options, the evaluation never hands
  \<open>DECISION_STAT_REQUIRED\<close> to its caller: each of the checks that may ask for a stat is
  preceded by one or by a rejection.\<close>

theorem evaluate_never_stat_required:
  "fst (filter_evaluate os (predicate_from_options os options) c) \<noteq> DECISION_STAT_REQUIRED"
  using evaluate_shape [OF predicate_from_options_wf, of os os options c] by (auto split: if_splits)

text \<open>C9: statting lazily decides as statting every candidate first would, unless symbolic
  links are followed and the directory entry already gave a type.\<close>

theorem evaluate_lazy_equals_eager:
  assumes "wf_predicate p" "\<not> cand_stat_populated c" "cand_type_resolved c \<Longrightarrow> \<not> cand_follow_symlinks_enabled c"
    and pop: "filter_populate_stat os c = (True, full)"
  shows "fst (filter_evaluate os p c) = fst (filter_evaluate os p full)"
proof -
  have full: "filter_evaluate os p full = (if predicate_matches os p full then DECISION_ACCEPT else DECISION_REJECT, full)"
    using assms(1) populate_ok [OF pop] by (intro evaluate_known) simp_all
  have frame: "cand_depth full = cand_depth c" "globs_ok os p full = globs_ok os p c"
    using populate_frame [OF pop] by (simp_all add: globs_ok_def)
  have type: "type_ok p full = type_ok p c" if "cand_type_resolved c"
    using that populate_keeps_type [OF pop] assms(3) by (simp add: type_ok_def)
  consider "\<not> depth_ok p (cand_depth c)"
    | "depth_ok p (cand_depth c)" "pred_has_type_filter p" "\<not> cand_type_resolved c"
    | "cand_type_resolved c \<or> \<not> pred_has_type_filter p" "\<not> needs_stat p"
    | "cand_type_resolved c \<or> \<not> pred_has_type_filter p" "needs_stat p"
    by blast
  then show ?thesis
  proof cases
    case 1
    then show ?thesis using evaluate_shallow [of p c os] full frame by (simp add: predicate_matches_def)
  next
    case 2
    then show ?thesis
      using evaluate_unresolved [OF assms(1) 2] pop full frame by (simp add: predicate_matches_def)
  next
    case 3
    have "stat_ok p full" "stat_ok p c" using 3(2) by (simp_all add: stat_ok_def needs_stat_def)
    moreover have "type_ok p full = type_ok p c"
      using 3(1) type by (cases "cand_type_resolved c") (simp_all add: type_ok_def)
    ultimately show ?thesis
      using evaluate_known [OF assms(1) 3(1)] 3(2) full frame by (simp add: predicate_matches_def)
  next
    case 4
    have "type_ok p full = type_ok p c"
      using 4(1) type by (cases "cand_type_resolved c") (simp_all add: type_ok_def)
    then show ?thesis
      using evaluate_missing_stat [OF assms(1) 4 assms(2)] pop full frame by (simp add: predicate_matches_def)
  qed
qed

theorem evaluate_lazy_equals_eager_witness:
  "fst (filter_evaluate demo_os size_predicate alpha_candidate) =
   fst (filter_evaluate demo_os size_predicate (snd (filter_populate_stat demo_os alpha_candidate)))"
proof (rule evaluate_lazy_equals_eager)
  show "filter_populate_stat demo_os alpha_candidate = (True, snd (filter_populate_stat demo_os alpha_candidate))"
    by (simp add: filter_populate_stat_def filter_demo_simps demo_simps)
qed (simp_all add: filter_demo_simps)

text \<open>When a stat is called for: within the depths, if a type filter is on and the type is not known;
  else if type and globs match, a stat filter is on and the candidate is not statted yet.\<close>

definition stat_wanted :: "os \<Rightarrow> predicate \<Rightarrow> candidate \<Rightarrow> bool" where
  "stat_wanted os p c \<longleftrightarrow> depth_ok p (cand_depth c) \<and>
     (pred_has_type_filter p \<and> \<not> cand_type_resolved c \<or>
      type_ok p c \<and> globs_ok os p c \<and> needs_stat p \<and> \<not> cand_stat_populated c)"

lemma evaluate_without_stat:
  assumes "wf_predicate p" "\<not> stat_wanted os p c"
  shows "filter_evaluate os p c = (if predicate_matches os p c then DECISION_ACCEPT else DECISION_REJECT, c)"
proof (cases "depth_ok p (cand_depth c)")
  case True
  with assms(2) have type: "cand_type_resolved c \<or> \<not> pred_has_type_filter p"
    and cheap: "\<not> (type_ok p c \<and> globs_ok os p c \<and> needs_stat p \<and> \<not> cand_stat_populated c)"
    by (auto simp: stat_wanted_def)
  show ?thesis
    using evaluate_known [OF assms(1) type] evaluate_missing_stat [OF assms(1) type] cheap
    by (cases "cand_stat_populated c \<or> \<not> needs_stat p") (auto simp: predicate_matches_def)
qed (simp add: evaluate_shallow predicate_matches_def)

lemma evaluate_with_stat:
  assumes "wf_predicate p" "stat_wanted os p c" "filter_populate_stat os c = (ok, c1)"
  shows "\<exists>b. filter_evaluate os p c = (if ok \<and> b then DECISION_ACCEPT else DECISION_REJECT, c1)"
proof (cases "pred_has_type_filter p \<and> \<not> cand_type_resolved c")
  case True
  then have "filter_evaluate os p c =
    (if ok \<and> type_ok p c1 \<and> globs_ok os p c \<and> stat_ok p c1 then DECISION_ACCEPT else DECISION_REJECT, c1)"
    using evaluate_unresolved [OF assms(1), of c os] assms(2,3) by (simp add: stat_wanted_def)
  then show ?thesis by blast
next
  case False
  then have "depth_ok p (cand_depth c) \<and> type_ok p c \<and> globs_ok os p c" "needs_stat p" "\<not> cand_stat_populated c"
    "cand_type_resolved c \<or> \<not> pred_has_type_filter p"
    using assms(2) by (auto simp: stat_wanted_def)
  then have "filter_evaluate os p c = (if ok \<and> stat_ok p c1 then DECISION_ACCEPT else DECISION_REJECT, c1)"
    using evaluate_missing_stat [OF assms(1), of c os] assms(3) by simp
  then show ?thesis by blast
qed

text \<open>C11: a stat is made exactly when it is called for. Otherwise the answer of \<open>fstatat\<close>
  is never looked at and the candidate stays as it was; when it is, the candidate becomes what the
  stat makes of it, and one that cannot be statted is rejected.\<close>

theorem evaluate_stats_only_when_needed:
  assumes "wf_predicate p"
  shows "if stat_wanted os p c
    then snd (filter_evaluate os p c) = snd (filter_populate_stat os c) \<and>
         (\<not> fst (filter_populate_stat os c) \<longrightarrow> fst (filter_evaluate os p c) = DECISION_REJECT)
    else filter_evaluate (os\<lparr>sys_fstatat := f\<rparr>) p c = filter_evaluate os p c \<and> snd (filter_evaluate os p c) = c"
proof -
  have globs: "globs_ok (os\<lparr>sys_fstatat := f\<rparr>) p c = globs_ok os p c"
    by (simp add: globs_ok_def filter_glob_matches_def)
  then have same: "predicate_matches (os\<lparr>sys_fstatat := f\<rparr>) p c = predicate_matches os p c"
    "stat_wanted (os\<lparr>sys_fstatat := f\<rparr>) p c = stat_wanted os p c"
    by (simp_all add: predicate_matches_def stat_wanted_def)
  obtain ok c1 where pop: "filter_populate_stat os c = (ok, c1)" by fastforce
  show ?thesis
  proof (cases "stat_wanted os p c")
    case True
    from evaluate_with_stat [OF assms True pop] obtain b
      where "filter_evaluate os p c = (if ok \<and> b then DECISION_ACCEPT else DECISION_REJECT, c1)" ..
    then show ?thesis using True pop by simp
  next
    case False
    then show ?thesis
      using evaluate_without_stat [OF assms, of os c] evaluate_without_stat [OF assms, of "os\<lparr>sys_fstatat := f\<rparr>" c] same
      by simp
  qed
qed

text \<open>With the size filter on, the file is statted; a name glob that does not match spares it.\<close>

theorem evaluate_stats_only_when_needed_witness:
  "snd (filter_evaluate demo_os size_predicate alpha_candidate) = snd (filter_populate_stat demo_os alpha_candidate) \<and>
   filter_evaluate (demo_os\<lparr>sys_fstatat := (\<lambda>fd name follow. Inl 5)\<rparr>)
       (size_predicate\<lparr>pred_has_name_glob := True, pred_name_glob := Some ''*.h''\<rparr>) alpha_candidate =
     filter_evaluate demo_os (size_predicate\<lparr>pred_has_name_glob := True, pred_name_glob := Some ''*.h''\<rparr>) alpha_candidate"
proof
  have "wf_predicate size_predicate" "stat_wanted demo_os size_predicate alpha_candidate"
    by (simp_all add: filter_demo_simps stat_wanted_def depth_ok_def type_ok_def globs_ok_def)
  with evaluate_stats_only_when_needed [of size_predicate demo_os alpha_candidate]
  show "snd (filter_evaluate demo_os size_predicate alpha_candidate) = snd (filter_populate_stat demo_os alpha_candidate)"
    by simp
next
  let ?p = "size_predicate\<lparr>pred_has_name_glob := True, pred_name_glob := Some ''*.h''\<rparr>"
  have "wf_predicate ?p" "\<not> stat_wanted demo_os ?p alpha_candidate"
    by (simp_all add: filter_demo_simps stat_wanted_def globs_ok_def filter_glob_matches_def demo_os_def)
  with evaluate_stats_only_when_needed [of ?p demo_os alpha_candidate "\<lambda>fd name follow. Inl 5"]
  show "filter_evaluate (demo_os\<lparr>sys_fstatat := (\<lambda>fd name follow. Inl 5)\<rparr>) ?p alpha_candidate =
      filter_evaluate demo_os ?p alpha_candidate"
    by simp
qed

text \<open>When the stat the decision needs fails, the candidate is rejected unchanged.\<close>

lemma evaluate_stat_failure_rejects:
  assumes "wf_predicate p"
    and "sys_fstatat os (cand_parent_directory_fd c) (cand_basename c) (cand_follow_symlinks_enabled c) = Inl e"
    and "needs_stat p \<and> \<not> cand_stat_populated c \<or> pred_has_type_filter p \<and> \<not> cand_type_resolved c"
  shows "filter_evaluate os p c = (DECISION_REJECT, c)"
proof -
  have pop: "filter_populate_stat os c = (False, c)" using assms(2) by (simp add: filter_populate_stat_def)
  show ?thesis
    using evaluate_shallow [of p c os] evaluate_unresolved [OF assms(1), of c os]
      evaluate_missing_stat [OF assms(1), of c os] assms(3) pop
    by (cases "depth_ok p (cand_depth c)"; cases "cand_type_resolved c \<or> \<not> pred_has_type_filter p") auto
qed

lemma evaluate_stat_failure_rejects_instance:
  "filter_evaluate demo_os size_predicate (plain_candidate ''missing'' 4) =
   (DECISION_REJECT, plain_candidate ''missing'' 4)"
  by (rule evaluate_stat_failure_rejects [where e = 2]) (simp_all add: filter_demo_simps demo_simps)

text \<open>C35: with symbolic links followed, \<^verbatim>\<open>--type=f\<close> on a link to a regular file depends on
  whether the file system reports entry types: a reported link is rejected before any stat,
  an unreported one is statted through the link and accepted.\<close>

theorem evaluate_followed_link_depends_on_d_type:
  assumes "wf_predicate p" "pred_has_type_filter p" "pred_type_filter p = ENTRY_TYPE_FILE" "\<not> needs_stat p"
    and "depth_ok p (cand_depth c)" "globs_ok os p c" "cand_follow_symlinks_enabled c"
    and "sys_fstatat os (cand_parent_directory_fd c) (cand_basename c) True = Inr st" "S_ISREG (st_mode st)"
  shows "fst (filter_evaluate os p (c\<lparr>cand_entry_type := ENTRY_TYPE_SYMLINK, cand_type_resolved := True\<rparr>)) = DECISION_REJECT \<and>
         fst (filter_evaluate os p (c\<lparr>cand_entry_type := ENTRY_TYPE_ANY, cand_type_resolved := False\<rparr>)) = DECISION_ACCEPT"
proof
  let ?c = "c\<lparr>cand_entry_type := ENTRY_TYPE_SYMLINK, cand_type_resolved := True\<rparr>"
  show "fst (filter_evaluate os p ?c) = DECISION_REJECT"
    using assms evaluate_known [OF assms(1), of ?c os]
    by (simp add: predicate_matches_def type_ok_def)
next
  let ?u = "c\<lparr>cand_entry_type := ENTRY_TYPE_ANY, cand_type_resolved := False\<rparr>"
  have "globs_ok os p ?u" using assms(6) by (simp add: globs_ok_def)
  then show "fst (filter_evaluate os p ?u) = DECISION_ACCEPT"
    using assms evaluate_unresolved [OF assms(1), of ?u os]
    by (simp add: filter_populate_stat_def type_of_mode_def type_ok_def stat_ok_def needs_stat_def)
qed

definition type_f_predicate :: predicate where
  "type_f_predicate = plain_predicate\<lparr>pred_has_type_filter := True, pred_type_filter := ENTRY_TYPE_FILE,
     pred_follow_symlinks := True\<rparr>"

theorem evaluate_followed_link_depends_on_d_type_witness:
  "\<exists>os p c. fst (filter_evaluate os p (c\<lparr>cand_entry_type := ENTRY_TYPE_SYMLINK, cand_type_resolved := True\<rparr>)) = DECISION_REJECT \<and>
     fst (filter_evaluate os p (c\<lparr>cand_entry_type := ENTRY_TYPE_ANY, cand_type_resolved := False\<rparr>)) = DECISION_ACCEPT"
proof (intro exI)
  let ?c = "(plain_candidate ''alpha.c'' 4)\<lparr>cand_follow_symlinks_enabled := True\<rparr>"
  show "fst (filter_evaluate demo_os type_f_predicate (?c\<lparr>cand_entry_type := ENTRY_TYPE_SYMLINK, cand_type_resolved := True\<rparr>)) = DECISION_REJECT \<and>
     fst (filter_evaluate demo_os type_f_predicate (?c\<lparr>cand_entry_type := ENTRY_TYPE_ANY, cand_type_resolved := False\<rparr>)) = DECISION_ACCEPT"
    by (rule evaluate_followed_link_depends_on_d_type [where st = "regular 64 2000"])
      (simp_all add: type_f_predicate_def filter_demo_simps demo_simps depth_ok_def globs_ok_def S_ISREG_def S_IFMT_def)
qed

end
