(* ===== verification/Seek_Output.thy ===== *)
theory Seek_Output
  imports Seek_Types "HOL-Library.Sublist"
begin

text \<open>
  The output of \<^verbatim>\<open>src/output/bc_seek_output.c\<close>: a buffered writer on a descriptor, the
  separator, the count of emitted paths, and the four operations attach, open, emit and close.

  The buffered writer belongs to bc-core: its operations are the record \<open>writer_ops\<close>, a
  parameter over the type \<open>'w\<close> of writers. Each returns whether it succeeded and the writer
  after it. \<open>wr_zero\<close> is a zeroed writer; \<open>wr_accepted\<close> and \<open>wr_written\<close> are the view of the
  specification (the bytes the writer has taken so far, buffered or written, and those that have
  reached the descriptor): the code reads neither. \<open>writer_ok\<close> and \<open>writer_delivers\<close> state what
  the writer is documented to do.

  Emitting is one of two ways the program appends a match; \<open>match_sink\<close> is the contract both
  ways keep, and the lines an emitted sequence of paths amounts to are proved inside it.
\<close>

section \<open>The writer of bc-core\<close>

record 'w writer_ops =
  wr_zero :: 'w
  wr_init :: "fd \<Rightarrow> nat \<Rightarrow> 'w option"
  wr_write_bytes :: "'w \<Rightarrow> string \<Rightarrow> bool \<times> 'w"
  wr_write_char :: "'w \<Rightarrow> char \<Rightarrow> bool \<times> 'w"
  wr_flush :: "'w \<Rightarrow> bool \<times> 'w"
  wr_destroy :: "'w \<Rightarrow> bool \<times> 'w"
  wr_open :: "string \<Rightarrow> fd"
  wr_close :: "fd \<Rightarrow> int"
  wr_accepted :: "'w \<Rightarrow> string"
  wr_written :: "'w \<Rightarrow> string"

text \<open>A write that succeeds has taken all its bytes, one that fails some first part of them;
  flushing and destroying take none.\<close>

definition writer_ok :: "'w writer_ops \<Rightarrow> bool" where
  "writer_ok W \<longleftrightarrow>
     (\<forall>fd cap w. wr_init W fd cap = Some w \<longrightarrow> wr_accepted W w = []) \<and>
     (\<forall>w bs w'. wr_write_bytes W w bs = (True, w') \<longrightarrow> wr_accepted W w' = wr_accepted W w @ bs) \<and>
     (\<forall>w bs w'. wr_write_bytes W w bs = (False, w') \<longrightarrow>
        (\<exists>n. wr_accepted W w' = wr_accepted W w @ take n bs)) \<and>
     (\<forall>w c w'. wr_write_char W w c = (True, w') \<longrightarrow> wr_accepted W w' = wr_accepted W w @ [c]) \<and>
     (\<forall>w c w'. wr_write_char W w c = (False, w') \<longrightarrow> wr_accepted W w' = wr_accepted W w) \<and>
     (\<forall>w. wr_accepted W (snd (wr_flush W w)) = wr_accepted W w) \<and>
     (\<forall>w. wr_accepted W (snd (wr_destroy W w)) = wr_accepted W w)"

lemma writer_okD:
  assumes "writer_ok W"
  shows "wr_init W fd cap = Some w \<Longrightarrow> wr_accepted W w = []"
    "wr_write_bytes W w bs = (True, w') \<Longrightarrow> wr_accepted W w' = wr_accepted W w @ bs"
    "wr_write_bytes W w bs = (False, w') \<Longrightarrow> \<exists>n. wr_accepted W w' = wr_accepted W w @ take n bs"
    "wr_write_char W w c = (True, w') \<Longrightarrow> wr_accepted W w' = wr_accepted W w @ [c]"
    "wr_write_char W w c = (False, w') \<Longrightarrow> wr_accepted W w' = wr_accepted W w"
    "wr_accepted W (snd (wr_flush W w)) = wr_accepted W w"
    "wr_accepted W (snd (wr_destroy W w)) = wr_accepted W w"
  using assms unfolding writer_ok_def by blast+

text \<open>A writer whose writes never fail.\<close>

definition writer_reliable :: "'w writer_ops \<Rightarrow> bool" where
  "writer_reliable W \<longleftrightarrow> (\<forall>w bs. fst (wr_write_bytes W w bs)) \<and> (\<forall>w c. fst (wr_write_char W w c))"

text \<open>What reaches the descriptor is always a first part of what was taken, is never taken back, and
  is all of it after a flush that succeeds. A flush that fails, and a destruction, promise no more.\<close>

definition writer_delivers :: "'w writer_ops \<Rightarrow> bool" where
  "writer_delivers W \<longleftrightarrow>
     (\<forall>w. prefix (wr_written W w) (wr_accepted W w)) \<and>
     (\<forall>w w'. wr_flush W w = (True, w') \<longrightarrow> wr_written W w' = wr_accepted W w) \<and>
     (\<forall>w. prefix (wr_written W w) (wr_written W (snd (wr_destroy W w))))"

lemma writer_deliversD:
  assumes "writer_delivers W"
  shows "prefix (wr_written W w) (wr_accepted W w)"
    "wr_flush W w = (True, w') \<Longrightarrow> wr_written W w' = wr_accepted W w"
    "prefix (wr_written W w) (wr_written W (snd (wr_destroy W w)))"
  using assms unfolding writer_delivers_def by blast+

section \<open>Definitions\<close>

definition OUTPUT_BUFFER_BYTES :: nat where "OUTPUT_BUFFER_BYTES = 64 * 1024"

definition EMIT_STACK_CAPACITY :: nat where "EMIT_STACK_CAPACITY = 4097"

record 'w seek_output =
  out_writer :: 'w
  out_fd :: fd
  out_owns_fd :: bool
  out_separator :: char
  out_emitted_count :: nat

text \<open>Attach and close also return the descriptors they close.\<close>

definition output_attach :: "'w writer_ops \<Rightarrow> fd \<Rightarrow> bool \<Rightarrow> bool \<Rightarrow> bool \<times> 'w seek_output \<times> fd list" where
  "output_attach W fd null_terminated owns_fd =
     (let out = \<lparr>out_writer = wr_zero W, out_fd = fd, out_owns_fd = owns_fd,
                    out_separator = (if null_terminated then NUL else CHR ''\<newline>''),
                    out_emitted_count = 0\<rparr>
      in case wr_init W fd OUTPUT_BUFFER_BYTES of
           None \<Rightarrow> (False, out\<lparr>out_fd := -1\<rparr>, if owns_fd then [fd] else [])
         | Some w \<Rightarrow> (True, out\<lparr>out_writer := w\<rparr>, []))"

definition output_open_stdout :: "'w writer_ops \<Rightarrow> bool \<Rightarrow> bool \<times> 'w seek_output \<times> fd list" where
  "output_open_stdout W null_terminated = output_attach W STDOUT_FILENO null_terminated False"

text \<open>When the file cannot be opened the output is not written to.\<close>

definition output_open_file :: "'w writer_ops \<Rightarrow> string \<Rightarrow> bool \<Rightarrow> 'w seek_output \<Rightarrow> bool \<times> 'w seek_output \<times> fd list" where
  "output_open_file W path null_terminated out =
     (let fd = wr_open W path in
      if fd < 0 then (False, out, [])
      else output_attach W fd null_terminated True)"

text \<open>\<open>output_emit W out path n\<close> reads \<open>n\<close> bytes behind \<open>path\<close>. The stack buffer is not
  initialised by the code; what it holds past the separator is never read.\<close>

definition output_emit :: "'w writer_ops \<Rightarrow> 'w seek_output \<Rightarrow> string \<Rightarrow> nat \<Rightarrow> bool \<times> 'w seek_output" where
  "output_emit W out path path_length =
     (if path_length + 1 \<le> EMIT_STACK_CAPACITY then
        (let combined = copy_at (replicate EMIT_STACK_CAPACITY NUL) 0 (take path_length path);
             combined = combined[path_length := out_separator out];
             (ok, w) = wr_write_bytes W (out_writer out) (take (path_length + 1) combined);
             out = out\<lparr>out_writer := w\<rparr>
         in if \<not> ok then (False, out)
            else (True, out\<lparr>out_emitted_count := out_emitted_count out + 1\<rparr>))
      else
        (let (ok, w) = wr_write_bytes W (out_writer out) (take path_length path);
             out = out\<lparr>out_writer := w\<rparr>
         in if \<not> ok then (False, out)
            else let (ok, w) = wr_write_char W (out_writer out) (out_separator out);
                     out = out\<lparr>out_writer := w\<rparr>
                 in if \<not> ok then (False, out)
                    else (True, out\<lparr>out_emitted_count := out_emitted_count out + 1\<rparr>)))"

definition output_close :: "'w writer_ops \<Rightarrow> 'w seek_output \<Rightarrow> bool \<times> 'w seek_output \<times> fd list" where
  "output_close W out =
     (if out_fd out < 0 then (True, out, [])
      else let (ok, w) = wr_flush W (out_writer out);
               (_, w) = wr_destroy W w;
               closed = (if out_owns_fd out then [out_fd out] else []);
               ok = (if out_owns_fd out \<and> wr_close W (out_fd out) \<noteq> 0 then False else ok)
           in (ok, out\<lparr>out_writer := w, out_fd := -1\<rparr>, closed))"

section \<open>The contract of a sink\<close>

text \<open>The text of a sequence of matches.\<close>

definition lines_of :: "char \<Rightarrow> string list \<Rightarrow> string" where
  "lines_of sep paths = concat (map (\<lambda>p. p @ [sep]) paths)"

lemma lines_of_simps [simp]:
  "lines_of sep [] = []" "lines_of sep (p # ps) = p @ sep # lines_of sep ps"
  "lines_of sep (ps @ qs) = lines_of sep ps @ lines_of sep qs"
  by (simp_all add: lines_of_def)

text \<open>A sink takes one path at a time; \<open>promise\<close> is what is assumed of the external code below it.\<close>

fun emit_all :: "('s \<Rightarrow> string \<Rightarrow> nat \<Rightarrow> bool \<times> 's) \<Rightarrow> 's \<Rightarrow> string list \<Rightarrow> bool \<times> 's" where
  "emit_all emit s [] = (True, s)"
| "emit_all emit s (p # ps) =
     (case emit s p (length p) of (ok, s') \<Rightarrow> if ok then emit_all emit s' ps else (False, s'))"

locale match_sink =
  fixes promise :: "'p \<Rightarrow> bool"
    and emit :: "'p \<Rightarrow> 's \<Rightarrow> string \<Rightarrow> nat \<Rightarrow> bool \<times> 's"
    and content :: "'p \<Rightarrow> 's \<Rightarrow> string"
    and separator :: "'p \<Rightarrow> 's \<Rightarrow> char"
  assumes emit_appends: "promise P \<Longrightarrow> n \<le> length path \<Longrightarrow> emit P s path n = (True, s') \<Longrightarrow>
           content P s' = content P s @ take n path @ [separator P s]"
    and emit_separator: "emit P s path n = (ok, s') \<Longrightarrow> separator P s' = separator P s"
    and emit_failed: "promise P \<Longrightarrow> n \<le> length path \<Longrightarrow> emit P s path n = (False, s') \<Longrightarrow>
           \<exists>k. content P s' = content P s @ take k (take n path @ [separator P s])"
begin

lemma emit_all_appends:
  assumes "promise P" "emit_all (emit P) s ps = (True, s')"
  shows "content P s' = content P s @ lines_of (separator P s) ps"
  using assms(2)
proof (induction ps arbitrary: s)
  case Nil
  then show ?case by simp
next
  case (Cons p ps)
  from Cons.prems obtain s1
    where e: "emit P s p (length p) = (True, s1)" and rest: "emit_all (emit P) s1 ps = (True, s')"
    by (auto split: prod.splits if_splits)
  from Cons.IH [OF rest] emit_separator [OF e] emit_appends [OF assms(1) _ e]
  show ?case by simp
qed

text \<open>Whatever fails, what was taken before stays, and what is taken is a first part of the lines.\<close>

lemma emit_all_prefix:
  assumes "promise P" "emit_all (emit P) s ps = (ok, s')"
  shows "\<exists>k. content P s' = content P s @ take k (lines_of (separator P s) ps)"
  using assms(2)
proof (induction ps arbitrary: s)
  case Nil
  then show ?case by simp
next
  case (Cons p ps)
  let ?line = "p @ [separator P s]"
  obtain ok1 s1 where e: "emit P s p (length p) = (ok1, s1)" by fastforce
  show ?case
  proof (cases ok1)
    case True
    then have e': "emit P s p (length p) = (True, s1)" using e by simp
    have c: "content P s1 = content P s @ ?line" using emit_appends [OF assms(1) _ e'] by simp
    from e' Cons.prems have "emit_all (emit P) s1 ps = (ok, s')" by simp
    from Cons.IH [OF this] obtain k
      where "content P s' = content P s1 @ take k (lines_of (separator P s1) ps)" by blast
    then have "content P s' = content P s @ take (length ?line + k) (lines_of (separator P s) (p # ps))"
      using c emit_separator [OF e] by simp
    then show ?thesis by blast
  next
    case False
    then have e': "emit P s p (length p) = (False, s1)" using e by simp
    then have "s' = s1" using Cons.prems by simp
    moreover obtain k where "content P s1 = content P s @ take k ?line"
      using emit_failed [OF assms(1) _ e'] by auto
    moreover have "take k ?line = take (min k (length ?line)) (lines_of (separator P s) (p # ps))"
      by (cases "k \<le> length p") (auto simp: min_def take_Cons')
    ultimately show ?thesis by metis
  qed
qed

end

section \<open>Emitting\<close>

text \<open>The bytes handed to the writer are the path and the separator, on the stack branch too.\<close>

lemma combined_bytes:
  assumes "n \<le> length path" "n + 1 \<le> cap"
  shows "take (n + 1) ((copy_at (replicate cap NUL) 0 (take n path))[n := c]) = take n path @ [c]"
proof -
  have "(copy_at (replicate cap NUL) 0 (take n path)) = take n path @ replicate (cap - n) NUL"
    using assms by (simp add: copy_at_def min_absorb2)
  moreover obtain m where "cap - n = Suc m" using assms by (cases "cap - n") auto
  ultimately show ?thesis using assms by (simp add: list_update_append min_absorb2)
qed

lemma emit_stack:
  assumes "n \<le> length path" "n + 1 \<le> EMIT_STACK_CAPACITY"
  shows "output_emit W out path n =
    (case wr_write_bytes W (out_writer out) (take n path @ [out_separator out]) of
       (True, w) \<Rightarrow> (True, out\<lparr>out_writer := w, out_emitted_count := out_emitted_count out + 1\<rparr>)
     | (False, w) \<Rightarrow> (False, out\<lparr>out_writer := w\<rparr>))"
  unfolding output_emit_def Let_def combined_bytes [OF assms]
  using assms(2) by (simp split: prod.splits bool.splits)

lemma emit_long:
  assumes "\<not> n + 1 \<le> EMIT_STACK_CAPACITY"
  shows "output_emit W out path n =
    (case wr_write_bytes W (out_writer out) (take n path) of
       (False, w) \<Rightarrow> (False, out\<lparr>out_writer := w\<rparr>)
     | (True, w) \<Rightarrow> (case wr_write_char W w (out_separator out) of
          (False, w) \<Rightarrow> (False, out\<lparr>out_writer := w\<rparr>)
        | (True, w) \<Rightarrow> (True, out\<lparr>out_writer := w, out_emitted_count := out_emitted_count out + 1\<rparr>)))"
  unfolding output_emit_def Let_def
  using assms by (simp split: prod.splits bool.splits)

lemma emit_frame:
  assumes "output_emit W out path n = (ok, out')"
  shows "out_separator out' = out_separator out" "out_fd out' = out_fd out" "out_owns_fd out' = out_owns_fd out"
    "out_emitted_count out' = (if ok then Suc (out_emitted_count out) else out_emitted_count out)"
  using assms by (auto simp: output_emit_def Let_def split: prod.splits if_splits)

lemma emit_success:
  assumes "writer_ok W" "n \<le> length path" "output_emit W out path n = (True, out')"
  shows "wr_accepted W (out_writer out') = wr_accepted W (out_writer out) @ take n path @ [out_separator out]"
proof (cases "n + 1 \<le> EMIT_STACK_CAPACITY")
  case True
  then have "wr_write_bytes W (out_writer out) (take n path @ [out_separator out]) = (True, out_writer out')"
    using assms(3) emit_stack [OF assms(2) True, of W out] by (auto split: prod.splits bool.splits)
  then show ?thesis using writer_okD(2) [OF assms(1)] by simp
next
  case False
  then obtain w where "wr_write_bytes W (out_writer out) (take n path) = (True, w)"
    and "wr_write_char W w (out_separator out) = (True, out_writer out')"
    using assms(3) emit_long [OF False, of W out path] by (auto split: prod.splits bool.splits)
  then show ?thesis using writer_okD(2,4) [OF assms(1)] by simp
qed

lemma emit_failure:
  assumes "writer_ok W" "n \<le> length path" "output_emit W out path n = (False, out')"
  shows "\<exists>k. wr_accepted W (out_writer out') =
    wr_accepted W (out_writer out) @ take k (take n path @ [out_separator out])"
proof (cases "n + 1 \<le> EMIT_STACK_CAPACITY")
  case True
  then have "wr_write_bytes W (out_writer out) (take n path @ [out_separator out]) = (False, out_writer out')"
    using assms(3) emit_stack [OF assms(2) True, of W out] by (auto split: prod.splits bool.splits)
  then show ?thesis by (rule writer_okD(3) [OF assms(1)])
next
  case False
  consider "wr_write_bytes W (out_writer out) (take n path) = (False, out_writer out')"
    | w where "wr_write_bytes W (out_writer out) (take n path) = (True, w)"
      "wr_write_char W w (out_separator out) = (False, out_writer out')"
    using assms(3) emit_long [OF False, of W out path] by (auto split: prod.splits bool.splits)
  then show ?thesis
  proof cases
    case 1
    from writer_okD(3) [OF assms(1) this] obtain k
      where "wr_accepted W (out_writer out') = wr_accepted W (out_writer out) @ take k (take n path)" ..
    also have "take k (take n path) = take (min k n) (take n path @ [out_separator out])"
      using assms(2) by (simp add: min_def)
    finally show ?thesis by blast
  next
    case 2
    have "wr_accepted W (out_writer out') = wr_accepted W (out_writer out) @ take n path"
      using writer_okD(2) [OF assms(1) 2(1)] writer_okD(5) [OF assms(1) 2(2)] by simp
    also have "take n path = take n (take n path @ [out_separator out])" using assms(2) by simp
    finally show ?thesis by metis
  qed
qed

text \<open>A reliable writer makes every emit succeed.\<close>

lemma emit_never_fails:
  assumes "writer_reliable W"
  shows "output_emit W out path n \<noteq> (False, out')"
proof -
  have "wr_write_bytes W w bs \<noteq> (False, w')" for w bs w'
    using assms unfolding writer_reliable_def by (metis fst_conv)
  moreover have "wr_write_char W w c \<noteq> (False, w')" for w c w'
    using assms unfolding writer_reliable_def by (metis fst_conv)
  ultimately show ?thesis by (auto simp: output_emit_def Let_def split: prod.splits)
qed

lemma emit_reliable: "writer_reliable W \<Longrightarrow> fst (output_emit W out path n)"
  using emit_never_fails [of W out path n "snd (output_emit W out path n)"]
  by (cases "output_emit W out path n") auto

interpretation output_sink: match_sink writer_ok output_emit
    "\<lambda>W out. wr_accepted W (out_writer out)" "\<lambda>W. out_separator"
  by unfold_locales (use emit_success emit_failure emit_frame(1) in \<open>auto\<close>)

text \<open>Closing writes out what is buffered: the bytes taken stay the same, what has reached the
  descriptor is a first part of them, and all of them when the flush succeeds.\<close>

lemma close_delivers:
  assumes "writer_ok W" "writer_delivers W" "0 \<le> out_fd out"
  defines "w \<equiv> out_writer (fst (snd (output_close W out)))"
  shows "wr_accepted W w = wr_accepted W (out_writer out)" "prefix (wr_written W w) (wr_accepted W w)"
    "fst (wr_flush W (out_writer out)) \<Longrightarrow> wr_written W w = wr_accepted W (out_writer out)"
proof -
  obtain ok w1 where f: "wr_flush W (out_writer out) = (ok, w1)" by fastforce
  have w: "w = snd (wr_destroy W w1)"
    using f assms(3) by (simp add: w_def output_close_def Let_def split: prod.splits)
  show a: "wr_accepted W w = wr_accepted W (out_writer out)"
    using writer_okD(6) [OF assms(1), of "out_writer out"] writer_okD(7) [OF assms(1), of w1] f unfolding w by simp
  show p: "prefix (wr_written W w) (wr_accepted W w)" by (rule writer_deliversD(1) [OF assms(2)])
  show "wr_written W w = wr_accepted W (out_writer out)" if "fst (wr_flush W (out_writer out))"
  proof (rule prefix_order.antisym)
    show "prefix (wr_written W w) (wr_accepted W (out_writer out))" using p a by simp
    show "prefix (wr_accepted W (out_writer out)) (wr_written W w)"
    proof -
      have "wr_flush W (out_writer out) = (True, w1)" using f that by simp
      from writer_deliversD(2) [OF assms(2) this] writer_deliversD(3) [OF assms(2), of w1] show ?thesis unfolding w by simp
    qed
  qed
qed

section \<open>Properties\<close>

text \<open>Two concrete writers for the closed instances, whose state is what they have written and what
  they still hold: one that takes everything, and one that takes at most four bytes and cannot
  write them.\<close>

type_synonym list_state = "string \<times> string"

definition list_writer :: "list_state writer_ops" where
  "list_writer = \<lparr>wr_zero = ([], []), wr_init = (\<lambda>fd cap. Some ([], [])),
     wr_write_bytes = (\<lambda>(sent, held) bs. (True, (sent, held @ bs))),
     wr_write_char = (\<lambda>(sent, held) c. (True, (sent, held @ [c]))),
     wr_flush = (\<lambda>(sent, held). (True, (sent @ held, []))), wr_destroy = (\<lambda>w. (True, w)),
     wr_open = (\<lambda>path. 7), wr_close = (\<lambda>fd. 0), wr_accepted = (\<lambda>(sent, held). sent @ held), wr_written = fst\<rparr>"

definition full_writer :: "list_state writer_ops" where
  "full_writer = list_writer\<lparr>
     wr_write_bytes := (\<lambda>(sent, held) bs. (length (held @ bs) \<le> 4, (sent, take 4 (held @ bs)))),
     wr_write_char := (\<lambda>(sent, held) c. if length held < 4 then (True, (sent, held @ [c])) else (False, (sent, held))),
     wr_flush := (\<lambda>w. (False, w))\<rparr>"

lemma list_writer_ok: "writer_ok list_writer" "writer_reliable list_writer" "writer_delivers list_writer"
  by (auto simp: writer_ok_def writer_reliable_def writer_delivers_def list_writer_def)

text \<open>C22: emitting hands the writer exactly the path and the separator on both branches, the stack
  buffer up to 4096 bytes and the two writes above: on success they are appended and counted;
  on failure at most a first part of them, and nothing is counted.\<close>

theorem emit_appends_one_line:
  assumes "writer_ok W" "n \<le> length path" "output_emit W out path n = (ok, out')"
  shows "\<exists>k. wr_accepted W (out_writer out') =
      wr_accepted W (out_writer out) @ take k (take n path @ [out_separator out]) \<and>
    (ok \<longrightarrow> k = n + 1) \<and>
    out_emitted_count out' = (if ok then Suc (out_emitted_count out) else out_emitted_count out) \<and>
    out_separator out' = out_separator out"
proof (cases ok)
  case True
  then have "output_emit W out path n = (True, out')" using assms(3) by simp
  from emit_success [OF assms(1,2) this]
  have "wr_accepted W (out_writer out') = wr_accepted W (out_writer out) @ take (n + 1) (take n path @ [out_separator out])"
    using assms(2) by simp
  then show ?thesis using emit_frame [OF assms(3)] True by blast
next
  case False
  then have "output_emit W out path n = (False, out')" using assms(3) by simp
  from emit_failure [OF assms(1,2) this] show ?thesis using emit_frame [OF assms(3)] False by auto
qed

definition stdout_output :: "string \<Rightarrow> list_state seek_output" where
  "stdout_output held = \<lparr>out_writer = ([], held), out_fd = 1, out_owns_fd = False, out_separator = CHR ''\<newline>'', out_emitted_count = 0\<rparr>"

theorem emit_appends_one_line_witness:
  "out_emitted_count (snd (output_emit list_writer (stdout_output []) ''a.c'' 3)) = 1"
proof -
  have "fst (output_emit list_writer (stdout_output []) ''a.c'' 3)"
    by (rule emit_reliable [OF list_writer_ok(2)])
  then have "output_emit list_writer (stdout_output []) ''a.c'' 3 =
    (True, snd (output_emit list_writer (stdout_output []) ''a.c'' 3))"
    by (metis (full_types) prod.collapse)
  from emit_appends_one_line [OF list_writer_ok(1) _ this] show ?thesis
    by (simp add: stdout_output_def)
qed

text \<open>C36: a descriptor is closed exactly once if the output owns it, whether the writer could be
  set up or not, and standard output never; closing twice closes nothing more.\<close>

theorem output_closed_exactly_once:
  assumes "output_attach W fd null_terminated owns_fd = (ok, out, closed)" "0 \<le> fd"
    and "output_close W out1 = (ok1, out2, closed1)" "out_fd out1 = out_fd out" "out_owns_fd out1 = out_owns_fd out"
  shows "closed @ closed1 = (if owns_fd then [fd] else []) \<and> output_close W out2 = (True, out2, [])"
  using assms
  by (auto simp: output_attach_def output_close_def Let_def split: option.splits prod.splits if_splits)

theorem output_closed_exactly_once_witness:
  "\<exists>out. snd (snd (output_close list_writer out)) = [7]"
proof -
  let ?r = "output_attach list_writer 7 False True"
  let ?c = "output_close list_writer (fst (snd ?r))"
  have "snd (snd ?r) @ snd (snd ?c) = [7] \<and> output_close list_writer (fst (snd ?c)) = (True, fst (snd ?c), [])"
    using output_closed_exactly_once [of list_writer 7 False True "fst ?r" "fst (snd ?r)" "snd (snd ?r)"
      "fst (snd ?r)" "fst ?c" "fst (snd ?c)" "snd (snd ?c)"] by simp
  moreover have "snd (snd ?r) = []" by (simp add: output_attach_def list_writer_def Let_def)
  ultimately show ?thesis by auto
qed

end
