(* ===== verification/Seek_Walk.thy ===== *)
theory Seek_Walk
  imports Seek_Filter Seek_Output
begin

text \<open>
  The sequential walk of \<^verbatim>\<open>src/discovery/bc_seek_discovery_walk_sequential.c\<close>. What the
  functions of the code only read is the record \<open>walk_context\<close>, what they change is the record
  \<open>walk_state\<close>; the C struct holds both. The path buffer is one array of 4096 bytes shared by
  all levels of the recursion, with the length passed by value, as in the code.

  The signal handler is a parameter: \<open>None\<close> is the NULL handler, and \<open>Some h\<close> answers the
  \<open>k\<close>-th query with \<open>h k\<close>, \<open>None\<close> for a query that fails; \<open>ws_polls\<close> counts the queries.
  \<open>ws_fd_log\<close> records every directory descriptor that is opened and every one that is closed, in
  order. The entries of a directory are read by a reader that is created and destroyed in one function; only whether
  its creation succeeds is modelled.

  The recursion runs on fuel, one unit per directory level; 4096 units are enough, since every
  level makes the path longer.
\<close>

definition PATH_CAPACITY :: nat where "PATH_CAPACITY = 4096"

section \<open>State\<close>

record 'w walk_context =
  wc_core :: bc_core
  wc_os :: os
  wc_writer :: "'w writer_ops"
  wc_predicate :: predicate
  wc_signal_handler :: "(nat \<Rightarrow> bool option) option"
  wc_follow_symlinks :: bool
  wc_one_file_system :: bool

datatype fd_event = Fd_opened fd | Fd_closed fd

text \<open>\<open>ws_root_device\<close> is the pair \<open>root_device_resolved\<close>, \<open>root_device\<close> of the code; the error
  collector, whose append is taken to succeed, is the list of what was appended to it.\<close>

record 'w walk_state =
  ws_buffer :: "char list"
  ws_output :: "'w seek_output"
  ws_errors :: "(string \<times> errno) list"
  ws_stop_requested :: bool
  ws_root_device :: "u64 option"
  ws_polls :: nat
  ws_fd_log :: "fd_event list"

section \<open>Definitions\<close>

subsection \<open>Helpers\<close>

definition walk_record_error :: "string \<Rightarrow> errno \<Rightarrow> 'w walk_state \<Rightarrow> 'w walk_state" where
  "walk_record_error path e st = st\<lparr>ws_errors := ws_errors st @ [(path, e)]\<rparr>"

definition open_fd :: "fd \<Rightarrow> 'w walk_state \<Rightarrow> 'w walk_state" where
  "open_fd fd st = st\<lparr>ws_fd_log := ws_fd_log st @ [Fd_opened fd]\<rparr>"

definition close_fd :: "fd \<Rightarrow> 'w walk_state \<Rightarrow> 'w walk_state" where
  "close_fd fd st = st\<lparr>ws_fd_log := ws_fd_log st @ [Fd_closed fd]\<rparr>"

definition walk_should_stop :: "'w walk_context \<Rightarrow> 'w walk_state \<Rightarrow> bool \<times> 'w walk_state" where
  "walk_should_stop ctx st =
     (if ws_stop_requested st then (True, st)
      else case wc_signal_handler ctx of
          None \<Rightarrow> (False, st)
        | Some should_stop \<Rightarrow>
            (let answer = should_stop (ws_polls st); st = st\<lparr>ws_polls := ws_polls st + 1\<rparr>
             in if answer = Some True then (True, st\<lparr>ws_stop_requested := True\<rparr>) else (False, st)))"

definition walk_append_path :: "char list \<Rightarrow> nat \<Rightarrow> nat \<Rightarrow> string \<Rightarrow> nat \<Rightarrow> (char list \<times> nat) option" where
  "walk_append_path buffer buffer_capacity path_length name name_length =
     (let current_length = path_length;
          needs_separator = current_length > 0 \<and> buffer ! (current_length - 1) \<noteq> slash;
          additional = (if needs_separator then 1 else 0) + name_length
      in if current_length + additional + 1 > buffer_capacity then None
         else let (buffer, current_length) =
                    (if needs_separator then (buffer[current_length := slash], current_length + 1)
                     else (buffer, current_length));
                  buffer = copy_at buffer current_length (take name_length name);
                  current_length = current_length + name_length;
                  buffer = buffer[current_length := NUL]
              in Some (buffer, current_length))"

definition walk_truncate :: "nat \<Rightarrow> 'w walk_state \<Rightarrow> 'w walk_state" where
  "walk_truncate original_length st = st\<lparr>ws_buffer := (ws_buffer st)[original_length := NUL]\<rparr>"

definition walk_is_hidden_name :: "string \<Rightarrow> bool" where
  "walk_is_hidden_name name \<longleftrightarrow> char_at name 0 = CHR ''.'' \<and> char_at name 1 \<noteq> NUL"

definition walk_type_from_dtype :: "u8 \<Rightarrow> entry_type \<times> bool" where
  "walk_type_from_dtype d_type =
     (if d_type = DT_REG then (ENTRY_TYPE_FILE, True)
      else if d_type = DT_DIR then (ENTRY_TYPE_DIRECTORY, True)
      else if d_type = DT_LNK then (ENTRY_TYPE_SYMLINK, True)
      else (ENTRY_TYPE_ANY, False))"

definition walk_emit_if_match ::
  "'w walk_context \<Rightarrow> candidate \<Rightarrow> 'w walk_state \<Rightarrow> bool \<times> candidate \<times> 'w walk_state" where
  "walk_emit_if_match ctx c st =
     (let (decision, c) = filter_evaluate (wc_os ctx) (wc_predicate ctx) c
      in if decision \<noteq> DECISION_ACCEPT then (True, c, st)
         else let (ok, out) = output_emit (wc_writer ctx) (ws_output st) (cand_path c) (cand_path_length c)
              in (ok, c, st\<lparr>ws_output := out\<rparr>))"

definition walk_should_descend_directory :: "'w walk_context \<Rightarrow> string \<Rightarrow> nat \<Rightarrow> nat \<Rightarrow> bool" where
  "walk_should_descend_directory ctx name name_length child_depth =
     (if pred_has_max_depth (wc_predicate ctx) \<and> child_depth > pred_max_depth (wc_predicate ctx) then False
      else if pred_respect_ignore_defaults (wc_predicate ctx) \<and>
              filter_ignored_directory_name (wc_core ctx) name name_length then False
      else if \<not> pred_include_hidden (wc_predicate ctx) \<and> walk_is_hidden_name name then False
      else True)"

text \<open>On failure, the value of \<open>errno\<close> the caller then reads; a descriptor opened on the way is
  closed again. Where the devices differ no call has failed, so \<open>errno\<close> is what it was before.\<close>

definition walk_open_subdir ::
  "'w walk_context \<Rightarrow> fd \<Rightarrow> string \<Rightarrow> 'w walk_state \<Rightarrow> (errno + fd) \<times> 'w walk_state" where
  "walk_open_subdir ctx parent_directory_fd name st =
     (case sys_openat (wc_os ctx) parent_directory_fd name (\<not> wc_follow_symlinks ctx) of
        Inl e \<Rightarrow> (Inl e, st)
      | Inr fd \<Rightarrow>
          (let st = open_fd fd st in
           if wc_one_file_system ctx \<and> ws_root_device st \<noteq> None then
             (case sys_fstat (wc_os ctx) fd of
                Inl e \<Rightarrow> (Inl e, close_fd fd st)
              | Inr sub_stat \<Rightarrow>
                  if Some (st_dev sub_stat) \<noteq> ws_root_device st
                  then (Inl (sys_errno_residue (wc_os ctx) parent_directory_fd name), close_fd fd st)
                  else (Inr fd, st))
           else (Inr fd, st)))"

subsection \<open>One entry of a directory\<close>

definition entry_candidate ::
  "'w walk_context \<Rightarrow> string \<Rightarrow> nat \<Rightarrow> string \<Rightarrow> nat \<Rightarrow> u8 \<Rightarrow> fd \<Rightarrow> nat \<Rightarrow> candidate" where
  "entry_candidate ctx path path_length basename basename_length d_type directory_fd depth =
     (let (entry_type, type_resolved) = walk_type_from_dtype d_type in
      \<lparr>cand_path = path, cand_path_length = path_length,
       cand_basename = basename, cand_basename_length = basename_length,
       cand_depth = depth + 1, cand_entry_type = entry_type, cand_type_resolved = type_resolved,
       cand_size_bytes = 0, cand_modification_time = 0, cand_permission_mask = 0,
       cand_stat_populated = False, cand_follow_symlinks_enabled = wc_follow_symlinks ctx,
       cand_parent_directory_fd = directory_fd\<rparr>)"

text \<open>Whether the candidate is a directory to look into, after the evaluation.\<close>

definition entry_is_directory :: "'w walk_context \<Rightarrow> candidate \<Rightarrow> bool \<times> candidate" where
  "entry_is_directory ctx c =
     (let is_directory = (cand_type_resolved c \<and> cand_entry_type c = ENTRY_TYPE_DIRECTORY)
      in if \<not> cand_type_resolved c \<or> (wc_follow_symlinks ctx \<and> cand_entry_type c = ENTRY_TYPE_SYMLINK)
         then let (ok, c) = filter_populate_stat (wc_os ctx) c
              in if ok then (cand_entry_type c = ENTRY_TYPE_DIRECTORY, c) else (is_directory, c)
         else (is_directory, c))"

text \<open>How the body of the loop ends for an entry: \<open>continue\<close> at once, \<open>break\<close> because an emit
  failed, the end of the body, or a subdirectory to process first (its descriptor, the length of
  its path and its depth).\<close>

datatype 'w entry_outcome =
    Entry_skipped "'w walk_state"
  | Entry_failed "'w walk_state"
  | Entry_done "'w walk_state"
  | Entry_enter fd nat nat "'w walk_state"

definition walk_entry ::
  "'w walk_context \<Rightarrow> fd \<Rightarrow> nat \<Rightarrow> nat \<Rightarrow> dirent \<Rightarrow> 'w walk_state \<Rightarrow> 'w entry_outcome" where
  "walk_entry ctx directory_fd path_length depth entry st =
     (if \<not> pred_include_hidden (wc_predicate ctx) \<and> walk_is_hidden_name (de_name entry) then Entry_skipped st
      else let name = de_name entry; name_length = length name in
        case walk_append_path (ws_buffer st) PATH_CAPACITY path_length name name_length of
          None \<Rightarrow> Entry_done st
        | Some (buffer, path_length) \<Rightarrow>
            (let st = st\<lparr>ws_buffer := buffer\<rparr>;
                 c = entry_candidate ctx (cstr buffer) path_length
                       (cstr (drop (path_length - name_length) buffer)) name_length
                       (de_d_type entry) directory_fd depth;
                 (ok, c, st) = walk_emit_if_match ctx c st
             in if \<not> ok then Entry_failed st
                else let (is_directory, c) = entry_is_directory ctx c
                  in if is_directory \<and> walk_should_descend_directory ctx name name_length (cand_depth c) then
                       (case walk_open_subdir ctx directory_fd name st of
                          (Inl e, st) \<Rightarrow> Entry_done (walk_record_error (cstr buffer) e st)
                        | (Inr subdir_fd, st) \<Rightarrow> Entry_enter subdir_fd path_length (cand_depth c) st)
                     else Entry_done st))"

subsection \<open>A directory\<close>

text \<open>The loop over the entries that remain; \<open>process\<close> is \<open>bc_seek_walk_process_directory\<close>, and
  \<open>None\<close> is fuel that ran out.\<close>

fun walk_loop ::
  "(fd \<Rightarrow> nat \<Rightarrow> nat \<Rightarrow> 'w walk_state \<Rightarrow> (bool \<times> 'w walk_state) option) \<Rightarrow> 'w walk_context \<Rightarrow>
   fd \<Rightarrow> nat \<Rightarrow> nat \<Rightarrow> dirent list \<Rightarrow> 'w walk_state \<Rightarrow> (bool \<times> 'w walk_state) option" where
  "walk_loop process ctx directory_fd path_length depth [] st =
     (let (stop, st) = walk_should_stop ctx st
      in if stop then Some (False, st)
         else case sys_read_error (wc_os ctx) directory_fd of
             Some reader_errno \<Rightarrow> Some (False, walk_record_error (cstr (ws_buffer st)) reader_errno st)
           | None \<Rightarrow> Some (True, st))"
| "walk_loop process ctx directory_fd path_length depth (entry # entries) st =
     (let (stop, st) = walk_should_stop ctx st
      in if stop then Some (False, st)
         else case walk_entry ctx directory_fd path_length depth entry st of
             Entry_skipped st \<Rightarrow> walk_loop process ctx directory_fd path_length depth entries st
           | Entry_failed st \<Rightarrow> Some (False, st)
           | Entry_done st \<Rightarrow>
               walk_loop process ctx directory_fd path_length depth entries (walk_truncate path_length st)
           | Entry_enter subdir_fd subdir_length child_depth st \<Rightarrow>
               (case process subdir_fd subdir_length child_depth st of
                  None \<Rightarrow> None
                | Some (recurse_ok, st) \<Rightarrow>
                    (let st = close_fd subdir_fd st
                     in if recurse_ok then
                          walk_loop process ctx directory_fd path_length depth entries (walk_truncate path_length st)
                        else let (stop, st) = walk_should_stop ctx st
                          in if stop then Some (False, walk_truncate path_length st)
                             else walk_loop process ctx directory_fd path_length depth entries
                                    (walk_truncate path_length st))))"

primrec walk_iterate_entries ::
  "nat \<Rightarrow> 'w walk_context \<Rightarrow> fd \<Rightarrow> nat \<Rightarrow> nat \<Rightarrow> 'w walk_state \<Rightarrow> (bool \<times> 'w walk_state) option" where
  "walk_iterate_entries 0 ctx directory_fd path_length depth st = None"
| "walk_iterate_entries (Suc fuel) ctx directory_fd path_length depth st =
     (if \<not> sys_reader_create (wc_os ctx) directory_fd
      then Some (False, walk_record_error (cstr (ws_buffer st)) ENOMEM st)
      else walk_loop (walk_iterate_entries fuel ctx) ctx directory_fd path_length depth
             (sys_entries (wc_os ctx) directory_fd) st)"

definition walk_process_directory ::
  "'w walk_context \<Rightarrow> fd \<Rightarrow> nat \<Rightarrow> nat \<Rightarrow> 'w walk_state \<Rightarrow> (bool \<times> 'w walk_state) option" where
  "walk_process_directory ctx parent_directory_fd path_length depth st =
     walk_iterate_entries PATH_CAPACITY ctx parent_directory_fd path_length depth st"

subsection \<open>The roots\<close>

definition root_candidate :: "string \<Rightarrow> nat \<Rightarrow> string \<Rightarrow> nat \<Rightarrow> stat_info \<Rightarrow> candidate" where
  "root_candidate path path_length basename basename_length root_stat =
     (let root_type = type_of_mode (st_mode root_stat) in
      \<lparr>cand_path = path, cand_path_length = path_length,
       cand_basename = basename, cand_basename_length = basename_length,
       cand_depth = 0, cand_entry_type = root_type, cand_type_resolved = (root_type \<noteq> ENTRY_TYPE_ANY),
       cand_size_bytes = size_of_stat root_stat, cand_modification_time = st_mtime root_stat,
       cand_permission_mask = perm_of_stat root_stat, cand_stat_populated = True,
       cand_follow_symlinks_enabled = False, cand_parent_directory_fd = AT_FDCWD\<rparr>)"

text \<open>From the emit of the root on; \<open>path_length\<close> bytes of the buffer hold the root path.\<close>

definition walk_root_directory ::
  "'w walk_context \<Rightarrow> string \<Rightarrow> nat \<Rightarrow> candidate \<Rightarrow> 'w walk_state \<Rightarrow> (bool \<times> 'w walk_state) option" where
  "walk_root_directory ctx root_path path_length c st =
     (let root_type = cand_entry_type c;
          (ok, c, st) = walk_emit_if_match ctx c st
      in if \<not> ok then Some (False, st)
         else if root_type \<noteq> ENTRY_TYPE_DIRECTORY then Some (True, st)
         else if pred_has_max_depth (wc_predicate ctx) \<and> pred_max_depth (wc_predicate ctx) = 0 then Some (True, st)
         else case sys_openat (wc_os ctx) AT_FDCWD root_path (\<not> wc_follow_symlinks ctx) of
             Inl e \<Rightarrow> Some (False, walk_record_error root_path e st)
           | Inr root_fd \<Rightarrow>
               (case walk_process_directory ctx root_fd path_length 0 (open_fd root_fd st) of
                  None \<Rightarrow> None
                | Some (walk_ok, st) \<Rightarrow> Some (walk_ok, close_fd root_fd st)))"

definition resolve_root_device :: "'w walk_context \<Rightarrow> stat_info \<Rightarrow> 'w walk_state \<Rightarrow> 'w walk_state" where
  "resolve_root_device ctx root_stat st =
     (if wc_one_file_system ctx \<and> ws_root_device st = None
      then st\<lparr>ws_root_device := Some (st_dev root_stat)\<rparr> else st)"

definition root_basename_offset :: "bc_core \<Rightarrow> char list \<Rightarrow> nat \<Rightarrow> nat" where
  "root_basename_offset C buffer path_length =
     (case core_find_last_byte C buffer path_length slash of
        Some slash_offset \<Rightarrow> slash_offset + 1
      | None \<Rightarrow> 0)"

definition walk_visit_root :: "'w walk_context \<Rightarrow> string \<Rightarrow> 'w walk_state \<Rightarrow> (bool \<times> 'w walk_state) option" where
  "walk_visit_root ctx root_path st =
     (case sys_fstatat (wc_os ctx) AT_FDCWD root_path (wc_follow_symlinks ctx) of
        Inl e \<Rightarrow> Some (False, walk_record_error root_path e st)
      | Inr root_stat \<Rightarrow>
          (let st = resolve_root_device ctx root_stat st in
           case core_length (wc_core ctx) root_path NUL of
             None \<Rightarrow> Some (False, walk_record_error root_path EINVAL st)
           | Some path_length \<Rightarrow>
               if path_length \<ge> PATH_CAPACITY then Some (False, walk_record_error root_path ENAMETOOLONG st)
               else
                 (let buffer = (copy_at (ws_buffer st) 0 (take path_length root_path))[path_length := NUL];
                      offset = root_basename_offset (wc_core ctx) buffer path_length;
                      c = root_candidate (cstr buffer) path_length (cstr (drop offset buffer))
                            (path_length - offset) root_stat
                  in walk_root_directory ctx root_path path_length c (st\<lparr>ws_buffer := buffer\<rparr>))))"

text \<open>The loop over the roots; a root that fails does not end it.\<close>

fun walk_roots :: "'w walk_context \<Rightarrow> string list \<Rightarrow> bool \<Rightarrow> 'w walk_state \<Rightarrow> (bool \<times> 'w walk_state) option" where
  "walk_roots ctx [] any_ok st = Some (any_ok, st)"
| "walk_roots ctx (root_path # roots) any_ok st =
     (let (stop, st) = walk_should_stop ctx st
      in if stop then Some (any_ok, st)
         else case walk_visit_root ctx root_path st of
             None \<Rightarrow> None
           | Some (ok, st) \<Rightarrow> walk_roots ctx roots (if ok then any_ok else False) st)"

text \<open>The walk starts with the output and the errors it is given. The buffer lives on the stack;
  what it holds at first is never read, and every statement below holds for any contents.\<close>

definition walk_start :: "'w seek_output \<Rightarrow> (string \<times> errno) list \<Rightarrow> 'w walk_state" where
  "walk_start out errors =
     \<lparr>ws_buffer = replicate PATH_CAPACITY NUL, ws_output = out, ws_errors = errors,
      ws_stop_requested = False, ws_root_device = None, ws_polls = 0, ws_fd_log = []\<rparr>"

definition walk_from :: "'w walk_context \<Rightarrow> string list \<Rightarrow> 'w walk_state \<Rightarrow> (bool \<times> 'w walk_state) option" where
  "walk_from ctx root_paths st =
     (if root_paths = [] then walk_visit_root ctx ''.'' st else walk_roots ctx root_paths True st)"

definition walk_sequential ::
  "'w walk_context \<Rightarrow> string list \<Rightarrow> 'w seek_output \<Rightarrow> (string \<times> errno) list \<Rightarrow> (bool \<times> 'w walk_state) option" where
  "walk_sequential ctx root_paths out errors = walk_from ctx root_paths (walk_start out errors)"

end
