(* ===== verification/Seek_Walk_Frame.thy ===== *)
theory Seek_Walk_Frame
  imports Seek_Walk
begin

text \<open>
  What every run of the sequential walk keeps, and that it ends.

  \<open>walk_relation\<close> is the contract of a relation between the state before and after: kept by each
  elementary step of the code, it is kept by a whole directory, a whole root and the whole walk.
  It is interpreted on four relations: errors are only appended, the stop request is latched at
  the first answer that asks for it, emitted bytes are never taken back, and the descriptors are
  opened and closed in matching pairs.

  The second part is termination: each level of the recursion lengthens the path inside a buffer of
  4096 bytes, so the fuel given is enough whatever the file system answers, cycles of symbolic
  links included.
\<close>

section \<open>The elementary steps\<close>

lemma emit_if_match_cases:
  assumes "walk_emit_if_match ctx c st = (ok, c', st')"
  obtains "ok" "st' = st" "fst (filter_evaluate (wc_os ctx) (wc_predicate ctx) c) \<noteq> DECISION_ACCEPT"
    "c' = snd (filter_evaluate (wc_os ctx) (wc_predicate ctx) c)"
  | out where "st' = st\<lparr>ws_output := out\<rparr>" "output_emit (wc_writer ctx) (ws_output st) (cand_path c') (cand_path_length c') = (ok, out)"
    "fst (filter_evaluate (wc_os ctx) (wc_predicate ctx) c) = DECISION_ACCEPT"
    "c' = snd (filter_evaluate (wc_os ctx) (wc_predicate ctx) c)"
  using assms by (auto simp: walk_emit_if_match_def Let_def split: prod.splits if_splits)

lemma append_path_length:
  assumes "walk_append_path buffer cap len name n = Some (buffer', len')" "n \<le> length name" "cap \<le> length buffer"
  shows "length buffer' = length buffer" "len + n \<le> len'" "len' < cap"
  using assms by (auto simp: walk_append_path_def Let_def split: if_splits)

text \<open>A subdirectory is opened and left open on success; on failure it is closed again.\<close>

lemma open_subdir_cases:
  assumes "walk_open_subdir ctx fd name st = (r, st')"
  obtains e where "r = Inl e" "st' = st"
  | e sub where "r = Inl e" "st' = close_fd sub (open_fd sub st)"
  | sub where "r = Inr sub" "st' = open_fd sub st"
proof (cases "sys_openat (wc_os ctx) fd name (\<not> wc_follow_symlinks ctx)")
  case (Inl e)
  then have "r = Inl e" "st' = st" using assms unfolding walk_open_subdir_def Inl sum.case by simp_all
  then show ?thesis by (rule that(1))
next
  case (Inr sub)
  then have "(\<exists>e. r = Inl e \<and> st' = close_fd sub (open_fd sub st)) \<or> r = Inr sub \<and> st' = open_fd sub st"
    using assms unfolding walk_open_subdir_def Let_def Inr sum.case
    by (cases "sys_fstat (wc_os ctx) sub") (auto split: if_splits)
  then show ?thesis using that(2,3) by blast
qed

section \<open>Relations kept by the walk\<close>

locale walk_relation =
  fixes R :: "'w walk_context \<Rightarrow> 'w walk_state \<Rightarrow> 'w walk_state \<Rightarrow> bool"
  assumes refl: "R ctx st st"
    and trans: "R ctx st st1 \<Longrightarrow> R ctx st1 st2 \<Longrightarrow> R ctx st st2"
    and poll: "R ctx st (snd (walk_should_stop ctx st))"
    and record_error: "R ctx st (walk_record_error path e st)"
    and buffer: "R ctx st (st\<lparr>ws_buffer := b\<rparr>)"
    and emit: "output_emit (wc_writer ctx) (ws_output st) path n = (ok, out) \<Longrightarrow> R ctx st (st\<lparr>ws_output := out\<rparr>)"
    and root_device: "R ctx st (st\<lparr>ws_root_device := d\<rparr>)"
    and bracket: "R ctx (open_fd fd st) st1 \<Longrightarrow> R ctx st (close_fd fd st1)"
begin

lemma should_stop: "walk_should_stop ctx st = (stop, st') \<Longrightarrow> R ctx st st'"
  using poll [of ctx st] by simp

lemma truncate: "R ctx st st1 \<Longrightarrow> R ctx st (walk_truncate n st1)"
  unfolding walk_truncate_def by (rule trans [OF _ buffer])

lemma open_close: "R ctx st (close_fd fd (open_fd fd st))"
  by (rule bracket [OF refl])

lemma emit_if_match: "walk_emit_if_match ctx c st = (ok, c', st') \<Longrightarrow> R ctx st st'"
  by (erule emit_if_match_cases) (auto intro: refl emit)

text \<open>The outcomes of an entry; a subdirectory to enter leaves its descriptor open.\<close>

lemma entry:
  "case walk_entry ctx fd len depth e st of
     Entry_skipped st' \<Rightarrow> R ctx st st' | Entry_failed st' \<Rightarrow> R ctx st st' | Entry_done st' \<Rightarrow> R ctx st st'
   | Entry_enter sub sublen d st' \<Rightarrow> \<exists>st1. R ctx st st1 \<and> st' = open_fd sub st1"
proof -
  have step: "R ctx st st2" if "walk_emit_if_match ctx c (st\<lparr>ws_buffer := b\<rparr>) = (ok, c', st2)" for b c ok c' st2
    using trans [OF buffer emit_if_match [OF that]] .
  have down: "case r of Inl err \<Rightarrow> R ctx st (walk_record_error p err st3) | Inr sub \<Rightarrow> \<exists>st1. R ctx st st1 \<and> st3 = open_fd sub st1"
    if "walk_emit_if_match ctx c (st\<lparr>ws_buffer := b\<rparr>) = (ok, c', st2)" "walk_open_subdir ctx fd name st2 = (r, st3)"
    for b c ok c' st2 name r st3 p
    using that(2)
  proof (cases rule: open_subdir_cases)
    case (1 e)
    then show ?thesis using trans [OF step [OF that(1)] record_error] by simp
  next
    case (2 e sub)
    then show ?thesis using trans [OF trans [OF step [OF that(1)] open_close] record_error] by simp
  next
    case (3 sub)
    then show ?thesis using step [OF that(1)] by auto
  qed
  show ?thesis
    unfolding walk_entry_def Let_def
    by (auto split: option.splits prod.splits sum.splits if_splits
        intro: refl step dest: down [rotated])
qed

lemma loop:
  assumes "\<And>sub sublen d s ok s'. process sub sublen d s = Some (ok, s') \<Longrightarrow> R ctx s s'"
  shows "walk_loop process ctx fd len depth es st = Some (ok, st') \<Longrightarrow> R ctx st st'"
proof (induction es arbitrary: st)
  case Nil
  obtain stop s1 where s: "walk_should_stop ctx st = (stop, s1)" by fastforce
  then show ?case using Nil should_stop [OF s] by (auto split: if_splits option.splits intro: trans [OF _ record_error])
next
  case (Cons e es)
  obtain stop s1 where s: "walk_should_stop ctx st = (stop, s1)" by fastforce
  show ?case
  proof (cases stop)
    case True
    then show ?thesis using Cons.prems s should_stop [OF s] by simp
  next
    case False
    show ?thesis
    proof (cases "walk_entry ctx fd len depth e s1")
      case (Entry_done s2)
      have "R ctx s1 s2" using entry [where ctx = ctx and fd = fd and len = len and depth = depth and e = e and st = s1] Entry_done by simp
      from truncate [OF trans [OF should_stop [OF s] this]] have "R ctx st (walk_truncate len s2)" .
      moreover have "R ctx (walk_truncate len s2) st'" using Cons.prems Cons.IH s False Entry_done by simp
      ultimately show ?thesis by (rule trans)
    next
      case (Entry_enter sub sublen d s2)
      then obtain s0 where s0: "R ctx s1 s0" "s2 = open_fd sub s0" using entry [where ctx = ctx and fd = fd and len = len and depth = depth and e = e and st = s1] by auto
      obtain rok s3 where p: "process sub sublen d s2 = Some (rok, s3)"
        using Cons.prems s False Entry_enter by (auto split: option.splits)
      have in3: "R ctx st (close_fd sub s3)"
        using trans [OF should_stop [OF s] trans [OF s0(1) bracket [OF assms [OF p, unfolded s0(2)]]]] .
      obtain stop2 s4 where s4: "walk_should_stop ctx (close_fd sub s3) = (stop2, s4)" by fastforce
      have in4: "R ctx st s4" by (rule trans [OF in3 should_stop [OF s4]])
      show ?thesis
        using Cons.prems Cons.IH s False Entry_enter p s4 truncate [OF in3] truncate [OF in4]
        by (auto simp: Let_def split: if_splits intro: trans)
    qed (use Cons.prems Cons.IH s False should_stop [OF s] entry [where ctx = ctx and fd = fd and len = len and depth = depth and e = e and st = s1] in
        \<open>auto intro: trans\<close>)
  qed
qed

lemma iterate: "walk_iterate_entries n ctx fd len depth st = Some (ok, st') \<Longrightarrow> R ctx st st'"
proof (induction n arbitrary: fd len depth st ok st')
  case 0
  then show ?case by simp
next
  case (Suc n)
  show ?case
  proof (cases "sys_reader_create (wc_os ctx) fd")
    case True
    then show ?thesis using Suc.prems by (auto intro: loop [OF Suc.IH])
  next
    case False
    then show ?thesis using Suc.prems record_error by auto
  qed
qed

lemma root_directory: "walk_root_directory ctx root len c st = Some (ok, st') \<Longrightarrow> R ctx st st'"
  unfolding walk_root_directory_def walk_process_directory_def Let_def
  by (auto split: prod.splits if_splits sum.splits option.splits
      dest!: emit_if_match iterate bracket intro: trans record_error)

lemma resolve: "R ctx st (resolve_root_device ctx root_stat st)"
  by (simp add: resolve_root_device_def root_device refl)

lemma visit_root: "walk_visit_root ctx root st = Some (ok, st') \<Longrightarrow> R ctx st st'"
  unfolding walk_visit_root_def Let_def
  by (auto split: sum.splits if_splits option.splits dest!: root_directory
      intro: record_error trans [OF resolve record_error] trans [OF resolve trans [OF buffer]])

lemma roots: "walk_roots ctx roots any_ok st = Some (ok, st') \<Longrightarrow> R ctx st st'"
proof (induction roots arbitrary: any_ok st)
  case Nil
  then show ?case by (simp add: refl)
next
  case (Cons r rs)
  obtain stop s1 where s: "walk_should_stop ctx st = (stop, s1)" by fastforce
  show ?case
  proof (cases stop)
    case True
    then show ?thesis using Cons.prems s should_stop [OF s] by simp
  next
    case False
    then obtain rok s2 where v: "walk_visit_root ctx r s1 = Some (rok, s2)"
      "walk_roots ctx rs (if rok then any_ok else False) s2 = Some (ok, st')"
      using Cons.prems s by (auto split: option.splits)
    show ?thesis using trans [OF should_stop [OF s] trans [OF visit_root [OF v(1)] Cons.IH [OF v(2)]]] .
  qed
qed

lemma walk: "walk_from ctx roots st = Some (ok, st') \<Longrightarrow> R ctx st st'"
  unfolding walk_from_def by (auto split: if_splits intro: visit_root roots)

end

subsection \<open>The four relations\<close>

lemma should_stop_frame:
  assumes "walk_should_stop ctx st = (stop, st')"
  shows "ws_buffer st' = ws_buffer st" "ws_output st' = ws_output st" "ws_errors st' = ws_errors st"
    "ws_root_device st' = ws_root_device st" "ws_fd_log st' = ws_fd_log st"
    "ws_stop_requested st' = stop" "ws_stop_requested st \<longrightarrow> stop"
  using assms by (auto simp: walk_should_stop_def Let_def split: if_splits option.splits)

lemma poll_frame:
  "ws_buffer (snd (walk_should_stop ctx st)) = ws_buffer st" "ws_output (snd (walk_should_stop ctx st)) = ws_output st"
  "ws_errors (snd (walk_should_stop ctx st)) = ws_errors st"
  "ws_fd_log (snd (walk_should_stop ctx st)) = ws_fd_log st"
  "ws_stop_requested st \<Longrightarrow> ws_stop_requested (snd (walk_should_stop ctx st))"
  by (auto simp: walk_should_stop_def Let_def split: option.splits)

definition errors_grow :: "'w walk_context \<Rightarrow> 'w walk_state \<Rightarrow> 'w walk_state \<Rightarrow> bool" where
  "errors_grow ctx st st' \<longleftrightarrow> prefix (ws_errors st) (ws_errors st')"

text \<open>The handler is queried until it first answers stop, and the flag says whether it did.\<close>

definition handler_says_stop :: "'w walk_context \<Rightarrow> nat \<Rightarrow> bool" where
  "handler_says_stop ctx k \<longleftrightarrow> (case wc_signal_handler ctx of None \<Rightarrow> False | Some h \<Rightarrow> h k = Some True)"

definition stop_latched :: "'w walk_context \<Rightarrow> 'w walk_state \<Rightarrow> 'w walk_state \<Rightarrow> bool" where
  "stop_latched ctx st st' \<longleftrightarrow>
     ws_polls st \<le> ws_polls st' \<and>
     (ws_stop_requested st \<longrightarrow> ws_stop_requested st' \<and> ws_polls st' = ws_polls st) \<and>
     (\<forall>k. ws_polls st \<le> k \<and> k < ws_polls st' \<longrightarrow>
        (handler_says_stop ctx k \<longleftrightarrow> Suc k = ws_polls st' \<and> ws_stop_requested st')) \<and>
     (ws_polls st' = ws_polls st \<longrightarrow> ws_stop_requested st' = ws_stop_requested st)"

lemma stop_latchedD:
  assumes "stop_latched ctx st st'"
  shows "ws_polls st \<le> ws_polls st'"
    "ws_stop_requested st \<Longrightarrow> ws_stop_requested st'"
    "ws_stop_requested st \<Longrightarrow> ws_polls st' = ws_polls st"
    "ws_polls st \<le> k \<Longrightarrow> k < ws_polls st' \<Longrightarrow>
       handler_says_stop ctx k \<longleftrightarrow> Suc k = ws_polls st' \<and> ws_stop_requested st'"
    "ws_polls st' = ws_polls st \<Longrightarrow> ws_stop_requested st' = ws_stop_requested st"
  using assms unfolding stop_latched_def by blast+

lemma stop_latched_trans:
  assumes a: "stop_latched ctx st st1" and b: "stop_latched ctx st1 st2"
  shows "stop_latched ctx st st2"
proof -
  note le = stop_latchedD(1) [OF a] stop_latchedD(1) [OF b]
  have iff: "handler_says_stop ctx k \<longleftrightarrow> Suc k = ws_polls st2 \<and> ws_stop_requested st2"
    if k: "ws_polls st \<le> k" "k < ws_polls st2" for k
  proof (cases "k < ws_polls st1")
    case True
    note h = stop_latchedD(4) [OF a k(1) True]
    show ?thesis
    proof (cases "ws_stop_requested st1")
      case stopped: True
      then show ?thesis using h stop_latchedD(2,3) [OF b stopped] by simp
    next
      case running: False
      have "ws_polls st2 = ws_polls st1" if "Suc k = ws_polls st2" using that True le by linarith
      then show ?thesis using h running stop_latchedD(5) [OF b] by blast
    qed
  next
    case False
    then show ?thesis using stop_latchedD(4) [OF b _ k(2)] by simp
  qed
  have same: "ws_stop_requested st2 = ws_stop_requested st" if "ws_polls st2 = ws_polls st"
  proof -
    have "ws_polls st1 = ws_polls st" "ws_polls st2 = ws_polls st1" using that le by linarith+
    then show ?thesis using stop_latchedD(5) [OF a] stop_latchedD(5) [OF b] by simp
  qed
  show ?thesis
    unfolding stop_latched_def
    using le iff same stop_latchedD(2,3) [OF a] stop_latchedD(2,3) [OF b] by (intro conjI allI impI) simp_all
qed

lemma stop_latched_poll: "stop_latched ctx st (snd (walk_should_stop ctx st))"
  by (auto simp: stop_latched_def walk_should_stop_def handler_says_stop_def Let_def less_Suc_eq split: option.splits)

text \<open>Descriptors that are opened and closed in matching, nested pairs.\<close>

inductive bracketed :: "fd_event list \<Rightarrow> bool" where
  bracketed_Nil: "bracketed []"
| bracketed_pair: "bracketed inside \<Longrightarrow> bracketed rest \<Longrightarrow> bracketed (Fd_opened fd # inside @ Fd_closed fd # rest)"

lemma bracketed_append: "bracketed xs \<Longrightarrow> bracketed ys \<Longrightarrow> bracketed (xs @ ys)"
  by (induction rule: bracketed.induct) (auto intro: bracketed.intros)

lemma bracketed_enclose: "bracketed xs \<Longrightarrow> bracketed (Fd_opened fd # xs @ [Fd_closed fd])"
  by (rule bracketed_pair [OF _ bracketed_Nil])

text \<open>In such a log, every descriptor is closed as often as it is opened.\<close>

lemma bracketed_counts:
  "bracketed log \<Longrightarrow> count_list log (Fd_opened fd) = count_list log (Fd_closed fd)"
  by (induction rule: bracketed.induct) simp_all

definition fds_balanced :: "'w walk_context \<Rightarrow> 'w walk_state \<Rightarrow> 'w walk_state \<Rightarrow> bool" where
  "fds_balanced ctx st st' \<longleftrightarrow> (\<exists>log. ws_fd_log st' = ws_fd_log st @ log \<and> bracketed log)"

definition output_grows :: "'w walk_context \<Rightarrow> 'w walk_state \<Rightarrow> 'w walk_state \<Rightarrow> bool" where
  "output_grows ctx st st' \<longleftrightarrow>
     (writer_ok (wc_writer ctx) \<longrightarrow>
        prefix (wr_accepted (wc_writer ctx) (out_writer (ws_output st)))
               (wr_accepted (wc_writer ctx) (out_writer (ws_output st')))) \<and>
     out_emitted_count (ws_output st) \<le> out_emitted_count (ws_output st') \<and>
     out_separator (ws_output st') = out_separator (ws_output st) \<and>
     out_fd (ws_output st') = out_fd (ws_output st) \<and> out_owns_fd (ws_output st') = out_owns_fd (ws_output st)"

lemma write_bytes_extends:
  assumes "writer_ok W" "wr_write_bytes W w bs = (ok, w')"
  shows "prefix (wr_accepted W w) (wr_accepted W w')"
  using assms writer_okD(2,3) [OF assms(1)] by (cases ok) fastforce+

lemma write_char_extends:
  assumes "writer_ok W" "wr_write_char W w c = (ok, w')"
  shows "prefix (wr_accepted W w) (wr_accepted W w')"
  using assms writer_okD(4,5) [OF assms(1)] by (cases ok) fastforce+

lemma emit_extends:
  assumes "writer_ok W" "output_emit W out path n = (ok, out')"
  shows "prefix (wr_accepted W (out_writer out)) (wr_accepted W (out_writer out'))"
  using assms(2)
  by (auto simp: output_emit_def Let_def split: prod.splits if_splits
      dest!: write_bytes_extends [OF assms(1)] write_char_extends [OF assms(1)] intro: prefix_order.trans)

interpretation errors: walk_relation errors_grow
  by unfold_locales
    (auto simp: errors_grow_def walk_record_error_def open_fd_def close_fd_def poll_frame)

interpretation stop: walk_relation stop_latched
proof unfold_locales
  fix ctx :: "'a walk_context" and st st1 st2 :: "'a walk_state"
  show "stop_latched ctx st st1 \<Longrightarrow> stop_latched ctx st1 st2 \<Longrightarrow> stop_latched ctx st st2"
    by (rule stop_latched_trans)
  show "stop_latched ctx st (snd (walk_should_stop ctx st))"
    by (rule stop_latched_poll)
qed (auto simp: stop_latched_def walk_record_error_def open_fd_def close_fd_def)

interpretation fds: walk_relation fds_balanced
proof unfold_locales
  fix ctx :: "'a walk_context" and st st1 st2 :: "'a walk_state" and fd
  show "fds_balanced ctx st st1 \<Longrightarrow> fds_balanced ctx st1 st2 \<Longrightarrow> fds_balanced ctx st st2"
    unfolding fds_balanced_def using bracketed_append by fastforce
  show "fds_balanced ctx (open_fd fd st) st1 \<Longrightarrow> fds_balanced ctx st (close_fd fd st1)"
    unfolding fds_balanced_def open_fd_def close_fd_def using bracketed_enclose by fastforce
qed (auto simp: fds_balanced_def walk_record_error_def poll_frame intro: bracketed_Nil)

interpretation out: walk_relation output_grows
proof unfold_locales
  fix ctx :: "'a walk_context" and st :: "'a walk_state" and path n ok out
  assume "output_emit (wc_writer ctx) (ws_output st) path n = (ok, out)"
  then show "output_grows ctx st (st\<lparr>ws_output := out\<rparr>)"
    using emit_extends emit_frame by (fastforce simp: output_grows_def)
next
  fix ctx :: "'a walk_context" and st st1 st2 :: "'a walk_state"
  show "output_grows ctx st st1 \<Longrightarrow> output_grows ctx st1 st2 \<Longrightarrow> output_grows ctx st st2"
    by (auto simp: output_grows_def intro: prefix_order.trans)
qed (auto simp: output_grows_def walk_record_error_def open_fd_def close_fd_def poll_frame)

text \<open>A subdirectory that fails without a stop, for instance because a match could not be written,
  leaves no trace in its parent: the loop goes on as after a success.\<close>

lemma nested_failure_is_ignored:
  assumes "walk_should_stop ctx st = (False, s0)"
    and "walk_entry ctx fd len depth e s0 = Entry_enter sub sublen d s1"
    and "process sub sublen d s1 = Some (False, s2)" "walk_should_stop ctx (close_fd sub s2) = (False, s3)"
  shows "walk_loop process ctx fd len depth (e # es) st = walk_loop process ctx fd len depth es (walk_truncate len s3)"
  using assms by (simp add: Let_def)

section \<open>Termination\<close>

text \<open>What \<open>readdir\<close> is documented to deliver: names that are not empty and hold neither a NUL nor
  a slash.\<close>

definition readdir_ok :: "os \<Rightarrow> bool" where
  "readdir_ok os \<longleftrightarrow>
     (\<forall>fd. \<forall>e \<in> set (sys_entries os fd). de_name e \<noteq> [] \<and> no_nul (de_name e) \<and> slash \<notin> set (de_name e))"

declare not_None_eq [simp del]

lemma append_path_longer:
  "walk_append_path buffer cap len name n = Some (buffer', len') \<Longrightarrow> len + n \<le> len' \<and> len' < cap"
  by (auto simp: walk_append_path_def Let_def split: if_splits)

lemma entry_longer:
  assumes "walk_entry ctx fd len depth e st = Entry_enter sub sublen d st'"
  shows "len + length (de_name e) \<le> sublen \<and> sublen < PATH_CAPACITY"
  using assms append_path_longer [of "ws_buffer st" PATH_CAPACITY len "de_name e" "length (de_name e)"]
  by (auto simp: walk_entry_def Let_def split: if_splits option.splits prod.splits sum.splits)

lemma loop_total:
  assumes "\<And>sub sublen d s. len < sublen \<Longrightarrow> sublen < PATH_CAPACITY \<Longrightarrow> process sub sublen d s \<noteq> None"
    and "\<forall>e \<in> set es. de_name e \<noteq> []"
  shows "walk_loop process ctx fd len depth es st \<noteq> None"
  using assms(2)
proof (induction es arbitrary: st)
  case Nil
  then show ?case by (auto simp: Let_def split: prod.splits option.splits)
next
  case (Cons e es)
  obtain stop s1 where s: "walk_should_stop ctx st = (stop, s1)" by fastforce
  have IH: "walk_loop process ctx fd len depth es s' \<noteq> None" for s' using Cons by simp
  show ?case
  proof (cases "walk_entry ctx fd len depth e s1")
    case (Entry_enter sub sublen d s2)
    then have "len < sublen" "sublen < PATH_CAPACITY"
      using entry_longer [OF Entry_enter] Cons.prems by (cases "de_name e", auto)+
    then obtain rok s3 where "process sub sublen d s2 = Some (rok, s3)" using assms(1) by fastforce
    then show ?thesis using s Entry_enter IH by (auto simp: Let_def split: prod.splits)
  qed (use s IH in simp_all)
qed

lemma iterate_total:
  assumes "readdir_ok (wc_os ctx)"
  shows "len < PATH_CAPACITY \<Longrightarrow> PATH_CAPACITY \<le> len + n \<Longrightarrow> walk_iterate_entries n ctx fd len depth st \<noteq> None"
proof (induction n arbitrary: fd len depth st)
  case 0
  then show ?case by simp
next
  case (Suc n)
  have "walk_loop (walk_iterate_entries n ctx) ctx fd len depth (sys_entries (wc_os ctx) fd) st \<noteq> None"
    using Suc assms by (intro loop_total) (auto simp: readdir_ok_def)
  then show ?case by simp
qed

text \<open>More fuel changes nothing.\<close>

lemma loop_mono:
  assumes "\<And>sub sublen d s r. process sub sublen d s = Some r \<Longrightarrow> process' sub sublen d s = Some r"
  shows "walk_loop process ctx fd len depth es st = Some r \<Longrightarrow> walk_loop process' ctx fd len depth es st = Some r"
proof (induction es arbitrary: st)
  case Nil
  then show ?case by simp
next
  case (Cons e es)
  obtain stop s1 where s: "walk_should_stop ctx st = (stop, s1)" by fastforce
  show ?case
  proof (cases stop)
    case False
    show ?thesis
    proof (cases "walk_entry ctx fd len depth e s1")
      case (Entry_enter sub sublen d s2)
      then obtain rok s3 where p: "process sub sublen d s2 = Some (rok, s3)"
        using Cons.prems s False by (auto split: option.splits)
      then show ?thesis using Cons s False Entry_enter assms [OF p]
        by (auto simp: Let_def split: prod.splits if_splits)
    qed (use Cons s False in auto)
  qed (use Cons.prems s in simp)
qed

lemma iterate_mono:
  "walk_iterate_entries n ctx fd len depth st = Some r \<Longrightarrow> n \<le> m \<Longrightarrow> walk_iterate_entries m ctx fd len depth st = Some r"
proof (induction n arbitrary: m fd len depth st r)
  case 0
  then show ?case by simp
next
  case (Suc n)
  then obtain k where m: "m = Suc k" "n \<le> k" by (cases m) auto
  show ?case
    using Suc.prems loop_mono [OF Suc.IH [OF _ m(2)]] unfolding m(1) by (auto split: if_splits)
qed

lemma root_directory_total:
  assumes "readdir_ok (wc_os ctx)" "len < PATH_CAPACITY"
  shows "walk_root_directory ctx root len c st \<noteq> None"
proof -
  have "walk_process_directory ctx fd len 0 s \<noteq> None" for fd s
    unfolding walk_process_directory_def by (rule iterate_total [OF assms]) simp
  then show ?thesis
    unfolding walk_root_directory_def Let_def by (auto split: prod.splits sum.splits option.splits)
qed

lemma visit_root_total: "readdir_ok (wc_os ctx) \<Longrightarrow> walk_visit_root ctx root st \<noteq> None"
  unfolding walk_visit_root_def Let_def
  by (auto simp: root_directory_total split: sum.splits option.splits)

lemma roots_total: "readdir_ok (wc_os ctx) \<Longrightarrow> walk_roots ctx roots any_ok st \<noteq> None"
proof (induction roots arbitrary: any_ok st)
  case Nil
  then show ?case by simp
next
  case (Cons r rs)
  obtain stop s1 where s: "walk_should_stop ctx st = (stop, s1)" by fastforce
  obtain ok s2 where "walk_visit_root ctx r s1 = Some (ok, s2)"
    using visit_root_total [OF Cons.prems] by fastforce
  then show ?case using s Cons by (simp)
qed

lemma walk_total: "readdir_ok (wc_os ctx) \<Longrightarrow> walk_from ctx roots st \<noteq> None"
  unfolding walk_from_def using visit_root_total roots_total by (metis (full_types))

section \<open>Stopping and failing\<close>

lemma should_stop_requested: "ws_stop_requested st \<Longrightarrow> walk_should_stop ctx st = (True, st)"
  by (simp add: walk_should_stop_def)

lemma loop_requested:
  "ws_stop_requested st \<Longrightarrow> walk_loop process ctx fd len depth es st = Some (False, st)"
  by (cases es) (simp_all add: should_stop_requested)

text \<open>A directory that ends with a stop requested reports failure.\<close>

lemma loop_interrupted:
  assumes "\<And>sub sublen d s s'. process sub sublen d s = Some (True, s') \<Longrightarrow> \<not> ws_stop_requested s'"
  shows "walk_loop process ctx fd len depth es st = Some (True, st') \<Longrightarrow> \<not> ws_stop_requested st'"
proof (induction es arbitrary: st)
  case Nil
  obtain stop s1 where s: "walk_should_stop ctx st = (stop, s1)" by fastforce
  then show ?case using Nil should_stop_frame(6) [OF s] by (auto split: if_splits option.splits)
next
  case (Cons e es)
  obtain stop s1 where s: "walk_should_stop ctx st = (stop, s1)" by fastforce
  then have running: "\<not> stop" using Cons.prems by (auto split: if_splits)
  show ?case
  proof (cases "walk_entry ctx fd len depth e s1")
    case (Entry_enter sub sublen d s2)
    then show ?thesis using Cons s running by (auto simp: Let_def split: option.splits prod.splits if_splits)
  qed (use Cons s running in auto)
qed

lemma iterate_interrupted:
  "walk_iterate_entries n ctx fd len depth st = Some (True, st') \<Longrightarrow> \<not> ws_stop_requested st'"
proof (induction n arbitrary: fd len depth st st')
  case 0
  then show ?case by simp
next
  case (Suc n)
  then show ?case using loop_interrupted [OF Suc.IH] by (auto split: if_splits)
qed

text \<open>With a writer that does not fail, a directory fails only with a stop or an error recorded.\<close>

lemma emit_if_match_reliable:
  "writer_reliable (wc_writer ctx) \<Longrightarrow> walk_emit_if_match ctx c st = (ok, c', st') \<Longrightarrow> ok"
  by (erule emit_if_match_cases) (use emit_never_fails in \<open>cases ok; fastforce\<close>)+

lemma entry_reliable:
  "writer_reliable (wc_writer ctx) \<Longrightarrow> walk_entry ctx fd len depth e st \<noteq> Entry_failed st'"
  by (auto simp: walk_entry_def Let_def dest: emit_if_match_reliable
      split: if_splits option.splits prod.splits sum.splits)

lemma loop_reported:
  assumes "writer_reliable (wc_writer ctx)"
    and "\<And>sub sublen d s s'. process sub sublen d s = Some (False, s') \<Longrightarrow>
           ws_stop_requested s' \<or> ws_errors s' \<noteq> []"
    and "\<And>sub sublen d s s' ok. process sub sublen d s = Some (ok, s') \<Longrightarrow> errors_grow ctx s s'"
  shows "walk_loop process ctx fd len depth es st = Some (False, st') \<Longrightarrow>
    ws_stop_requested st' \<or> ws_errors st' \<noteq> []"
proof (induction es arbitrary: st)
  case Nil
  obtain stop s1 where s: "walk_should_stop ctx st = (stop, s1)" by fastforce
  then show ?case using Nil should_stop_frame(6) [OF s]
    by (auto simp: walk_record_error_def split: if_splits option.splits)
next
  case (Cons e es)
  obtain stop s1 where s: "walk_should_stop ctx st = (stop, s1)" by fastforce
  show ?case
  proof (cases stop)
    case True
    then show ?thesis using Cons.prems s should_stop_frame(6) [OF s] by auto
  next
    case False
    show ?thesis
    proof (cases "walk_entry ctx fd len depth e s1")
      case (Entry_failed s2)
      then show ?thesis using entry_reliable [OF assms(1)] by blast
    next
      case (Entry_enter sub sublen d s2)
      then obtain rok s3 where p: "process sub sublen d s2 = Some (rok, s3)"
        using Cons.prems s False by (auto split: option.splits)
      obtain stop2 s4 where s4: "walk_should_stop ctx (close_fd sub s3) = (stop2, s4)" by fastforce
      show ?thesis using Cons s False Entry_enter p s4 should_stop_frame(6) [OF s4]
        by (auto simp: Let_def walk_truncate_def split: if_splits)
    qed (use Cons s False in auto)
  qed
qed

lemma iterate_reported:
  assumes "writer_reliable (wc_writer ctx)"
  shows "walk_iterate_entries n ctx fd len depth st = Some (False, st') \<Longrightarrow>
    ws_stop_requested st' \<or> ws_errors st' \<noteq> []"
proof (induction n arbitrary: fd len depth st st')
  case 0
  then show ?case by simp
next
  case (Suc n)
  have loop: "walk_loop (walk_iterate_entries n ctx) ctx fd len depth es st = Some (False, st') \<Longrightarrow>
    ws_stop_requested st' \<or> ws_errors st' \<noteq> []" for es
    by (rule loop_reported [OF assms Suc.IH errors.iterate])
  show ?case
  proof (cases "sys_reader_create (wc_os ctx) fd")
    case True
    then show ?thesis using Suc.prems loop by simp
  next
    case False
    then show ?thesis using Suc.prems by (auto simp: walk_record_error_def)
  qed
qed

lemma visit_root_reported:
  assumes "writer_reliable (wc_writer ctx)" "walk_visit_root ctx root st = Some (False, st')"
  shows "ws_stop_requested st' \<or> ws_errors st' \<noteq> []"
  using assms(2) unfolding walk_visit_root_def walk_root_directory_def walk_process_directory_def Let_def
  by (auto simp: walk_record_error_def close_fd_def
      dest: emit_if_match_reliable [OF assms(1)] iterate_reported [OF assms(1)]
      split: sum.splits if_splits option.splits prod.splits)

text \<open>Errors and the stop flag stay, so the loop over the roots only has to remember one failure.\<close>

lemma reported_kept:
  "errors_grow ctx st st' \<Longrightarrow> stop_latched ctx st st' \<Longrightarrow> ws_stop_requested st \<or> ws_errors st \<noteq> [] \<Longrightarrow>
   ws_stop_requested st' \<or> ws_errors st' \<noteq> []"
  by (auto simp: errors_grow_def dest: stop_latchedD(2))

lemma roots_reported:
  assumes "writer_reliable (wc_writer ctx)"
  shows "walk_roots ctx roots any_ok st = Some (False, st') \<Longrightarrow>
    (\<not> any_ok \<longrightarrow> ws_stop_requested st \<or> ws_errors st \<noteq> []) \<Longrightarrow> ws_stop_requested st' \<or> ws_errors st' \<noteq> []"
proof (induction roots arbitrary: any_ok st)
  case Nil
  then show ?case by simp
next
  case (Cons r rs)
  obtain stop s1 where s: "walk_should_stop ctx st = (stop, s1)" by fastforce
  have kept1: "ws_stop_requested s1 \<or> ws_errors s1 \<noteq> []" if "ws_stop_requested st \<or> ws_errors st \<noteq> []"
    using reported_kept [OF errors.should_stop [OF s] stop.should_stop [OF s] that] .
  show ?case
  proof (cases stop)
    case True
    then show ?thesis using Cons.prems s should_stop_frame(6) [OF s] by simp
  next
    case False
    then obtain rok s2 where v: "walk_visit_root ctx r s1 = Some (rok, s2)"
      and rest: "walk_roots ctx rs (if rok then any_ok else False) s2 = Some (False, st')"
      using Cons.prems s by (auto split: option.splits)
    have "ws_stop_requested s2 \<or> ws_errors s2 \<noteq> []" if "\<not> rok \<or> \<not> any_ok"
    proof (cases rok)
      case True
      then have "ws_stop_requested s1 \<or> ws_errors s1 \<noteq> []" using that kept1 Cons.prems(2) by simp
      then show ?thesis by (rule reported_kept [OF errors.visit_root [OF v] stop.visit_root [OF v]])
    next
      case False
      then show ?thesis using visit_root_reported [OF assms] v by simp
    qed
    then show ?thesis using Cons.IH [OF rest] by (auto split: if_splits)
  qed
qed

section \<open>Properties\<close>

text \<open>The demo tree, and a directory whose only entry is a link back to itself.\<close>

definition demo_context :: "list_state walk_context" where
  "demo_context = \<lparr>wc_core = ref_core, wc_os = demo_os, wc_writer = list_writer,
     wc_predicate = plain_predicate, wc_signal_handler = None,
     wc_follow_symlinks = False, wc_one_file_system = False\<rparr>"

definition cycle_os :: os where
  "cycle_os = demo_os\<lparr>sys_fstatat := (\<lambda>fd name follow. Inr directory), sys_openat := (\<lambda>fd name nofollow. Inr 3),
     sys_entries := (\<lambda>fd. [\<lparr>de_name = ''again'', de_d_type = 10\<rparr>])\<rparr>"

definition cycle_context :: "list_state walk_context" where
  "cycle_context = demo_context\<lparr>wc_os := cycle_os, wc_follow_symlinks := True\<rparr>"

lemma demo_readdir_ok: "readdir_ok demo_os" "readdir_ok cycle_os"
  by (simp_all add: readdir_ok_def cycle_os_def demo_simps)

lemma demo_walk_returns: "\<exists>ok st'. walk_sequential demo_context roots out errs = Some (ok, st')"
proof -
  have "readdir_ok (wc_os demo_context)" by (simp add: demo_context_def demo_readdir_ok)
  from walk_total [OF this, of roots "walk_start out errs"] show ?thesis
    by (auto simp: walk_sequential_def not_None_eq)
qed

text \<open>C14: the walk ends for every set of roots, every output and every file system, links that
  form cycles included, provided directory entries have names.\<close>

theorem walk_terminates:
  assumes "readdir_ok (wc_os ctx)"
  shows "\<exists>ok st'. walk_sequential ctx root_paths out errors = Some (ok, st')"
  using walk_total [OF assms, of root_paths "walk_start out errors"] by (auto simp: walk_sequential_def not_None_eq)

theorem walk_terminates_witness:
  "\<exists>ok st'. walk_sequential cycle_context [''.''] (stdout_output []) [] = Some (ok, st')"
  by (rule walk_terminates) (simp add: cycle_context_def demo_readdir_ok)

text \<open>For a directory whose path has \<open>path_length\<close> bytes, every fuel from
  \<open>4096 - path_length\<close> on gives one and the same result.\<close>

lemma directory_result_independent_of_fuel:
  assumes "readdir_ok (wc_os ctx)" "path_length < PATH_CAPACITY"
  shows "\<exists>r. \<forall>n \<ge> PATH_CAPACITY - path_length. walk_iterate_entries n ctx fd path_length depth st = Some r"
proof -
  obtain r where "walk_iterate_entries (PATH_CAPACITY - path_length) ctx fd path_length depth st = Some r"
    using iterate_total [OF assms, of "PATH_CAPACITY - path_length" fd depth st] assms(2)
    by (auto simp: not_None_eq)
  then show ?thesis using iterate_mono by blast
qed

lemma directory_result_independent_of_fuel_instance:
  "\<exists>r. \<forall>n \<ge> PATH_CAPACITY - 1. walk_iterate_entries n cycle_context 3 1 0 (walk_start (stdout_output []) []) = Some r"
  by (rule directory_result_independent_of_fuel) (simp_all add: cycle_context_def demo_readdir_ok PATH_CAPACITY_def)

text \<open>C15: when the walk returns, whatever failed on the way, every descriptor it
  opened is closed: opening and closing form matching, nested pairs, so that none is left open,
  closed twice or closed before it was opened. This covers subdirectories that are opened and then
  given up because they cannot be statted or lie on another device.\<close>

theorem walk_closes_descriptors:
  assumes "walk_sequential ctx root_paths out errors = Some (ok, st')"
  shows "bracketed (ws_fd_log st') \<and>
    (\<forall>fd. count_list (ws_fd_log st') (Fd_opened fd) = count_list (ws_fd_log st') (Fd_closed fd))"
proof -
  have "bracketed (ws_fd_log st')"
    using fds.walk assms unfolding walk_sequential_def by (fastforce simp: fds_balanced_def walk_start_def)
  then show ?thesis using bracketed_counts by blast
qed

theorem walk_closes_descriptors_witness:
  "\<exists>ok st'. walk_sequential (demo_context\<lparr>wc_one_file_system := True\<rparr>) [''.''] (stdout_output []) [] = Some (ok, st') \<and>
     bracketed (ws_fd_log st')"
proof -
  have "readdir_ok (wc_os (demo_context\<lparr>wc_one_file_system := True\<rparr>))" by (simp add: demo_context_def demo_readdir_ok)
  from walk_total [OF this, of "[''.'']" "walk_start (stdout_output []) []"] obtain ok st'
    where "walk_sequential (demo_context\<lparr>wc_one_file_system := True\<rparr>) [''.''] (stdout_output []) [] = Some (ok, st')"
    by (auto simp: walk_sequential_def not_None_eq)
  with walk_closes_descriptors [OF this] show ?thesis by blast
qed

text \<open>C19: the signal handler is queried until it first answers stop and never again: the walk ends
  with the stop requested exactly when its last query was answered with stop.\<close>

theorem walk_stops_at_first_signal:
  assumes "walk_sequential ctx root_paths out errors = Some (ok, st')" "k < ws_polls st'"
  shows "handler_says_stop ctx k \<longleftrightarrow> Suc k = ws_polls st' \<and> ws_stop_requested st'"
  using stop_latchedD(4) [OF stop.walk, of ctx root_paths "walk_start out errors" ok st' k] assms
  unfolding walk_sequential_def by (simp add: walk_start_def)

definition stopping_context :: "list_state walk_context" where
  "stopping_context = demo_context\<lparr>wc_signal_handler := Some (\<lambda>k. Some True)\<rparr>"

theorem walk_stops_at_first_signal_witness:
  "\<exists>st'. walk_sequential stopping_context [''.''] (stdout_output []) [] = Some (True, st') \<and> ws_stop_requested st'"
proof -
  let ?st = "(walk_start (stdout_output []) [])\<lparr>ws_polls := 1, ws_stop_requested := True\<rparr>"
  have w: "walk_sequential stopping_context [''.''] (stdout_output []) [] = Some (True, ?st)"
    by (simp add: walk_sequential_def walk_from_def walk_should_stop_def stopping_context_def walk_start_def)
  from walk_stops_at_first_signal [OF w, of 0] w show ?thesis
    by (simp add: handler_says_stop_def stopping_context_def)
qed

text \<open>C21: a walk that fails although every write succeeded was stopped or has recorded an
  error: no failure of the file system goes unreported.\<close>

theorem walk_failure_is_reported:
  assumes "writer_reliable (wc_writer ctx)"
    and "walk_sequential ctx root_paths out errors = Some (False, st')"
  shows "ws_stop_requested st' \<or> ws_errors st' \<noteq> []"
  using assms(2) visit_root_reported [OF assms(1)] roots_reported [OF assms(1), of root_paths True]
  by (auto simp: walk_sequential_def walk_from_def split: if_splits)

theorem walk_failure_is_reported_witness:
  "\<exists>st'. walk_sequential demo_context [''missing''] (stdout_output []) [] = Some (False, st') \<and>
     (ws_stop_requested st' \<or> ws_errors st' \<noteq> [])"
proof -
  let ?st = "(walk_start (stdout_output []) [])\<lparr>ws_errors := [(''missing'', 2)]\<rparr>"
  have w: "walk_sequential demo_context [''missing''] (stdout_output []) [] = Some (False, ?st)"
  proof -
    have stat: "sys_fstatat (wc_os demo_context) AT_FDCWD ''missing'' False = Inl 2"
      by (simp add: demo_context_def demo_simps)
    have ctx: "wc_signal_handler demo_context = None" "wc_follow_symlinks demo_context = False"
      by (simp_all add: demo_context_def)
    show ?thesis
      by (simp add: walk_sequential_def walk_from_def walk_should_stop_def walk_visit_root_def stat ctx
          walk_record_error_def) (simp add: walk_start_def)
  qed
  have "ws_stop_requested ?st \<or> ws_errors ?st \<noteq> []"
    by (rule walk_failure_is_reported [OF _ w]) (simp add: demo_context_def list_writer_ok)
  with w show ?thesis by (intro exI [of _ ?st] conjI)
qed

end
