(* ===== verification/Seek_Walk_Spec.thy ===== *)
theory Seek_Walk_Spec
  imports Seek_Walk_Frame
begin

text \<open>
  The abstract walk and the refinement. The specification speaks of path strings instead of a
  shared buffer and its lengths, and of a list of events instead of an output and an error
  collector: a directory is the concatenation, in the order of its entries, of what each entry
  and the directory behind it give. It is a total function on the same fuel.

  The refinement lemmas show that the code's loop with its buffer, its truncations and its nine
  ways out yields exactly these events, for a writer that does not fail and a handler that does
  not stop: first for an entry, then for a directory, a root and the list of roots.
\<close>

section \<open>Specification\<close>

datatype event = Found string | Failed string errno

fun found :: "event list \<Rightarrow> string list" where
  "found [] = []"
| "found (Found p # evs) = p # found evs"
| "found (Failed p e # evs) = found evs"

fun failures :: "event list \<Rightarrow> (string \<times> errno) list" where
  "failures [] = []"
| "failures (Found p # evs) = failures evs"
| "failures (Failed p e # evs) = (p, e) # failures evs"

lemma found_append [simp]: "found (evs @ evs') = found evs @ found evs'"
  by (induction evs rule: found.induct) simp_all

lemma failures_append [simp]: "failures (evs @ evs') = failures evs @ failures evs'"
  by (induction evs rule: failures.induct) simp_all

definition child_path :: "string \<Rightarrow> string \<Rightarrow> string" where
  "child_path path name = path @ (if path \<noteq> [] \<and> last path \<noteq> slash then [slash] else []) @ name"

definition candidate_events :: "'w walk_context \<Rightarrow> candidate \<Rightarrow> event list" where
  "candidate_events ctx c =
     (if fst (filter_evaluate (wc_os ctx) (wc_predicate ctx) c) = DECISION_ACCEPT then [Found (cand_path c)] else [])"

text \<open>What opening a subdirectory answers, without the descriptors it opens and closes.\<close>

definition subdir_answer :: "'w walk_context \<Rightarrow> u64 option \<Rightarrow> fd \<Rightarrow> string \<Rightarrow> errno + fd" where
  "subdir_answer ctx dev fd name =
     (case sys_openat (wc_os ctx) fd name (\<not> wc_follow_symlinks ctx) of
        Inl e \<Rightarrow> Inl e
      | Inr sub \<Rightarrow>
          if wc_one_file_system ctx \<and> dev \<noteq> None then
            (case sys_fstat (wc_os ctx) sub of
               Inl e \<Rightarrow> Inl e
             | Inr st \<Rightarrow> if Some (st_dev st) = dev then Inr sub else Inl (sys_errno_residue (wc_os ctx) fd name))
          else Inr sub)"

text \<open>What an entry gives by itself, and the directory to look into, if any.\<close>

definition entry_visit ::
  "'w walk_context \<Rightarrow> u64 option \<Rightarrow> fd \<Rightarrow> string \<Rightarrow> nat \<Rightarrow> dirent \<Rightarrow> event list \<times> (fd \<times> string \<times> nat) option" where
  "entry_visit ctx dev fd path depth e =
     (let name = de_name e; child = child_path path name in
      if \<not> pred_include_hidden (wc_predicate ctx) \<and> walk_is_hidden_name name \<or> PATH_CAPACITY \<le> length child
      then ([], None)
      else let c = entry_candidate ctx child (length child) name (length name) (de_d_type e) fd depth;
               evaluated = snd (filter_evaluate (wc_os ctx) (wc_predicate ctx) c)
        in if fst (entry_is_directory ctx evaluated) \<and>
              walk_should_descend_directory ctx name (length name) (depth + 1)
           then case subdir_answer ctx dev fd name of
                  Inl err \<Rightarrow> (candidate_events ctx c @ [Failed child err], None)
                | Inr sub \<Rightarrow> (candidate_events ctx c, Some (sub, child, depth + 1))
           else (candidate_events ctx c, None))"

primrec spec_directory :: "nat \<Rightarrow> 'w walk_context \<Rightarrow> u64 option \<Rightarrow> fd \<Rightarrow> string \<Rightarrow> nat \<Rightarrow> event list" where
  "spec_directory 0 ctx dev fd path depth = []"
| "spec_directory (Suc n) ctx dev fd path depth =
     (if \<not> sys_reader_create (wc_os ctx) fd then [Failed path ENOMEM]
      else concat (map (\<lambda>e. case entry_visit ctx dev fd path depth e of
                 (evs, None) \<Rightarrow> evs
               | (evs, Some (sub, child, d)) \<Rightarrow> evs @ spec_directory n ctx dev sub child d)
             (sys_entries (wc_os ctx) fd))
           @ (case sys_read_error (wc_os ctx) fd of None \<Rightarrow> [] | Some e \<Rightarrow> [Failed path e]))"

definition directory_readable :: "'w walk_context \<Rightarrow> fd \<Rightarrow> bool" where
  "directory_readable ctx fd \<longleftrightarrow> sys_reader_create (wc_os ctx) fd \<and> sys_read_error (wc_os ctx) fd = None"

definition root_basename :: "string \<Rightarrow> string" where
  "root_basename root = (case last_index slash root of Some i \<Rightarrow> drop (Suc i) root | None \<Rightarrow> root)"

text \<open>A root that was statted: itself and the directory behind it, and whether it succeeds.\<close>

definition spec_root_tree :: "'w walk_context \<Rightarrow> u64 option \<Rightarrow> string \<Rightarrow> candidate \<Rightarrow> event list \<times> bool" where
  "spec_root_tree ctx dev root c =
     (if cand_entry_type c \<noteq> ENTRY_TYPE_DIRECTORY \<or>
         pred_has_max_depth (wc_predicate ctx) \<and> pred_max_depth (wc_predicate ctx) = 0
      then (candidate_events ctx c, True)
      else case sys_openat (wc_os ctx) AT_FDCWD root (\<not> wc_follow_symlinks ctx) of
          Inl e \<Rightarrow> (candidate_events ctx c @ [Failed root e], False)
        | Inr fd \<Rightarrow> (candidate_events ctx c @ spec_directory PATH_CAPACITY ctx dev fd root 0,
                     directory_readable ctx fd))"

text \<open>A root: its events, whether it succeeds, and the device its tree is confined to.\<close>

definition spec_root :: "'w walk_context \<Rightarrow> u64 option \<Rightarrow> string \<Rightarrow> event list \<times> bool \<times> u64 option" where
  "spec_root ctx dev root =
     (case sys_fstatat (wc_os ctx) AT_FDCWD root (wc_follow_symlinks ctx) of
        Inl e \<Rightarrow> ([Failed root e], False, dev)
      | Inr st \<Rightarrow>
          (let dev = (if wc_one_file_system ctx \<and> dev = None then Some (st_dev st) else dev)
           in if PATH_CAPACITY \<le> length root then ([Failed root ENAMETOOLONG], False, dev)
              else let (evs, ok) = spec_root_tree ctx dev root
                         (root_candidate root (length root) (root_basename root) (length (root_basename root)) st)
                in (evs, ok, dev)))"

fun spec_roots :: "'w walk_context \<Rightarrow> u64 option \<Rightarrow> string list \<Rightarrow> event list \<times> bool" where
  "spec_roots ctx dev [] = ([], True)"
| "spec_roots ctx dev (root # roots) =
     (let (evs, ok, dev) = spec_root ctx dev root; (evs', ok') = spec_roots ctx dev roots
      in (evs @ evs', ok \<and> ok'))"

definition spec_walk :: "'w walk_context \<Rightarrow> string list \<Rightarrow> event list \<times> bool" where
  "spec_walk ctx roots = spec_roots ctx None (if roots = [] then [''.''] else roots)"

section \<open>The path buffer\<close>

text \<open>The buffer has its capacity and holds the path as a C string.\<close>

definition holds_path :: "char list \<Rightarrow> string \<Rightarrow> bool" where
  "holds_path buffer path \<longleftrightarrow> length buffer = PATH_CAPACITY \<and> no_nul path \<and> (\<exists>rest. buffer = path @ NUL # rest)"

lemma holds_path_cstr: "holds_path buffer path \<Longrightarrow> cstr buffer = path"
  by (auto simp: holds_path_def cstr_prefix)

lemma holds_path_length: "holds_path buffer path \<Longrightarrow> length path < PATH_CAPACITY"
  by (auto simp: holds_path_def)

lemma holds_path_suffix:
  assumes "holds_path buffer (s @ t)"
  shows "cstr (drop (length (s @ t) - length t) buffer) = t"
  using assms by (auto simp: holds_path_def cstr_prefix)

text \<open>Writing a C string at an offset keeps what is in front of it.\<close>

lemma holds_path_write:
  assumes "length buffer = PATH_CAPACITY" "take i buffer = p" "i \<le> length buffer" "no_nul (p @ s)"
    and "length (p @ s) < PATH_CAPACITY"
  shows "holds_path ((copy_at buffer i s)[i + length s := NUL]) (p @ s)"
proof -
  have i: "length p = i" using assms(2,3) by auto
  have len: "length s + i < length buffer" using assms(1,5) i by simp
  then obtain x rest where r: "drop (i + length s) buffer = x # rest"
    by (metis Cons_nth_drop_Suc add.commute)
  have "(copy_at buffer i s)[i + length s := NUL] = p @ s @ NUL # rest"
    using assms(2) i r by (simp add: copy_at_def list_update_append)
  moreover have "length ((copy_at buffer i s)[i + length s := NUL]) = PATH_CAPACITY"
    using assms(1) len by simp
  ultimately show ?thesis using assms(4) by (simp add: holds_path_def)
qed

lemma truncate_holds:
  assumes "holds_path buffer (path @ s)"
  shows "holds_path (buffer[length path := NUL]) path"
proof -
  obtain rest where b: "buffer = (path @ s) @ NUL # rest" and n: "no_nul path" and l: "length buffer = PATH_CAPACITY"
    using assms by (auto simp: holds_path_def)
  obtain x r where x: "s @ NUL # rest = x # r" by (cases s) auto
  have "buffer[length path := NUL] = path @ NUL # r"
    unfolding b append_assoc x by (simp add: list_update_append)
  moreover have "length (buffer[length path := NUL]) = PATH_CAPACITY" using l by simp
  ultimately show ?thesis using n unfolding holds_path_def by blast
qed

lemma child_path_split: "\<exists>s. child_path path name = path @ s"
  by (auto simp: child_path_def)

lemma no_nul_child [simp]: "no_nul path \<Longrightarrow> no_nul name \<Longrightarrow> no_nul (child_path path name)"
  by (simp add: child_path_def)

text \<open>Appending a name: the test for room, the separator and the copy are \<open>child_path\<close>.\<close>

lemma append_path_child:
  assumes "holds_path buffer path" "no_nul name"
  shows "if PATH_CAPACITY \<le> length (child_path path name)
    then walk_append_path buffer PATH_CAPACITY (length path) name (length name) = None
    else \<exists>buffer'. walk_append_path buffer PATH_CAPACITY (length path) name (length name) =
           Some (buffer', length (child_path path name)) \<and> holds_path buffer' (child_path path name)"
proof -
  obtain rest where b: "buffer = path @ NUL # rest" and len: "length buffer = PATH_CAPACITY" and nn: "no_nul path"
    using assms(1) by (auto simp: holds_path_def)
  define sep where "sep \<longleftrightarrow> path \<noteq> [] \<and> last path \<noteq> slash"
  have sep_buf: "(0 < length path \<and> buffer ! (length path - 1) \<noteq> slash) = sep"
    using b by (auto simp: sep_def last_conv_nth nth_append)
  have child: "child_path path name = path @ (if sep then [slash] else []) @ name"
    by (simp add: child_path_def sep_def)
  show ?thesis
  proof (cases "PATH_CAPACITY \<le> length (child_path path name)")
    case True
    then show ?thesis unfolding walk_append_path_def Let_def sep_buf by (auto simp: child)
  next
    case False
    define p where "p = path @ (if sep then [slash] else [])"
    define buf where "buf = (if sep then buffer[length path := slash] else buffer)"
    have "take (length p) buf = p"
      using b by (simp add: p_def buf_def list_update_append)
    moreover have "length buf = PATH_CAPACITY" using len by (simp add: buf_def)
    moreover have "length (p @ name) < PATH_CAPACITY" using False by (simp add: child p_def)
    moreover have "no_nul (p @ name)" using nn assms(2) by (simp add: p_def)
    ultimately have "holds_path ((copy_at buf (length p) name)[length p + length name := NUL]) (p @ name)"
      by (intro holds_path_write) simp_all
    moreover have "walk_append_path buffer PATH_CAPACITY (length path) name (length name) =
      Some ((copy_at buf (length p) name)[length p + length name := NUL], length p + length name)"
      using False unfolding walk_append_path_def Let_def sep_buf by (auto simp: child p_def buf_def)
    moreover have "child_path path name = p @ name" by (simp add: child p_def)
    ultimately show ?thesis using False by simp
  qed
qed

section \<open>The simulation\<close>

text \<open>What the refinement assumes of the world: a writer that takes every write, a handler that never
  stops, entry names as \<open>readdir\<close> gives them, bc-core as documented.\<close>

definition quiet :: "'w walk_context \<Rightarrow> bool" where
  "quiet ctx \<longleftrightarrow>
     writer_ok (wc_writer ctx) \<and> writer_reliable (wc_writer ctx) \<and> (\<forall>k. \<not> handler_says_stop ctx k) \<and>
     readdir_ok (wc_os ctx) \<and> wf_predicate (wc_predicate ctx) \<and> core_ok (wc_core ctx)"

definition accepted :: "'w walk_context \<Rightarrow> 'w walk_state \<Rightarrow> string" where
  "accepted ctx st = wr_accepted (wc_writer ctx) (out_writer (ws_output st))"

text \<open>The state has moved by exactly these events.\<close>

definition moved :: "'w walk_context \<Rightarrow> 'w walk_state \<Rightarrow> event list \<Rightarrow> 'w walk_state \<Rightarrow> bool" where
  "moved ctx st evs st' \<longleftrightarrow>
     accepted ctx st' = accepted ctx st @ lines_of (out_separator (ws_output st)) (found evs) \<and>
     out_separator (ws_output st') = out_separator (ws_output st) \<and>
     out_emitted_count (ws_output st') = out_emitted_count (ws_output st) + length (found evs) \<and>
     ws_errors st' = ws_errors st @ failures evs \<and>
     ws_root_device st' = ws_root_device st \<and>
     ws_stop_requested st' = ws_stop_requested st"

lemma moved_refl: "moved ctx st [] st"
  by (simp add: moved_def)

lemma moved_trans: "moved ctx st evs st1 \<Longrightarrow> moved ctx st1 evs' st2 \<Longrightarrow> moved ctx st (evs @ evs') st2"
  by (simp add: moved_def)

lemma moved_error: "moved ctx st [Failed p e] (walk_record_error p e st)"
  by (simp add: moved_def walk_record_error_def accepted_def)

lemma moved_frame [simp]:
  "moved ctx st evs (st'\<lparr>ws_buffer := b\<rparr>) = moved ctx st evs st'"
  "moved ctx (st\<lparr>ws_buffer := b\<rparr>) evs st' = moved ctx st evs st'"
  "moved ctx st evs (open_fd fd st') = moved ctx st evs st'"
  "moved ctx (open_fd fd st) evs st' = moved ctx st evs st'"
  "moved ctx st evs (close_fd fd st') = moved ctx st evs st'"
  "moved ctx st evs (walk_truncate n st') = moved ctx st evs st'"
  by (simp_all add: moved_def accepted_def open_fd_def close_fd_def walk_truncate_def)

lemma record_error_buffer [simp]: "ws_buffer (walk_record_error p e st) = ws_buffer st"
  by (simp add: walk_record_error_def)

text \<open>Opening a subdirectory gives the answer of the specification and moves nothing else.\<close>

lemma open_subdir_answer: "fst (walk_open_subdir ctx fd name st) = subdir_answer ctx (ws_root_device st) fd name"
  by (auto simp: walk_open_subdir_def subdir_answer_def Let_def open_fd_def split: sum.splits)

lemma open_subdir_moved:
  assumes "walk_open_subdir ctx fd name st1 = (r, st2)"
  shows "moved ctx st evs st2 = moved ctx st evs st1" "ws_buffer st2 = ws_buffer st1"
proof -
  have "moved ctx st evs st2 = moved ctx st evs st1 \<and> ws_buffer st2 = ws_buffer st1"
    using assms by (cases rule: open_subdir_cases) (simp_all, simp_all add: open_fd_def close_fd_def)
  then show "moved ctx st evs st2 = moved ctx st evs st1" "ws_buffer st2 = ws_buffer st1" by simp_all
qed

text \<open>Polling an undisturbed walk.\<close>

lemma poll_quiet:
  assumes "quiet ctx" "\<not> ws_stop_requested st"
  obtains st' where "walk_should_stop ctx st = (False, st')" "moved ctx st [] st'" "ws_buffer st' = ws_buffer st"
    "ws_root_device st' = ws_root_device st" "\<not> ws_stop_requested st'"
proof -
  obtain stop st' where s: "walk_should_stop ctx st = (stop, st')" by fastforce
  have "\<not> handler_says_stop ctx (ws_polls st)" using assms(1) by (simp add: quiet_def)
  then have "\<not> stop" using s assms(2)
    by (auto simp: walk_should_stop_def handler_says_stop_def Let_def split: option.splits if_splits)
  then show ?thesis using that [of st'] s should_stop_frame [OF s] assms(2)
    by (simp add: moved_def accepted_def)
qed

lemma emit_if_match_moved:
  assumes "quiet ctx" "cand_path_length c = length (cand_path c)"
  obtains st' where
    "walk_emit_if_match ctx c st = (True, snd (filter_evaluate (wc_os ctx) (wc_predicate ctx) c), st')"
    "moved ctx st (candidate_events ctx c) st'" "ws_buffer st' = ws_buffer st"
proof -
  obtain d c' where ev: "filter_evaluate (wc_os ctx) (wc_predicate ctx) c = (d, c')" by fastforce
  note frame = evaluate_frame [OF _ ev]
  have wf: "wf_predicate (wc_predicate ctx)" and W: "writer_ok (wc_writer ctx)" "writer_reliable (wc_writer ctx)"
    using assms(1) by (simp_all add: quiet_def)
  show ?thesis
  proof (cases "d = DECISION_ACCEPT")
    case True
    obtain ok out where em: "output_emit (wc_writer ctx) (ws_output st) (cand_path c) (cand_path_length c) = (ok, out)"
      by fastforce
    then have ok: "ok" using emit_never_fails [OF W(2)] by (cases ok) auto
    with em have em': "output_emit (wc_writer ctx) (ws_output st) (cand_path c) (cand_path_length c) = (True, out)"
      by simp
    have "moved ctx st [Found (cand_path c)] (st\<lparr>ws_output := out\<rparr>)"
      using output_sink.emit_appends [OF W(1) _ em'] emit_frame [OF em'] assms(2)
      by (simp add: moved_def accepted_def)
    then show ?thesis
      using that [of "st\<lparr>ws_output := out\<rparr>"] True ev em ok frame wf
      by (simp add: walk_emit_if_match_def candidate_events_def)
  next
    case False
    then show ?thesis
      using that [of st] ev by (simp add: walk_emit_if_match_def candidate_events_def moved_refl)
  qed
qed

lemma is_directory_depth: "cand_depth (snd (entry_is_directory ctx c)) = cand_depth c"
  using populate_frame(5) by (auto simp: entry_is_directory_def Let_def split: prod.splits)

section \<open>Refinement\<close>

subsection \<open>An entry\<close>

lemma entry_refines:
  assumes q: "quiet ctx" and h: "holds_path (ws_buffer st) path" and r: "\<not> ws_stop_requested st"
    and e: "no_nul (de_name e)" and v: "entry_visit ctx (ws_root_device st) fd path depth e = (evs, sub)"
  shows "\<exists>st'. moved ctx st evs st' \<and> (case sub of
      None \<Rightarrow> (walk_entry ctx fd (length path) depth e st = Entry_skipped st' \<and> holds_path (ws_buffer st') path) \<or>
              (walk_entry ctx fd (length path) depth e st = Entry_done st' \<and>
               (\<exists>s. holds_path (ws_buffer st') (path @ s)))
    | Some (subfd, child, d) \<Rightarrow> walk_entry ctx fd (length path) depth e st = Entry_enter subfd (length child) d st' \<and>
              holds_path (ws_buffer st') child \<and> child = child_path path (de_name e))"
proof -
  let ?name = "de_name e" let ?child = "child_path path ?name"
  show ?thesis
  proof (cases "\<not> pred_include_hidden (wc_predicate ctx) \<and> walk_is_hidden_name ?name")
    case True
    then have "evs = []" "sub = None" using v by (simp_all add: entry_visit_def)
    then show ?thesis using True h by (auto simp: walk_entry_def moved_refl intro!: exI [of _ st])
  next
    case visible: False
    show ?thesis
    proof (cases "PATH_CAPACITY \<le> length ?child")
      case True
      then have "evs = []" "sub = None" using v by (simp_all add: entry_visit_def)
      moreover have "walk_append_path (ws_buffer st) PATH_CAPACITY (length path) ?name (length ?name) = None"
        using append_path_child [OF h e] True by simp
      ultimately show ?thesis using visible h
        by (auto simp: walk_entry_def moved_refl intro!: exI [of _ st] exI [of _ "[]"])
    next
      case room: False
      then obtain buf where ap: "walk_append_path (ws_buffer st) PATH_CAPACITY (length path) ?name (length ?name) = Some (buf, length ?child)"
        and hb: "holds_path buf ?child"
        using append_path_child [OF h e] by auto
      obtain p where p: "?child = p @ ?name" by (auto simp: child_path_def intro: that [of "path @ _"])
      have cs: "cstr buf = ?child" "cstr (drop (length ?child - length ?name) buf) = ?name"
        using holds_path_cstr [OF hb] holds_path_suffix [of buf p ?name] hb p by simp_all
      let ?c = "entry_candidate ctx ?child (length ?child) ?name (length ?name) (de_d_type e) fd depth"
      have lenc: "cand_path_length ?c = length (cand_path ?c)"
        by (simp add: entry_candidate_def split: prod.splits)
      obtain s1 where em: "walk_emit_if_match ctx ?c (st\<lparr>ws_buffer := buf\<rparr>) =
          (True, snd (filter_evaluate (wc_os ctx) (wc_predicate ctx) ?c), s1)"
        and mv: "moved ctx (st\<lparr>ws_buffer := buf\<rparr>) (candidate_events ctx ?c) s1" and b1: "ws_buffer s1 = buf"
        using emit_if_match_moved [OF q lenc, of "st\<lparr>ws_buffer := buf\<rparr>"] by auto
      let ?ev = "snd (filter_evaluate (wc_os ctx) (wc_predicate ctx) ?c)"
      obtain isd c2 where isd: "entry_is_directory ctx ?ev = (isd, c2)" by fastforce
      have "cand_depth (snd (entry_is_directory ctx ?ev)) = depth + 1"
        using evaluate_frame(4) [of "wc_predicate ctx" "wc_os ctx" ?c _ ?ev] q
        by (simp add: is_directory_depth quiet_def prod_eq_iff) (simp add: entry_candidate_def split: prod.splits)
      then have depth: "cand_depth c2 = depth + 1" using isd by simp
      have dev: "ws_root_device s1 = ws_root_device st" using mv by (simp add: moved_def)
      have mv': "moved ctx st (candidate_events ctx ?c) s1" using mv by simp
      have suffix: "\<exists>s. holds_path (ws_buffer s1) (path @ s)"
        using hb b1 child_path_split [of path ?name] by auto
      let ?down = "isd \<and> walk_should_descend_directory ctx ?name (length ?name) (depth + 1)"
      obtain r s2 where op: "walk_open_subdir ctx fd ?name s1 = (r, s2)" by fastforce
      have r: "subdir_answer ctx (ws_root_device st) fd ?name = r" using open_subdir_answer [of ctx fd ?name s1] op dev by simp
      note m2 = open_subdir_moved [OF op]
      have entry: "walk_entry ctx fd (length path) depth e st =
        (if ?down then (case r of
             Inl err \<Rightarrow> Entry_done (walk_record_error ?child err s2)
           | Inr sfd \<Rightarrow> Entry_enter sfd (length ?child) (depth + 1) s2)
         else Entry_done s1)"
        unfolding walk_entry_def Let_def if_not_P [OF visible] ap option.case prod.case cs em isd depth op
        by (simp split: sum.splits)
      show ?thesis
      proof (cases ?down)
        case down: True
        show ?thesis
        proof (cases r)
          case (Inl err)
          then have "evs = candidate_events ctx ?c @ [Failed ?child err]" "sub = None"
            using v visible room down r isd unfolding entry_visit_def Let_def by auto
          moreover have "moved ctx st (candidate_events ctx ?c @ [Failed ?child err]) (walk_record_error ?child err s2)"
            using moved_trans [OF _ moved_error] m2(1) mv' by blast
          ultimately show ?thesis using entry down Inl suffix m2(2)
            by (auto intro!: exI [of _ "walk_record_error ?child err s2"])
        next
          case (Inr sfd)
          then have "evs = candidate_events ctx ?c" "sub = Some (sfd, ?child, depth + 1)"
            using v visible room down r isd unfolding entry_visit_def Let_def by auto
          then show ?thesis using entry down Inr mv' hb m2 b1 by (auto intro!: exI [of _ s2])
        qed
      next
        case False
        then have "evs = candidate_events ctx ?c" "sub = None"
          using v visible room False isd unfolding entry_visit_def Let_def by auto
        then show ?thesis using entry False mv' suffix by auto
      qed
    qed
  qed
qed

subsection \<open>A directory\<close>

text \<open>The specification of the entries that remain.\<close>

definition spec_entries ::
  "(fd \<Rightarrow> string \<Rightarrow> nat \<Rightarrow> event list) \<Rightarrow> 'w walk_context \<Rightarrow> u64 option \<Rightarrow> fd \<Rightarrow> string \<Rightarrow> nat \<Rightarrow> dirent list \<Rightarrow> event list" where
  "spec_entries below ctx dev fd path depth es =
     concat (map (\<lambda>e. case entry_visit ctx dev fd path depth e of
         (evs, None) \<Rightarrow> evs
       | (evs, Some (sub, child, d)) \<Rightarrow> evs @ below sub child d) es) @
     (case sys_read_error (wc_os ctx) fd of None \<Rightarrow> [] | Some e \<Rightarrow> [Failed path e])"

lemma spec_directory_Suc:
  "spec_directory (Suc n) ctx dev fd path depth =
    (if sys_reader_create (wc_os ctx) fd
     then spec_entries (spec_directory n ctx dev) ctx dev fd path depth (sys_entries (wc_os ctx) fd)
     else [Failed path ENOMEM])"
  by (simp add: spec_entries_def)

lemma loop_refines:
  assumes q: "quiet ctx"
    and sub: "\<And>sub child d s. holds_path (ws_buffer s) child \<Longrightarrow> \<not> ws_stop_requested s \<Longrightarrow> ws_root_device s = dev \<Longrightarrow>
      length path < length child \<Longrightarrow>
      \<exists>ok s'. process sub (length child) d s = Some (ok, s') \<and> moved ctx s (below sub child d) s' \<and>
        holds_path (ws_buffer s') child"
  shows "\<forall>e \<in> set es. no_nul (de_name e) \<and> de_name e \<noteq> [] \<Longrightarrow> holds_path (ws_buffer st) path \<Longrightarrow>
    \<not> ws_stop_requested st \<Longrightarrow> ws_root_device st = dev \<Longrightarrow>
    \<exists>st'. walk_loop process ctx fd (length path) depth es st = Some (sys_read_error (wc_os ctx) fd = None, st') \<and>
      moved ctx st (spec_entries below ctx dev fd path depth es) st' \<and> holds_path (ws_buffer st') path"
proof (induction es arbitrary: st)
  case Nil
  obtain s1 where s: "walk_should_stop ctx st = (False, s1)" "moved ctx st [] s1" "ws_buffer s1 = ws_buffer st"
    using poll_quiet [OF q Nil.prems(3)] by blast
  have c: "cstr (ws_buffer st) = path" using Nil.prems(2) holds_path_cstr by simp
  show ?case
    using s Nil.prems(2) moved_trans [OF s(2) moved_error, of path]
    by (cases "sys_read_error (wc_os ctx) fd") (auto simp: spec_entries_def c)
next
  case (Cons e es)
  obtain s1 where s: "walk_should_stop ctx st = (False, s1)" and m0: "moved ctx st [] s1" and b1: "ws_buffer s1 = ws_buffer st"
    and d1: "ws_root_device s1 = dev" and r1: "\<not> ws_stop_requested s1"
    using poll_quiet [OF q Cons.prems(3)] Cons.prems(4) by metis
  have h1: "holds_path (ws_buffer s1) path" using b1 Cons.prems(2) by simp
  obtain evs sub where v: "entry_visit ctx dev fd path depth e = (evs, sub)" by fastforce
  have e: "no_nul (de_name e)" using Cons.prems(1) by simp
  obtain s2 where m: "moved ctx s1 evs s2" and out: "case sub of
      None \<Rightarrow> (walk_entry ctx fd (length path) depth e s1 = Entry_skipped s2 \<and> holds_path (ws_buffer s2) path) \<or>
              (walk_entry ctx fd (length path) depth e s1 = Entry_done s2 \<and> (\<exists>s. holds_path (ws_buffer s2) (path @ s)))
    | Some (subfd, child, d) \<Rightarrow> walk_entry ctx fd (length path) depth e s1 = Entry_enter subfd (length child) d s2 \<and>
              holds_path (ws_buffer s2) child \<and> child = child_path path (de_name e)"
    using entry_refines [OF q h1 r1 e, unfolded d1, OF v] by blast
  have r2: "\<not> ws_stop_requested s2" "ws_root_device s2 = dev" using m r1 d1 by (simp_all add: moved_def)
  have rest: "\<exists>st'. walk_loop process ctx fd (length path) depth es s = Some (sys_read_error (wc_os ctx) fd = None, st') \<and>
      moved ctx st (evs' @ spec_entries below ctx dev fd path depth es) st' \<and> holds_path (ws_buffer st') path"
    if ms: "moved ctx s1 evs' s" and hs: "holds_path (ws_buffer s) path" for evs' s
  proof -
    have "\<not> ws_stop_requested s" "ws_root_device s = dev" using ms r1 d1 by (simp_all add: moved_def)
    then obtain st' where "walk_loop process ctx fd (length path) depth es s = Some (sys_read_error (wc_os ctx) fd = None, st')"
      "moved ctx s (spec_entries below ctx dev fd path depth es) st'" "holds_path (ws_buffer st') path"
      using Cons.IH [of s] Cons.prems(1) hs by auto
    then show ?thesis using moved_trans [OF moved_trans [OF m0 ms]] by auto
  qed
  show ?case
  proof (cases sub)
    case None
    have spec: "spec_entries below ctx dev fd path depth (e # es) = evs @ spec_entries below ctx dev fd path depth es"
      using v None by (simp add: spec_entries_def)
    have "holds_path (ws_buffer (walk_truncate (length path) s2)) path" if "holds_path (ws_buffer s2) (path @ s)" for s
      using truncate_holds [OF that] by (simp add: walk_truncate_def)
    then show ?thesis
      using out None s spec rest [OF m] rest [of evs "walk_truncate (length path) s2"] m by auto
  next
    case (Some trip)
    then obtain subfd child d where t: "sub = Some (subfd, child, d)" by (cases trip) auto
    then have en: "walk_entry ctx fd (length path) depth e s1 = Entry_enter subfd (length child) d s2"
      and hc: "holds_path (ws_buffer s2) child" and ch: "child = child_path path (de_name e)" using out by auto
    have "length path < length child" using Cons.prems(1) by (cases "de_name e") (auto simp: ch child_path_def)
    then obtain ok s3 where p: "process subfd (length child) d s2 = Some (ok, s3)"
      and m3: "moved ctx s2 (below subfd child d) s3" and h3: "holds_path (ws_buffer s3) child"
      using sub [OF hc r2] by blast
    have spec: "spec_entries below ctx dev fd path depth (e # es) =
        (evs @ below subfd child d) @ spec_entries below ctx dev fd path depth es"
      using v t by (simp add: spec_entries_def)
    have r3: "\<not> ws_stop_requested (close_fd subfd s3)" using m3 r2 by (simp add: moved_def close_fd_def)
    obtain s4 where s4: "walk_should_stop ctx (close_fd subfd s3) = (False, s4)" "moved ctx (close_fd subfd s3) [] s4"
      "ws_buffer s4 = ws_buffer (close_fd subfd s3)"
      using poll_quiet [OF q r3] by blast
    obtain x where x: "child = path @ x" using ch child_path_split by blast
    have h5: "holds_path (ws_buffer (walk_truncate (length path) (close_fd subfd s3))) path"
      "holds_path (ws_buffer (walk_truncate (length path) s4)) path"
      using truncate_holds [of _ path x] h3 s4(3) by (simp_all add: walk_truncate_def close_fd_def x)
    have m5: "moved ctx s1 (evs @ below subfd child d) (close_fd subfd s3)" using moved_trans [OF m m3] by simp
    then have m6: "moved ctx s1 (evs @ below subfd child d) s4" using moved_trans [OF m5 s4(2)] by simp
    have m7: "moved ctx s1 (evs @ below subfd child d) (walk_truncate (length path) (close_fd subfd s3))"
      "moved ctx s1 (evs @ below subfd child d) (walk_truncate (length path) s4)"
      using m5 m6 by simp_all
    show ?thesis
      unfolding spec using s en p s4(1) rest [OF m7(1) h5(1)] rest [OF m7(2) h5(2)]
      by (cases ok) (simp_all add: Let_def)
  qed
qed

lemma iterate_refines:
  assumes q: "quiet ctx"
  shows "holds_path (ws_buffer st) path \<Longrightarrow> \<not> ws_stop_requested st \<Longrightarrow> ws_root_device st = dev \<Longrightarrow>
    PATH_CAPACITY \<le> length path + n \<Longrightarrow>
    \<exists>st'. walk_iterate_entries n ctx fd (length path) depth st = Some (directory_readable ctx fd, st') \<and>
      moved ctx st (spec_directory n ctx dev fd path depth) st' \<and> holds_path (ws_buffer st') path"
proof (induction n arbitrary: fd path depth st)
  case 0
  then show ?case using holds_path_length by fastforce
next
  case (Suc n)
  show ?case
  proof (cases "sys_reader_create (wc_os ctx) fd")
    case True
    have names: "\<forall>e \<in> set (sys_entries (wc_os ctx) fd). no_nul (de_name e) \<and> de_name e \<noteq> []"
      using q by (auto simp: quiet_def readdir_ok_def)
    have sub: "\<exists>ok s'. walk_iterate_entries n ctx sub (length child) d s = Some (ok, s') \<and>
        moved ctx s (spec_directory n ctx dev sub child d) s' \<and> holds_path (ws_buffer s') child"
      if "holds_path (ws_buffer s) child" "\<not> ws_stop_requested s" "ws_root_device s = dev" "length path < length child"
      for sub child d s
    proof -
      have "PATH_CAPACITY \<le> length child + n" using Suc.prems(4) that(4) by simp
      from Suc.IH [OF that(1,2,3) this] show ?thesis by blast
    qed
    have "\<exists>st'. walk_loop (walk_iterate_entries n ctx) ctx fd (length path) depth (sys_entries (wc_os ctx) fd) st =
          Some (sys_read_error (wc_os ctx) fd = None, st') \<and>
        moved ctx st (spec_entries (spec_directory n ctx dev) ctx dev fd path depth (sys_entries (wc_os ctx) fd)) st' \<and>
        holds_path (ws_buffer st') path"
      by (rule loop_refines [OF q sub names Suc.prems(1,2,3)])
    then show ?thesis
      unfolding spec_directory_Suc directory_readable_def using True by simp
  next
    case False
    then show ?thesis
      using moved_error Suc.prems(1) holds_path_cstr [OF Suc.prems(1)]
      by (auto simp: directory_readable_def)
  qed
qed

subsection \<open>A root and the list of roots\<close>

lemma root_basename_offset_drop:
  assumes "core_ok C" "holds_path buffer root"
  shows "cstr (drop (root_basename_offset C buffer (length root)) buffer) = root_basename root"
    and "length root - root_basename_offset C buffer (length root) = length (root_basename root)"
proof -
  have "length root \<le> length buffer" "take (length root) buffer = root"
    using assms(2) by (auto simp: holds_path_def)
  then have f: "core_find_last_byte C buffer (length root) slash = last_index slash root"
    using core_find_last_byteI [OF assms(1)] by simp
  obtain rest where b: "buffer = root @ NUL # rest" and n: "no_nul root" using assms(2) by (auto simp: holds_path_def)
  have drop_cstr: "cstr (drop i buffer) = drop i root" if "i \<le> length root" for i
  proof -
    have "no_nul (drop i root)" using n by (auto simp: no_nul_def dest: in_set_dropD)
    then show ?thesis using that b by (simp add: cstr_prefix)
  qed
  show "cstr (drop (root_basename_offset C buffer (length root)) buffer) = root_basename root"
  proof (cases "last_index slash root")
    case None
    then show ?thesis using drop_cstr [of 0]
      by (simp add: root_basename_offset_def f root_basename_def del: last_index_None)
  next
    case (Some i)
    then have "Suc i \<le> length root" using last_index_Some [of slash root i] by simp
    then show ?thesis using drop_cstr [of "Suc i"] Some by (simp add: root_basename_offset_def f root_basename_def)
  qed
  show "length root - root_basename_offset C buffer (length root) = length (root_basename root)"
    by (cases "last_index slash root") (simp_all add: root_basename_offset_def f root_basename_def del: last_index_None)
qed

text \<open>Between roots only the size of the buffer matters; the device may have been resolved.\<close>

definition ready :: "'w walk_state \<Rightarrow> u64 option \<Rightarrow> bool" where
  "ready st dev \<longleftrightarrow> length (ws_buffer st) = PATH_CAPACITY \<and> \<not> ws_stop_requested st \<and> ws_root_device st = dev"

text \<open>The device aside, the state has moved by these events.\<close>

definition advanced :: "'w walk_context \<Rightarrow> 'w walk_state \<Rightarrow> event list \<Rightarrow> 'w walk_state \<Rightarrow> bool" where
  "advanced ctx st evs st' \<longleftrightarrow> moved ctx st evs (st'\<lparr>ws_root_device := ws_root_device st\<rparr>)"

lemma advanced_trans: "advanced ctx st evs st1 \<Longrightarrow> advanced ctx st1 evs' st2 \<Longrightarrow> advanced ctx st (evs @ evs') st2"
  by (simp add: advanced_def moved_def accepted_def)

lemma moved_advanced: "moved ctx st evs st' \<Longrightarrow> advanced ctx st evs st'"
  by (simp add: advanced_def moved_def accepted_def)

lemma resolve_advanced:
  "advanced ctx (resolve_root_device ctx s st) evs st' \<Longrightarrow> advanced ctx st evs st'"
  by (simp add: advanced_def moved_def accepted_def resolve_root_device_def split: if_splits)

lemma holds_path_size: "holds_path b p \<Longrightarrow> length b = PATH_CAPACITY"
  by (simp add: holds_path_def)

lemma root_directory_refines:
  fixes st :: "'w walk_state"
  assumes q: "quiet ctx" and h: "holds_path (ws_buffer st) root" and r: "\<not> ws_stop_requested st"
    and c: "cand_path c = root" "cand_path_length c = length root"
    and spec: "spec_root_tree ctx (ws_root_device st) root c = (evs, ok)"
  shows "\<exists>st'. walk_root_directory ctx root (length root) c st = Some (ok, st') \<and>
    moved ctx st evs st' \<and> length (ws_buffer st') = PATH_CAPACITY"
proof -
  obtain s1 where em: "walk_emit_if_match ctx c st = (True, snd (filter_evaluate (wc_os ctx) (wc_predicate ctx) c), s1)"
    and m: "moved ctx st (candidate_events ctx c) s1" and b: "ws_buffer s1 = ws_buffer st"
    using emit_if_match_moved [OF q, of c st] c by auto
  have size: "length (ws_buffer s1) = PATH_CAPACITY" using holds_path_size [OF h] b by simp
  show ?thesis
  proof (cases "cand_entry_type c \<noteq> ENTRY_TYPE_DIRECTORY \<or> pred_has_max_depth (wc_predicate ctx) \<and> pred_max_depth (wc_predicate ctx) = 0")
    case True
    then show ?thesis using em m size c spec by (auto simp: spec_root_tree_def walk_root_directory_def Let_def)
  next
    case dir: False
    show ?thesis
    proof (cases "sys_openat (wc_os ctx) AT_FDCWD root (\<not> wc_follow_symlinks ctx)")
      case (Inl e)
      then show ?thesis using em dir c size spec moved_trans [OF m moved_error]
        by (auto simp: spec_root_tree_def walk_root_directory_def Let_def)
    next
      case (Inr fd)
      have pre: "holds_path (ws_buffer (open_fd fd s1)) root" "\<not> ws_stop_requested (open_fd fd s1)"
        "ws_root_device (open_fd fd s1) = ws_root_device st" "PATH_CAPACITY \<le> length root + PATH_CAPACITY"
        using h b m r by (simp_all add: open_fd_def moved_def)
      obtain s2 where w: "walk_process_directory ctx fd (length root) 0 (open_fd fd s1) = Some (directory_readable ctx fd, s2)"
        and m2: "moved ctx (open_fd fd s1) (spec_directory PATH_CAPACITY ctx (ws_root_device st) fd root 0) s2"
        and h2: "holds_path (ws_buffer s2) root"
        using iterate_refines [OF q pre] unfolding walk_process_directory_def by blast
      have "moved ctx st (candidate_events ctx c @ spec_directory PATH_CAPACITY ctx (ws_root_device st) fd root 0) (close_fd fd s2)"
        using moved_trans [OF m] m2 by simp
      moreover have "length (ws_buffer (close_fd fd s2)) = PATH_CAPACITY"
        using holds_path_size [OF h2] by (simp add: close_fd_def)
      ultimately show ?thesis using em dir c Inr w spec by (auto simp: spec_root_tree_def walk_root_directory_def Let_def)
    qed
  qed
qed

lemma visit_root_refines:
  assumes q: "quiet ctx" and n: "no_nul root" and r: "ready st dev"
    and spec: "spec_root ctx dev root = (evs, ok, dev')"
  shows "\<exists>st'. walk_visit_root ctx root st = Some (ok, st') \<and> advanced ctx st evs st' \<and> ready st' dev'"
proof (cases "sys_fstatat (wc_os ctx) AT_FDCWD root (wc_follow_symlinks ctx)")
  case (Inl e)
  then show ?thesis using spec r moved_advanced [OF moved_error]
    by (auto simp: walk_visit_root_def spec_root_def ready_def walk_record_error_def)
next
  case (Inr s)
  let ?dev = "if wc_one_file_system ctx \<and> dev = None then Some (st_dev s) else dev"
  let ?s0 = "resolve_root_device ctx s st"
  have dev0: "ws_root_device ?s0 = ?dev" "\<not> ws_stop_requested ?s0" "length (ws_buffer ?s0) = PATH_CAPACITY"
    using r by (auto simp: resolve_root_device_def ready_def)
  have len: "core_length (wc_core ctx) root NUL = Some (length root)"
    using q n core_lengthI by (simp add: quiet_def)
  show ?thesis
  proof (cases "PATH_CAPACITY \<le> length root")
    case True
    then have evs: "evs = [Failed root ENAMETOOLONG]" "\<not> ok" "dev' = ?dev"
      using spec Inr by (auto simp: spec_root_def Let_def)
    have "walk_visit_root ctx root st = Some (False, walk_record_error root ENAMETOOLONG ?s0)"
      using Inr len True by (simp add: walk_visit_root_def Let_def)
    moreover have "advanced ctx st evs (walk_record_error root ENAMETOOLONG ?s0)"
      unfolding evs(1) by (rule resolve_advanced [OF moved_advanced [OF moved_error]])
    moreover have "ready (walk_record_error root ENAMETOOLONG ?s0) dev'"
      using dev0 evs(3) by (simp add: ready_def walk_record_error_def)
    ultimately show ?thesis using evs(2) by auto
  next
    case False
    let ?buf = "(copy_at (ws_buffer ?s0) 0 root)[length root := NUL]"
    have hb: "holds_path ?buf root"
      using holds_path_write [of "ws_buffer ?s0" 0 "[]" root] dev0(3) n False by simp
    define c where "c = root_candidate root (length root) (root_basename root) (length (root_basename root)) s"
    have cf: "cand_path c = root" "cand_path_length c = length root"
      by (simp_all add: c_def root_candidate_def Let_def)
    let ?s1 = "?s0\<lparr>ws_buffer := ?buf\<rparr>"
    have visit: "walk_visit_root ctx root st = walk_root_directory ctx root (length root) c ?s1"
      using Inr len False root_basename_offset_drop [OF _ hb, of "wc_core ctx"] holds_path_cstr [OF hb] q
      by (simp add: walk_visit_root_def Let_def c_def quiet_def)
    have tree: "spec_root_tree ctx (ws_root_device ?s1) root c = (evs, ok)" and d: "dev' = ?dev"
      using spec Inr False dev0(1) unfolding spec_root_def Let_def c_def by (auto split: prod.splits)
    obtain st' where w: "walk_visit_root ctx root st = Some (ok, st')"
      and m: "moved ctx ?s0 evs st'" and size: "length (ws_buffer st') = PATH_CAPACITY"
      using root_directory_refines [OF q _ _ cf(1,2) tree] hb dev0(2) unfolding visit by auto
    have "advanced ctx st evs st'" by (rule resolve_advanced [OF moved_advanced [OF m]])
    moreover have "ready st' dev'" using m size dev0 d by (simp add: ready_def moved_def)
    ultimately show ?thesis using w by blast
  qed
qed

lemma roots_refine:
  assumes q: "quiet ctx"
  shows "\<forall>root \<in> set roots. no_nul root \<Longrightarrow> ready st dev \<Longrightarrow> spec_roots ctx dev roots = (evs, ok) \<Longrightarrow>
    \<exists>st'. walk_roots ctx roots any_ok st = Some (any_ok \<and> ok, st') \<and> advanced ctx st evs st'"
proof (induction roots arbitrary: any_ok st dev evs ok)
  case Nil
  then show ?case by (simp add: moved_advanced [OF moved_refl])
next
  case (Cons root roots)
  obtain s1 where s: "walk_should_stop ctx st = (False, s1)" and m: "moved ctx st [] s1"
    and rest: "ws_buffer s1 = ws_buffer st" "ws_root_device s1 = ws_root_device st" "\<not> ws_stop_requested s1"
    using poll_quiet [OF q] Cons.prems(2) unfolding ready_def by metis
  have r1: "ready s1 dev" using Cons.prems(2) rest by (simp add: ready_def)
  obtain e1 ok1 dev1 e2 ok2 where sp: "spec_root ctx dev root = (e1, ok1, dev1)" "spec_roots ctx dev1 roots = (e2, ok2)"
    and all: "evs = e1 @ e2" "ok = (ok1 \<and> ok2)"
    using Cons.prems(3) by (auto split: prod.splits)
  obtain s2 where v: "walk_visit_root ctx root s1 = Some (ok1, s2)" "advanced ctx s1 e1 s2" "ready s2 dev1"
    using visit_root_refines [OF q _ r1 sp(1)] Cons.prems(1) by auto
  obtain s3 where w: "walk_roots ctx roots (if ok1 then any_ok else False) s2 = Some ((if ok1 then any_ok else False) \<and> ok2, s3)"
    "advanced ctx s2 e2 s3"
    using Cons.IH [OF _ v(3) sp(2)] Cons.prems(1) by auto
  have "advanced ctx st evs s3"
    using advanced_trans [OF advanced_trans [OF moved_advanced [OF m] v(2)] w(2)] by (simp add: all)
  then show ?case using s v(1) w(1) all by auto
qed

end
