(* ===== verification/Seek_Walk_Reach.thy ===== *)
theory Seek_Walk_Reach
  imports Seek_Walk_Spec
begin

text \<open>
  What the sequential walk finds, stated without its recursion: \<open>enters\<close> is the step from a
  directory to one the walk looks into behind an entry, and a path is emitted exactly when a
  directory reachable by such steps lists it as an accepted entry. From this follow the bounds:
  every emitted path runs through names that are neither pruned nor hidden, within the depths
  asked for.
\<close>

section \<open>Directories entered\<close>

type_synonym place = "fd \<times> string \<times> nat"

inductive enters :: "'w walk_context \<Rightarrow> u64 option \<Rightarrow> place \<Rightarrow> place \<Rightarrow> bool"
  for ctx :: "'w walk_context" and dev :: "u64 option" where
  enter: "sys_reader_create (wc_os ctx) fd \<Longrightarrow> e \<in> set (sys_entries (wc_os ctx) fd) \<Longrightarrow>
    snd (entry_visit ctx dev fd path depth e) = Some place \<Longrightarrow> enters ctx dev (fd, path, depth) place"

inductive_cases entersE: "enters ctx dev (fd, path, depth) place"

inductive_simps enters_iff: "enters ctx dev (fd, path, depth) place"

definition listed :: "'w walk_context \<Rightarrow> u64 option \<Rightarrow> place \<Rightarrow> string \<Rightarrow> bool" where
  "listed ctx dev place p \<longleftrightarrow> (case place of (fd, path, depth) \<Rightarrow>
     sys_reader_create (wc_os ctx) fd \<and>
     (\<exists>e \<in> set (sys_entries (wc_os ctx) fd). Found p \<in> set (fst (entry_visit ctx dev fd path depth e))))"

lemma in_found: "p \<in> set (found evs) \<longleftrightarrow> Found p \<in> set evs"
  by (induction evs rule: found.induct) auto

lemma candidate_events_iff:
  "Found p \<in> set (candidate_events ctx c) \<longleftrightarrow>
     p = cand_path c \<and> fst (filter_evaluate (wc_os ctx) (wc_predicate ctx) c) = DECISION_ACCEPT"
  by (auto simp: candidate_events_def)

text \<open>A directory entered has a longer path, one level deeper, and its name passed the tests.\<close>

lemma entry_visit_enters:
  assumes "snd (entry_visit ctx dev fd path depth e) = Some (sub, child, d)"
  shows "child = child_path path (de_name e) \<and> d = depth + 1 \<and> length child < PATH_CAPACITY \<and>
    walk_should_descend_directory ctx (de_name e) (length (de_name e)) d"
  using assms by (auto simp: entry_visit_def Let_def split: if_splits sum.splits)

lemma entry_visit_found:
  assumes "Found p \<in> set (fst (entry_visit ctx dev fd path depth e))"
  shows "p = child_path path (de_name e) \<and>
    (pred_include_hidden (wc_predicate ctx) \<or> \<not> walk_is_hidden_name (de_name e)) \<and>
    fst (filter_evaluate (wc_os ctx) (wc_predicate ctx)
      (entry_candidate ctx p (length p) (de_name e) (length (de_name e)) (de_d_type e) fd depth)) = DECISION_ACCEPT"
proof -
  let ?child = "child_path path (de_name e)"
  let ?c = "entry_candidate ctx ?child (length ?child) (de_name e) (length (de_name e)) (de_d_type e) fd depth"
  have "Found p \<in> set (candidate_events ctx ?c)"
    "pred_include_hidden (wc_predicate ctx) \<or> \<not> walk_is_hidden_name (de_name e)"
    using assms by (auto simp: entry_visit_def Let_def split: if_splits sum.splits)
  moreover have "cand_path ?c = ?child" by (simp add: entry_candidate_def split: prod.splits)
  ultimately show ?thesis by (simp add: candidate_events_iff)
qed

lemma child_path_longer: "name \<noteq> [] \<Longrightarrow> length path < length (child_path path name)"
  by (cases name) (simp_all add: child_path_def)

section \<open>The events are those of the directories reached\<close>

lemma spec_directory_found_Suc:
  "Found p \<in> set (spec_directory (Suc n) ctx dev fd path depth) \<longleftrightarrow>
    listed ctx dev (fd, path, depth) p \<or>
    (\<exists>sub child d. enters ctx dev (fd, path, depth) (sub, child, d) \<and>
       Found p \<in> set (spec_directory n ctx dev sub child d))"
proof -
  define each where "each e = (case entry_visit ctx dev fd path depth e of (evs, None) \<Rightarrow> evs
      | (evs, Some (sub, child, d)) \<Rightarrow> evs @ spec_directory n ctx dev sub child d)" for e
  have one: "Found p \<in> set (each e) \<longleftrightarrow>
    Found p \<in> set (fst (entry_visit ctx dev fd path depth e)) \<or>
    (\<exists>sub child d. snd (entry_visit ctx dev fd path depth e) = Some (sub, child, d) \<and>
       Found p \<in> set (spec_directory n ctx dev sub child d))" for e
    by (cases "entry_visit ctx dev fd path depth e") (auto simp: each_def split: option.splits)
  have tail: "Found p \<notin> set (case sys_read_error (wc_os ctx) fd of None \<Rightarrow> [] | Some e \<Rightarrow> [Failed path e])"
    by (simp split: option.splits)
  show ?thesis
    unfolding spec_directory.simps each_def [symmetric]
    by (cases "sys_reader_create (wc_os ctx) fd") (simp_all add: one tail listed_def enters_iff, blast)
qed

lemma spec_directory_sound:
  "Found p \<in> set (spec_directory n ctx dev fd path depth) \<Longrightarrow>
    \<exists>place. (enters ctx dev)\<^sup>*\<^sup>* (fd, path, depth) place \<and> listed ctx dev place p"
proof (induction n arbitrary: fd path depth)
  case 0
  then show ?case by simp
next
  case (Suc n)
  then consider "listed ctx dev (fd, path, depth) p"
    | sub child d where "enters ctx dev (fd, path, depth) (sub, child, d)"
      "Found p \<in> set (spec_directory n ctx dev sub child d)"
    unfolding spec_directory_found_Suc by blast
  then show ?case
  proof cases
    case 1
    then show ?thesis by blast
  next
    case 2
    from Suc.IH [OF 2(2)] show ?thesis using 2(1) by (meson converse_rtranclp_into_rtranclp)
  qed
qed

lemma spec_directory_complete:
  assumes "readdir_ok (wc_os ctx)" "(enters ctx dev)\<^sup>*\<^sup>* start place" "listed ctx dev place p"
  shows "length (fst (snd start)) < PATH_CAPACITY \<Longrightarrow> PATH_CAPACITY \<le> length (fst (snd start)) + n \<Longrightarrow>
    Found p \<in> set (spec_directory n ctx dev (fst start) (fst (snd start)) (snd (snd start)))"
  using assms(2)
proof (induction arbitrary: n rule: converse_rtranclp_induct)
  case base
  then obtain m where m: "n = Suc m" by (cases n) auto
  show ?case unfolding m spec_directory_found_Suc using assms(3) by simp
next
  case (step start mid)
  obtain fd path depth where s: "start = (fd, path, depth)" by (cases start) auto
  obtain sub child d where t: "mid = (sub, child, d)" by (cases mid) auto
  obtain m where m: "n = Suc m" using step.prems by (cases n) auto
  obtain e where e: "e \<in> set (sys_entries (wc_os ctx) fd)" "snd (entry_visit ctx dev fd path depth e) = Some (sub, child, d)"
    using step.hyps(1) unfolding s t by (auto elim: entersE)
  have "de_name e \<noteq> []" using assms(1) e(1) by (auto simp: readdir_ok_def)
  then have "length path < length child" "length child < PATH_CAPACITY"
    using entry_visit_enters [OF e(2)] child_path_longer by auto
  then have "Found p \<in> set (spec_directory m ctx dev sub child d)"
    using step.IH [of m] step.prems(2) unfolding s t m by simp
  then show ?case
    using step.hyps(1) unfolding s t m fst_conv snd_conv spec_directory_found_Suc by blast
qed

section \<open>The bounds\<close>

definition name_passes :: "'w walk_context \<Rightarrow> string \<Rightarrow> bool" where
  "name_passes ctx name \<longleftrightarrow>
     (pred_respect_ignore_defaults (wc_predicate ctx) \<longrightarrow> name \<notin> set ignored_directory_names) \<and>
     (\<not> pred_include_hidden (wc_predicate ctx) \<longrightarrow> \<not> walk_is_hidden_name name)"

lemma should_descend_passes:
  assumes "core_ok (wc_core ctx)" "walk_should_descend_directory ctx name (length name) d"
  shows "name_passes ctx name"
  using assms ignored_directory_name_iff [OF assms(1), of "length name" name]
  by (auto simp: walk_should_descend_directory_def name_passes_def split: if_splits)

text \<open>A name as a directory has them. The names between a directory and a path below it are then
  determined by the two: a pruned directory cannot hide inside a longer name.\<close>

definition entry_name :: "string \<Rightarrow> bool" where
  "entry_name name \<longleftrightarrow> name \<noteq> [] \<and> no_nul name \<and> slash \<notin> set name"

lemma readdir_entry_name: "readdir_ok os \<Longrightarrow> e \<in> set (sys_entries os fd) \<Longrightarrow> entry_name (de_name e)"
  by (simp add: readdir_ok_def entry_name_def)

lemma foldl_child_path_longer: "length path \<le> length (foldl child_path path names)"
  by (induction names rule: rev_induct) (simp_all add: child_path_def)

text \<open>A path with the separator that joins it to a name.\<close>

definition stem :: "string \<Rightarrow> string" where
  "stem path = (if path \<noteq> [] \<and> last path \<noteq> slash then path @ [slash] else path)"

lemma child_path_stem: "child_path path name = stem path @ name"
  by (simp add: child_path_def stem_def)

lemma foldl_child_path_snoc: "foldl child_path path (us @ [u]) = stem (foldl child_path path us) @ u"
  using child_path_stem [of "foldl child_path path us" u] by simp

lemma stem_ends: "stem path = [] \<or> last (stem path) = slash"
  by (simp add: stem_def)

lemma slash_free_suffix:
  assumes "p @ x = q @ y" "slash \<notin> set x" "slash \<notin> set y" "p = [] \<or> last p = slash" "q = [] \<or> last q = slash"
  shows "p = q"
proof -
  obtain us where "p = q @ us \<and> us @ x = y \<or> p @ us = q \<and> x = us @ y"
    using assms(1) by (auto simp: append_eq_append_conv2)
  then show ?thesis using assms(2-) by (cases us rule: rev_cases) auto
qed

lemma entry_name_last: "entry_name name \<Longrightarrow> last (stem path @ name) \<noteq> slash"
  using last_in_set [of name] by (metis entry_name_def last_appendR)

text \<open>The stem of a path below another is the path with a slash, so stems tell paths apart.\<close>

lemma stem_inject:
  assumes "stem (foldl child_path path xs) = stem (foldl child_path path ys)"
    and "\<forall>nm \<in> set xs. entry_name nm" "\<forall>nm \<in> set ys. entry_name nm"
  shows "foldl child_path path xs = foldl child_path path ys"
proof -
  have apart: "foldl child_path path us @ [slash] \<noteq> foldl child_path path vs"
    if "\<forall>nm \<in> set vs. entry_name nm" for us vs
  proof (cases vs rule: rev_cases)
    case Nil
    then show ?thesis using foldl_child_path_longer [of path us] by (metis foldl_Nil length_append_singleton not_less_eq_eq order_refl)
  next
    case (snoc ws w)
    then have "last (foldl child_path path vs) \<noteq> slash"
      using that entry_name_last [of w] by (simp add: child_path_stem)
    then show ?thesis by (metis last_snoc)
  qed
  show ?thesis
    using assms(1) apart [OF assms(2), of ys] apart [OF assms(3), of xs]
    unfolding stem_def by (metis append_same_eq)
qed

lemma below_longer: "entry_name u \<Longrightarrow> length path < length (foldl child_path path (us @ [u]))"
  using child_path_longer [of u "foldl child_path path us"] foldl_child_path_longer [of path us]
  by (simp add: entry_name_def)

lemma names_determined:
  assumes "foldl child_path path names = foldl child_path path names'"
    and "\<forall>nm \<in> set names. entry_name nm" "\<forall>nm \<in> set names'. entry_name nm"
  shows "names = names'"
  using assms
proof (induction names arbitrary: names' rule: rev_induct)
  case Nil
  show ?case
  proof (cases names' rule: rev_cases)
    case (snoc us u)
    then show ?thesis using below_longer [of u path us] Nil by simp
  qed simp
next
  case (snoc name names)
  have n: "entry_name name" "\<forall>nm \<in> set names. entry_name nm" using snoc.prems by simp_all
  show ?case
  proof (cases names' rule: rev_cases)
    case Nil
    then show ?thesis using snoc.prems(1) below_longer [OF n(1), of path names] by simp
  next
    case names': (snoc rest name')
    have n': "entry_name name'" "\<forall>nm \<in> set rest. entry_name nm" using snoc.prems(3) names' by simp_all
    have eq: "stem (foldl child_path path names) @ name = stem (foldl child_path path rest) @ name'"
      using snoc.prems(1) unfolding names' foldl_child_path_snoc .
    have same: "stem (foldl child_path path names) = stem (foldl child_path path rest)"
      using n(1) n'(1) by (intro slash_free_suffix [OF eq _ _ stem_ends stem_ends]) (simp_all add: entry_name_def)
    have "names = rest" by (rule snoc.IH [OF stem_inject [OF same n(2) n'(2)] n(2) n'(2)])
    moreover have "name = name'" using eq same by simp
    ultimately show ?thesis using names' by simp
  qed
qed

text \<open>An invariant of the places reached, by induction along the steps.\<close>

lemma enters_invariant:
  assumes "readdir_ok (wc_os ctx)" "core_ok (wc_core ctx)" "(enters ctx dev)\<^sup>*\<^sup>* (fd, path, depth) place"
  shows "\<exists>names. fst (snd place) = foldl child_path path names \<and> snd (snd place) = depth + length names \<and>
    (\<forall>name \<in> set names. entry_name name \<and> name_passes ctx name)"
  using assms(3)
proof (induction rule: rtranclp_induct)
  case base
  then show ?case by (intro exI [of _ "[]"]) simp
next
  case (step mid place)
  obtain mfd mpath mdepth where m: "mid = (mfd, mpath, mdepth)" by (cases mid) auto
  obtain sub child d where t: "place = (sub, child, d)" by (cases place) auto
  from step.IH obtain names where n: "mpath = foldl child_path path names" "mdepth = depth + length names"
    "\<forall>name \<in> set names. entry_name name \<and> name_passes ctx name" unfolding m by auto
  from step.hyps(2) obtain e where e: "e \<in> set (sys_entries (wc_os ctx) mfd)" "snd (entry_visit ctx dev mfd mpath mdepth e) = Some (sub, child, d)"
    unfolding m t by (auto elim: entersE)
  note en = entry_visit_enters [OF e(2)]
  have "name_passes ctx (de_name e)" using should_descend_passes [OF assms(2)] en by blast
  moreover have "entry_name (de_name e)" by (rule readdir_entry_name [OF assms(1) e(1)])
  ultimately show ?case using en n unfolding t by (intro exI [of _ "names @ [de_name e]"]) auto
qed

lemma listed_bounds:
  assumes "readdir_ok (wc_os ctx)" "core_ok (wc_core ctx)" "(enters ctx dev)\<^sup>*\<^sup>* (fd, path, depth) place" "listed ctx dev place p"
  shows "\<exists>names name. p = foldl child_path path (names @ [name]) \<and> (\<forall>nm \<in> set (names @ [name]). entry_name nm) \<and>
    (\<forall>nm \<in> set names. name_passes ctx nm) \<and> (\<not> pred_include_hidden (wc_predicate ctx) \<longrightarrow> \<not> walk_is_hidden_name name) \<and>
    depth_ok (wc_predicate ctx) (depth + length names + 1)"
proof -
  obtain pfd ppath pdepth where pl: "place = (pfd, ppath, pdepth)" by (cases place) auto
  obtain names where n: "ppath = foldl child_path path names" "pdepth = depth + length names"
    "\<forall>name \<in> set names. entry_name name \<and> name_passes ctx name"
    using enters_invariant [OF assms(1-3)] unfolding pl by auto
  obtain e where e: "e \<in> set (sys_entries (wc_os ctx) pfd)" and "Found p \<in> set (fst (entry_visit ctx dev pfd ppath pdepth e))"
    using assms(4) unfolding listed_def pl by auto
  note f = entry_visit_found [OF this(2)]
  let ?c = "entry_candidate ctx p (length p) (de_name e) (length (de_name e)) (de_d_type e) pfd pdepth"
  have "cand_depth ?c = pdepth + 1" by (simp add: entry_candidate_def split: prod.splits)
  moreover have "depth_ok (wc_predicate ctx) (cand_depth ?c)"
    using f evaluate_shallow [of "wc_predicate ctx" ?c "wc_os ctx"] by (cases "depth_ok (wc_predicate ctx) (cand_depth ?c)") auto
  ultimately show ?thesis using f n readdir_entry_name [OF assms(1) e] by (intro exI [of _ names] exI [of _ "de_name e"]) auto
qed

section \<open>The demo tree\<close>

text \<open>The specification evaluated on the demo tree, for the closed instances.\<close>

lemma demo_context_sel [simp]:
  "wc_core demo_context = ref_core" "wc_os demo_context = demo_os" "wc_writer demo_context = list_writer"
  "wc_predicate demo_context = plain_predicate" "wc_signal_handler demo_context = None"
  "\<not> wc_follow_symlinks demo_context" "\<not> wc_one_file_system demo_context"
  by (simp_all add: demo_context_def)

lemma plain_candidate_events: "wc_predicate ctx = plain_predicate \<Longrightarrow> candidate_events ctx c = [Found (cand_path c)]"
  by (simp add: candidate_events_def plain_evaluate)

lemma demo_file:
  "de_d_type e = 8 \<Longrightarrow> de_name e \<noteq> [] \<Longrightarrow> entry_visit demo_context None fd path depth e =
    (if walk_is_hidden_name (de_name e) \<or> PATH_CAPACITY \<le> length (child_path path (de_name e)) then ([], None)
     else ([Found (child_path path (de_name e))], None))"
  by (simp add: entry_visit_def Let_def plain_evaluate plain_candidate_events entry_candidate_def
      walk_type_from_dtype_def DT_REG_def entry_is_directory_def plain_predicate_flags)


lemma demo_dir:
  "de_d_type e = 4 \<Longrightarrow> entry_visit demo_context None fd path depth e =
    (if walk_is_hidden_name (de_name e) \<or> PATH_CAPACITY \<le> length (child_path path (de_name e)) then ([], None)
     else if de_name e \<in> set ignored_directory_names then ([Found (child_path path (de_name e))], None)
     else case demo_open fd (de_name e) of
       Inl err \<Rightarrow> ([Found (child_path path (de_name e)), Failed (child_path path (de_name e)) err], None)
     | Inr sub \<Rightarrow> ([Found (child_path path (de_name e))], Some (sub, child_path path (de_name e), depth + 1)))"
  using ignored_directory_name_iff [OF ref_core_ok, of "length (de_name e)" "de_name e"]
  by (simp add: entry_visit_def Let_def plain_evaluate plain_candidate_events entry_candidate_def
      walk_type_from_dtype_def DT_REG_def DT_DIR_def entry_is_directory_def walk_should_descend_directory_def
      subdir_answer_def plain_predicate_flags demo_os_def split: sum.splits)

lemmas demo_entry_simps = demo_file demo_dir file_entry_def dir_entry_def walk_is_hidden_name_def char_at_def child_path_def
  PATH_CAPACITY_def ignored_directory_names_def demo_open_def


lemma demo_deep: "spec_directory (Suc n) demo_context None 5 ''./sub/deep'' 2 = [Found ''./sub/deep/gamma.c'']"
  by (simp add: demo_os_def demo_entries_def demo_entry_simps)

lemma demo_sub: "spec_directory (Suc (Suc n)) demo_context None 4 ''./sub'' 1 =
   [Found ''./sub/alpha.c'', Found ''./sub/beta.h'', Found ''./sub/deep'', Found ''./sub/deep/gamma.c'']"
  by (subst spec_directory.simps(2))
    (simp add: demo_os_def demo_entries_def demo_entry_simps demo_deep [unfolded numeral_2_eq_2] del: spec_directory.simps)

lemma demo_top: "spec_directory (Suc (Suc (Suc n))) demo_context None 3 ''.'' 0 =
   map Found [''./top.txt'', ''./sub'', ''./sub/alpha.c'', ''./sub/beta.h'', ''./sub/deep'', ''./sub/deep/gamma.c'']"
  by (subst spec_directory.simps(2))
    (simp add: demo_os_def demo_entries_def demo_entry_simps demo_sub [unfolded One_nat_def] del: spec_directory.simps)

lemma demo_walk: "spec_walk demo_context [] =
   (map Found [''.'', ''./top.txt'', ''./sub'', ''./sub/alpha.c'', ''./sub/beta.h'', ''./sub/deep'', ''./sub/deep/gamma.c''], True)"
proof -
  have cap: "spec_directory PATH_CAPACITY demo_context None 3 ''.'' 0 =
    map Found [''./top.txt'', ''./sub'', ''./sub/alpha.c'', ''./sub/beta.h'', ''./sub/deep'', ''./sub/deep/gamma.c'']"
    using demo_top [of 4093] by (simp add: PATH_CAPACITY_def del: spec_directory.simps)
  have len: "\<not> PATH_CAPACITY \<le> length ''.''" by (simp add: PATH_CAPACITY_def)
  show ?thesis
    by (simp add: spec_walk_def spec_root_def spec_root_tree_def AT_FDCWD_def demo_os_def demo_stat_def directory_def
      root_candidate_def type_of_mode_def S_ISREG_def S_ISDIR_def S_IFMT_def plain_candidate_events
      demo_open_def directory_readable_def plain_predicate_flags cap len [simplified]
      Let_def del: spec_directory.simps Suc_eq_numeral)
qed

lemma demo_quiet: "quiet demo_context"
  by (simp add: quiet_def list_writer_ok handler_says_stop_def demo_readdir_ok ref_core_ok
      wf_predicate_def needs_stat_def plain_predicate_def)

section \<open>Properties\<close>

text \<open>C3: with a writer that takes every write and no signal, the walk over any roots ends with
  exactly the bytes, the count, the errors and the result of the specification: the matches of
  each root in the order of the directory entries, each followed by the separator.\<close>

theorem walk_sequential_refines_spec:
  assumes "quiet ctx" "\<forall>root \<in> set roots. no_nul root" "spec_walk ctx roots = (evs, ok)"
  shows "\<exists>st'. walk_sequential ctx roots out errors = Some (ok, st') \<and>
    accepted ctx st' = wr_accepted (wc_writer ctx) (out_writer out) @ lines_of (out_separator out) (found evs) \<and>
    out_emitted_count (ws_output st') = out_emitted_count out + length (found evs) \<and>
    ws_errors st' = errors @ failures evs"
proof -
  let ?st = "walk_start out errors"
  have r: "ready ?st None" by (simp add: ready_def walk_start_def)
  have "\<exists>st'. walk_from ctx roots ?st = Some (ok, st') \<and> advanced ctx ?st evs st'"
  proof (cases "roots = []")
    case True
    then obtain dev where "spec_root ctx None ''.'' = (evs, ok, dev)"
      using assms(3) by (auto simp: spec_walk_def split: prod.splits)
    then show ?thesis
      using visit_root_refines [OF assms(1) _ r, of "''.''"] True by (auto simp: walk_from_def)
  next
    case False
    then show ?thesis
      using roots_refine [OF assms(1,2) r, of evs ok True] assms(3) by (simp add: walk_from_def spec_walk_def)
  qed
  then show ?thesis
    unfolding walk_sequential_def by (auto simp: advanced_def moved_def accepted_def walk_start_def)
qed

theorem walk_sequential_refines_spec_witness:
  "\<exists>st'. walk_sequential demo_context [] (stdout_output []) [] = Some (True, st') \<and>
     accepted demo_context st' = lines_of CHR ''\<newline>''
       [''.'', ''./top.txt'', ''./sub'', ''./sub/alpha.c'', ''./sub/beta.h'', ''./sub/deep'', ''./sub/deep/gamma.c''] \<and>
     ws_errors st' = []"
  using walk_sequential_refines_spec [OF demo_quiet _ demo_walk, of "stdout_output []" "[]"]
  by (auto simp: stdout_output_def list_writer_def)

text \<open>C4: what a directory emits is exactly what is found in the directories reachable from it: a
  path is printed if and only if some directory entered from it lists it as an accepted entry.\<close>

theorem directory_emits_exactly_reachable:
  assumes "quiet ctx" "holds_path (ws_buffer st) path" "\<not> ws_stop_requested st"
  shows "\<exists>ok st' ps. walk_process_directory ctx fd (length path) depth st = Some (ok, st') \<and>
    accepted ctx st' = accepted ctx st @ lines_of (out_separator (ws_output st)) ps \<and>
    (\<forall>p. p \<in> set ps \<longleftrightarrow>
       (\<exists>place. (enters ctx (ws_root_device st))\<^sup>*\<^sup>* (fd, path, depth) place \<and> listed ctx (ws_root_device st) place p))"
proof -
  let ?evs = "spec_directory PATH_CAPACITY ctx (ws_root_device st) fd path depth"
  obtain st' where w: "walk_process_directory ctx fd (length path) depth st = Some (directory_readable ctx fd, st')"
    and m: "moved ctx st ?evs st'"
    using iterate_refines [OF assms refl, of PATH_CAPACITY fd depth] unfolding walk_process_directory_def by auto
  have "readdir_ok (wc_os ctx)" using assms(1) by (simp add: quiet_def)
  from spec_directory_complete [OF this, of _ "(fd, path, depth)"] spec_directory_sound holds_path_length [OF assms(2)]
  have "p \<in> set (found ?evs) \<longleftrightarrow>
     (\<exists>place. (enters ctx (ws_root_device st))\<^sup>*\<^sup>* (fd, path, depth) place \<and> listed ctx (ws_root_device st) place p)" for p
    unfolding in_found by fastforce
  then show ?thesis using w m unfolding moved_def by blast
qed

definition demo_state :: "list_state walk_state" where
  "demo_state = (walk_start (stdout_output []) [])\<lparr>ws_buffer := CHR ''.'' # replicate 4095 NUL\<rparr>"

lemma demo_state_holds: "holds_path (ws_buffer demo_state) ''.''" "\<not> ws_stop_requested demo_state"
proof -
  have "replicate 4095 NUL = NUL # replicate 4094 NUL"
    using replicate_Suc [of 4094 NUL] by (simp del: replicate_Suc)
  then have "ws_buffer demo_state = ''.'' @ NUL # replicate 4094 NUL" by (simp add: demo_state_def)
  then show "holds_path (ws_buffer demo_state) ''.''"
    unfolding holds_path_def PATH_CAPACITY_def by auto
  show "\<not> ws_stop_requested demo_state" by (simp add: demo_state_def walk_start_def)
qed

theorem directory_emits_exactly_reachable_witness:
  "\<exists>ok st' ps. walk_process_directory demo_context 3 1 0 demo_state = Some (ok, st') \<and>
    accepted demo_context st' = accepted demo_context demo_state @ lines_of (out_separator (ws_output demo_state)) ps"
  using directory_emits_exactly_reachable [OF demo_quiet demo_state_holds, of 3 0] by auto

text \<open>C10: every path a directory emits is its own path followed by the names of entries, not empty and
  without a slash, so that they are the components of the path; all but the last belong to
  directories that are neither pruned nor, unless asked for, hidden; the last is not hidden either;
  and the number of names respects the depths asked for.\<close>

theorem emitted_paths_within_bounds:
  assumes "quiet ctx" "holds_path (ws_buffer st) path" "\<not> ws_stop_requested st"
  shows "\<exists>ok st' ps. walk_process_directory ctx fd (length path) depth st = Some (ok, st') \<and>
    accepted ctx st' = accepted ctx st @ lines_of (out_separator (ws_output st)) ps \<and>
    (\<forall>p \<in> set ps. \<exists>names name. p = foldl child_path path (names @ [name]) \<and>
       (\<forall>nm \<in> set (names @ [name]). entry_name nm) \<and> (\<forall>nm \<in> set names. name_passes ctx nm) \<and>
       (\<not> pred_include_hidden (wc_predicate ctx) \<longrightarrow> \<not> walk_is_hidden_name name) \<and>
       depth_ok (wc_predicate ctx) (depth + length names + 1))"
proof -
  let ?evs = "spec_directory PATH_CAPACITY ctx (ws_root_device st) fd path depth"
  obtain st' where w: "walk_process_directory ctx fd (length path) depth st = Some (directory_readable ctx fd, st')"
    and m: "moved ctx st ?evs st'"
    using iterate_refines [OF assms refl, of PATH_CAPACITY fd depth] unfolding walk_process_directory_def by auto
  have world: "readdir_ok (wc_os ctx)" "core_ok (wc_core ctx)" using assms(1) by (simp_all add: quiet_def)
  have bound: "\<exists>names name. p = foldl child_path path (names @ [name]) \<and>
       (\<forall>nm \<in> set (names @ [name]). entry_name nm) \<and> (\<forall>nm \<in> set names. name_passes ctx nm) \<and>
       (\<not> pred_include_hidden (wc_predicate ctx) \<longrightarrow> \<not> walk_is_hidden_name name) \<and>
       depth_ok (wc_predicate ctx) (depth + length names + 1)" if "p \<in> set (found ?evs)" for p
    using that spec_directory_sound listed_bounds [OF world] unfolding in_found by blast
  have "accepted ctx st' = accepted ctx st @ lines_of (out_separator (ws_output st)) (found ?evs)"
    using m by (simp add: moved_def)
  with w bound show ?thesis by blast
qed

theorem emitted_paths_within_bounds_witness:
  "\<exists>ok st' ps. walk_process_directory demo_context 3 1 0 demo_state = Some (ok, st') \<and>
    (\<forall>p \<in> set ps. \<exists>names name. p = foldl child_path ''.'' (names @ [name]) \<and>
      (\<forall>nm \<in> set (names @ [name]). entry_name nm) \<and> (\<forall>nm \<in> set names. name_passes demo_context nm))"
  using emitted_paths_within_bounds [OF demo_quiet demo_state_holds, of 3 0] by simp blast

text \<open>C38: appending a name to the path buffer succeeds exactly when path, separator, name and NUL fit
  the 4096 bytes; then the buffer holds the joined path as a C string, with a slash in between
  unless the path is empty or ends in one, and no byte outside the buffer is written.\<close>

theorem append_path_joins:
  assumes "holds_path buffer path" "no_nul name"
  shows "if PATH_CAPACITY < length (child_path path name) + 1
    then walk_append_path buffer PATH_CAPACITY (length path) name (length name) = None
    else \<exists>buffer'. walk_append_path buffer PATH_CAPACITY (length path) name (length name) =
           Some (buffer', length (child_path path name)) \<and>
         cstr buffer' = child_path path name \<and> length buffer' = length buffer"
  using append_path_child [OF assms] holds_path_cstr holds_path_size [OF assms(1)]
  by (auto simp: holds_path_size less_Suc_eq_le split: if_splits)

theorem append_path_joins_witness:
  "\<exists>buffer'. walk_append_path (ws_buffer demo_state) PATH_CAPACITY (length ''.'') ''sub'' (length ''sub'') =
     Some (buffer', length ''./sub'') \<and> cstr buffer' = ''./sub''"
  using append_path_joins [OF demo_state_holds(1), of "''sub''"] by (simp add: child_path_def PATH_CAPACITY_def) blast

end
