(* ===== verification/Seek_Walk_Buffer.thy ===== *)
theory Seek_Walk_Buffer
  imports Seek_Walk_Reach
begin

text \<open>
  The path buffer of the sequential walk, whatever the writer and the signal handler do: one
  buffer of 4096 bytes is shared by all levels of the recursion, and each level relies on the
  levels below to leave its own part of it alone, also when they end early because a write
  failed or a signal arrived. \<open>within\<close> is the contract of a call with respect to the path its
  caller holds.
\<close>

section \<open>What a call leaves in the buffer\<close>

text \<open>The buffer still begins with the path and is a C string, and the errors the call has added name
  paths that begin with it and fit the buffer.\<close>

definition path_below :: "string \<Rightarrow> string \<Rightarrow> bool" where
  "path_below path p \<longleftrightarrow> prefix path p \<and> no_nul p \<and> length p < PATH_CAPACITY"

definition within :: "string \<Rightarrow> 'w walk_state \<Rightarrow> 'w walk_state \<Rightarrow> bool" where
  "within path st st' \<longleftrightarrow>
     (\<exists>s. holds_path (ws_buffer st') (path @ s)) \<and>
     (\<exists>errors. ws_errors st' = ws_errors st @ errors \<and> (\<forall>(p, e) \<in> set errors. path_below path p))"

lemma holds_path_below: "holds_path buffer (path @ s) \<Longrightarrow> path_below path (path @ s)"
  using holds_path_length by (auto simp: path_below_def holds_path_def)

lemma within_refl: "holds_path (ws_buffer st) path \<Longrightarrow> within path st st"
  unfolding within_def by (metis append_Nil2 empty_iff list.set(1))

lemma within_trans: "within path st st1 \<Longrightarrow> within path st1 st2 \<Longrightarrow> within path st st2"
  unfolding within_def by fastforce

lemma within_weaken: "within child st st' \<Longrightarrow> prefix path child \<Longrightarrow> within path st st'"
  unfolding within_def path_below_def prefix_def by fastforce

lemma within_error:
  assumes "within path st st'" "path_below path p"
  shows "within path st (walk_record_error p e st')"
  using assms by (auto simp: within_def walk_record_error_def)

lemma within_frame:
  assumes "ws_buffer st2 = ws_buffer st1" "ws_errors st2 = ws_errors st1"
  shows "within path st1 st = within path st2 st" and "within path st st1 = within path st st2"
  using assms by (simp_all add: within_def)

lemma within_poll: "walk_should_stop ctx st1 = (stop, st2) \<Longrightarrow> within path st st1 \<Longrightarrow> within path st st2"
  by (simp add: within_def should_stop_frame(1,3) [of ctx st1 stop st2])

lemma within_close: "within path st (close_fd fd st') = within path st st'"
  by (simp add: within_def close_fd_def)

lemma within_truncate:
  assumes "within path st st'"
  shows "within path st (walk_truncate (length path) st')" "holds_path (ws_buffer (walk_truncate (length path) st')) path"
proof -
  obtain s where "holds_path (ws_buffer st') (path @ s)" using assms by (auto simp: within_def)
  then show h: "holds_path (ws_buffer (walk_truncate (length path) st')) path"
    using truncate_holds by (simp add: walk_truncate_def)
  then show "within path st (walk_truncate (length path) st')"
    using assms unfolding within_def by (auto simp: walk_truncate_def intro: exI [of _ "[]"])
qed

section \<open>The walk keeps the contract\<close>

lemma emit_if_match_keeps:
  "walk_emit_if_match ctx c st = (ok, c', st') \<Longrightarrow> ws_buffer st' = ws_buffer st \<and> ws_errors st' = ws_errors st"
  by (erule emit_if_match_cases) auto

lemma open_subdir_keeps:
  "walk_open_subdir ctx fd name st = (r, st') \<Longrightarrow> ws_buffer st' = ws_buffer st \<and> ws_errors st' = ws_errors st"
  by (erule open_subdir_cases) (simp_all add: open_fd_def close_fd_def)

lemma entry_within:
  assumes h: "holds_path (ws_buffer st) path" and e: "no_nul (de_name e)"
  shows "case walk_entry ctx fd (length path) depth e st of
     Entry_skipped st' \<Rightarrow> st' = st
   | Entry_failed st' \<Rightarrow> within path st st'
   | Entry_done st' \<Rightarrow> within path st st'
   | Entry_enter sub sublen d st' \<Rightarrow> \<exists>child. prefix path child \<and> sublen = length child \<and>
       holds_path (ws_buffer st') child \<and> ws_errors st' = ws_errors st"
proof -
  let ?child = "child_path path (de_name e)"
  obtain s where s: "?child = path @ s" using child_path_split by blast
  show ?thesis
  proof (cases "PATH_CAPACITY \<le> length ?child")
    case True
    then show ?thesis
      using append_path_child [OF h e] within_refl [OF h] by (simp add: walk_entry_def)
  next
    case False
    then obtain buf where buf: "walk_append_path (ws_buffer st) PATH_CAPACITY (length path) (de_name e) (length (de_name e)) =
        Some (buf, length ?child)" "holds_path buf ?child"
      using append_path_child [OF h e] by auto
    have c: "cstr buf = ?child" "path_below path ?child"
      using holds_path_cstr [OF buf(2)] holds_path_below [of buf path s] buf(2) s by simp_all
    have step: "ws_buffer st2 = buf \<and> ws_errors st2 = ws_errors st \<and> within path st st2 \<and>
        (\<forall>e. within path st (walk_record_error ?child e st2))"
      if "walk_emit_if_match ctx cand (st\<lparr>ws_buffer := buf\<rparr>) = (ok, cand', st2)" for cand ok cand' st2
    proof -
      have "within path st st2" using emit_if_match_keeps [OF that] buf(2) s by (auto simp: within_def)
      from within_error [OF this c(2)] this emit_if_match_keeps [OF that] show ?thesis by simp
    qed
    have down: "case r of Inl err \<Rightarrow> within path st (walk_record_error ?child err st3)
        | Inr sub \<Rightarrow> ws_buffer st3 = buf \<and> ws_errors st3 = ws_errors st"
      if "walk_emit_if_match ctx cand (st\<lparr>ws_buffer := buf\<rparr>) = (ok, cand', st2)"
        "walk_open_subdir ctx fd name st2 = (r, st3)" for cand ok cand' st2 name r st3
    proof -
      have "within path st st3"
        using step [OF that(1)] within_frame(2) open_subdir_keeps [OF that(2)] by blast
      from within_error [OF this c(2)] step [OF that(1)] open_subdir_keeps [OF that(2)] show ?thesis
        by (simp split: sum.splits)
    qed
    show ?thesis
      unfolding walk_entry_def Let_def buf(1) option.case prod.case
      using step c(1) buf(2) s
      by (auto split: prod.splits sum.splits dest: down [rotated] intro!: exI [of _ ?child])
  qed
qed

lemma loop_within:
  assumes p: "\<And>sub child d s ok s'. holds_path (ws_buffer s) child \<Longrightarrow> process sub (length child) d s = Some (ok, s') \<Longrightarrow> within child s s'"
    and "\<forall>e \<in> set es. no_nul (de_name e)" "holds_path (ws_buffer st) path"
    and "walk_loop process ctx fd (length path) depth es st = Some (ok, st')"
  shows "within path st st'"
  using assms(2-4)
proof (induction es arbitrary: st)
  case Nil
  obtain stop s1 where s: "walk_should_stop ctx st = (stop, s1)" by fastforce
  have "within path st s1" by (rule within_poll [OF s within_refl [OF Nil.prems(2)]])
  moreover have "cstr (ws_buffer s1) = path" "path_below path path"
    using should_stop_frame(1) [OF s] holds_path_cstr [OF Nil.prems(2)] holds_path_below [of "ws_buffer st" path "[]"] Nil.prems(2)
    by simp_all
  ultimately show ?case using Nil.prems(3) s within_error by (auto split: if_splits option.splits)
next
  case (Cons e es)
  obtain stop s1 where s: "walk_should_stop ctx st = (stop, s1)" by fastforce
  have w1: "within path st s1" by (rule within_poll [OF s within_refl [OF Cons.prems(2)]])
  have h1: "holds_path (ws_buffer s1) path" using Cons.prems(2) should_stop_frame(1) [OF s] by simp
  have go: "within path st st'"
    if "within path st s2" "walk_loop process ctx fd (length path) depth es (walk_truncate (length path) s2) = Some (ok, st')" for s2
    using within_trans [OF within_truncate(1) [OF that(1)] Cons.IH [OF _ within_truncate(2) [OF that(1)] that(2)]] Cons.prems(1)
    by simp
  note entry = entry_within [OF h1, of e ctx fd depth] and run = Cons.prems(3)
  show ?case
  proof (cases stop)
    case True
    then show ?thesis using run s w1 by simp
  next
    case False
    show ?thesis
    proof (cases "walk_entry ctx fd (length path) depth e s1")
      case (Entry_skipped s2)
      then show ?thesis using entry run s False w1 Cons.prems(1) Cons.IH [of s1] h1 within_trans by auto
    next
      case (Entry_failed s2)
      then show ?thesis using entry run s False w1 Cons.prems(1) within_trans by auto
    next
      case (Entry_done s2)
      then have "within path st s2" using entry w1 Cons.prems(1) within_trans by auto
      from go [OF this] show ?thesis using run s False Entry_done by simp
    next
      case (Entry_enter sub sublen d s2)
      then obtain child where c: "prefix path child" "sublen = length child" "holds_path (ws_buffer s2) child" "ws_errors s2 = ws_errors s1"
        using entry Cons.prems(1) by auto
      obtain rok s3 where r: "process sub sublen d s2 = Some (rok, s3)"
        using run s False Entry_enter by (auto split: option.splits)
      have "within path s2 s3" by (rule within_weaken [OF p [OF c(3) r [unfolded c(2)]] c(1)])
      then have "within path s1 s3" using c(4) by (simp add: within_def)
      then have w: "within path st (close_fd sub s3)" using within_trans [OF w1] by (simp add: within_close)
      obtain stop2 s4 where s4: "walk_should_stop ctx (close_fd sub s3) = (stop2, s4)" by fastforce
      have w4: "within path st s4" by (rule within_poll [OF s4 w])
      show ?thesis
        using run s False Entry_enter r s4 go [OF w] go [OF w4] within_truncate(1) [OF w4]
        by (auto simp: Let_def split: if_splits)
    qed
  qed
qed

lemma iterate_within:
  assumes "readdir_ok (wc_os ctx)"
  shows "holds_path (ws_buffer st) path \<Longrightarrow> walk_iterate_entries n ctx fd (length path) depth st = Some (ok, st') \<Longrightarrow>
    within path st st'"
proof (induction n arbitrary: fd path depth st ok st')
  case 0
  then show ?case by simp
next
  case (Suc n)
  have es: "\<forall>e \<in> set (sys_entries (wc_os ctx) fd). no_nul (de_name e)" using assms by (simp add: readdir_ok_def)
  show ?case
  proof (cases "sys_reader_create (wc_os ctx) fd")
    case True
    then show ?thesis using Suc.prems by (auto intro: loop_within [OF Suc.IH es])
  next
    case False
    then show ?thesis
      using Suc.prems holds_path_cstr [OF Suc.prems(1)] holds_path_below [of "ws_buffer st" path "[]"]
        within_error [OF within_refl [OF Suc.prems(1)], of path ENOMEM] by auto
  qed
qed

section \<open>Properties\<close>

text \<open>C7: processing a directory, with any writer and any handler, leaves the buffer at its
  capacity, as a C string that still begins with the path of the directory, and every error it
  adds names a NUL-free path below that directory that fits the buffer.\<close>

theorem directory_keeps_path_buffer:
  assumes "readdir_ok (wc_os ctx)" "holds_path (ws_buffer st) path"
    and "walk_process_directory ctx fd (length path) depth st = Some (ok, st')"
  shows "(\<exists>s. holds_path (ws_buffer st') (path @ s)) \<and>
    (\<exists>errors. ws_errors st' = ws_errors st @ errors \<and>
       (\<forall>(p, e) \<in> set errors. prefix path p \<and> no_nul p \<and> length p < PATH_CAPACITY))"
  using iterate_within [OF assms(1,2), of PATH_CAPACITY fd depth ok st'] assms(3)
  by (simp add: walk_process_directory_def within_def path_below_def)

theorem directory_keeps_path_buffer_witness:
  "\<exists>ok st' s. walk_process_directory (demo_context\<lparr>wc_writer := full_writer, wc_signal_handler := Some (\<lambda>k. Some (k = 7))\<rparr>)
       3 (length ''.'') 0 demo_state = Some (ok, st') \<and>
     holds_path (ws_buffer st') (''.'' @ s)"
proof -
  let ?ctx = "demo_context\<lparr>wc_writer := full_writer, wc_signal_handler := Some (\<lambda>k. Some (k = 7))\<rparr>"
  have r: "readdir_ok (wc_os ?ctx)" using demo_quiet by (simp add: quiet_def)
  obtain ok st' where w: "walk_process_directory ?ctx 3 (length ''.'') 0 demo_state = Some (ok, st')"
    using iterate_total [OF r, of "length ''.''" PATH_CAPACITY 3 0 demo_state] unfolding walk_process_directory_def
    by (cases "walk_iterate_entries PATH_CAPACITY ?ctx 3 (length ''.'') 0 demo_state") (auto simp: PATH_CAPACITY_def)
  from directory_keeps_path_buffer [OF r demo_state_holds(1) w] w show ?thesis by blast
qed

end
