(* ===== verification/Seek_Walk_Stop.thy ===== *)
theory Seek_Walk_Stop
  imports Seek_Walk_Reach
begin

text \<open>
  What a signal does to the sequential walk. A run that is stopped is compared with the run of the
  same walk without a handler: up to the stop the two agree in everything but the count of queries,
  and from the stop on the interrupted run emits nothing and records nothing more, so that its
  output and its errors are cut short. The second part counts: between two queries at most one
  match is emitted, so a stop is obeyed after at most one more match.
\<close>

section \<open>The two runs\<close>

definition unhandled :: "'w walk_context \<Rightarrow> 'w walk_context" where
  "unhandled ctx = ctx\<lparr>wc_signal_handler := None\<rparr>"

lemma unhandled_sel [simp]:
  "wc_core (unhandled ctx) = wc_core ctx" "wc_os (unhandled ctx) = wc_os ctx"
  "wc_writer (unhandled ctx) = wc_writer ctx" "wc_predicate (unhandled ctx) = wc_predicate ctx"
  "wc_signal_handler (unhandled ctx) = None" "wc_follow_symlinks (unhandled ctx) = wc_follow_symlinks ctx"
  "wc_one_file_system (unhandled ctx) = wc_one_file_system ctx"
  by (simp_all add: unhandled_def)

text \<open>Running in step: no stop so far, and the same state but for the count of queries.\<close>

definition in_step :: "'w walk_state \<Rightarrow> 'w walk_state \<Rightarrow> bool" where
  "in_step st u \<longleftrightarrow> \<not> ws_stop_requested st \<and> \<not> ws_stop_requested u \<and>
     ws_buffer u = ws_buffer st \<and> ws_output u = ws_output st \<and> ws_errors u = ws_errors st \<and>
     ws_root_device u = ws_root_device st \<and> ws_fd_log u = ws_fd_log st"

text \<open>What was emitted and recorded so far is a first part of what the other run has.\<close>

definition cut_short :: "'w walk_context \<Rightarrow> 'w walk_state \<Rightarrow> 'w walk_state \<Rightarrow> bool" where
  "cut_short ctx st u \<longleftrightarrow>
     prefix (wr_accepted (wc_writer ctx) (out_writer (ws_output st))) (wr_accepted (wc_writer ctx) (out_writer (ws_output u))) \<and>
     prefix (ws_errors st) (ws_errors u)"

text \<open>The results of the two runs.\<close>

definition compares :: "'w walk_context \<Rightarrow> bool \<times> 'w walk_state \<Rightarrow> bool \<times> 'w walk_state \<Rightarrow> bool" where
  "compares ctx r v \<longleftrightarrow>
     (if ws_stop_requested (snd r) then cut_short ctx (snd r) (snd v) else fst r = fst v \<and> in_step (snd r) (snd v))"

lemma cut_short_grows:
  assumes "writer_ok (wc_writer ctx)" "output_grows (unhandled ctx) u v" "errors_grow (unhandled ctx) u v"
    and "cut_short ctx st u"
  shows "cut_short ctx st v"
  using assms by (auto simp: cut_short_def output_grows_def errors_grow_def intro: prefix_order.trans)

lemma in_step_cut: "in_step st u \<Longrightarrow> cut_short ctx st u"
  by (auto simp: in_step_def cut_short_def)

lemma cut_short_frame:
  "ws_output st' = ws_output st \<Longrightarrow> ws_errors st' = ws_errors st \<Longrightarrow> cut_short ctx st' u = cut_short ctx st u"
  "ws_output u' = ws_output u \<Longrightarrow> ws_errors u' = ws_errors u \<Longrightarrow> cut_short ctx st u' = cut_short ctx st u"
  by (simp_all add: cut_short_def)

section \<open>The elementary steps\<close>

text \<open>A query of the run with a handler; the other run answers no without asking.\<close>

lemma should_stop_unhandled: "in_step st u \<Longrightarrow> walk_should_stop (unhandled ctx) u = (False, u)"
  by (auto simp: in_step_def walk_should_stop_def)

lemma should_stop_in_step:
  assumes "in_step st u" "walk_should_stop ctx st = (stop, st')"
  shows "if stop then ws_stop_requested st' \<and> cut_short ctx st' u else in_step st' u"
  using assms by (auto simp: walk_should_stop_def in_step_def cut_short_def Let_def split: option.splits if_splits)

lemma in_step_update:
  assumes "in_step st u"
  shows "in_step (open_fd fd st) (open_fd fd u)" "in_step (close_fd fd st) (close_fd fd u)"
    "in_step (walk_truncate n st) (walk_truncate n u)" "in_step (walk_record_error p e st) (walk_record_error p e u)"
    "in_step (st\<lparr>ws_buffer := b\<rparr>) (u\<lparr>ws_buffer := b\<rparr>)" "in_step (resolve_root_device ctx s st) (resolve_root_device (unhandled ctx) s u)"
  using assms by (auto simp: in_step_def open_fd_def close_fd_def walk_truncate_def walk_record_error_def resolve_root_device_def)

lemma in_step_sel:
  assumes "in_step st u"
  shows "ws_buffer u = ws_buffer st" "ws_output u = ws_output st" "ws_errors u = ws_errors st"
    "ws_root_device u = ws_root_device st"
  using assms by (auto simp: in_step_def)

lemma emit_if_match_in_step:
  assumes "in_step st u" "walk_emit_if_match ctx c st = (ok, c', st')"
  shows "\<exists>u'. walk_emit_if_match (unhandled ctx) c u = (ok, c', u') \<and> in_step st' u'"
  using assms by (auto simp: walk_emit_if_match_def in_step_def Let_def split: prod.splits if_splits)

lemma open_subdir_in_step:
  assumes "in_step st u" "walk_open_subdir ctx fd name st = (r, st')"
  shows "\<exists>u'. walk_open_subdir (unhandled ctx) fd name u = (r, u') \<and> in_step st' u'"
  using assms(2) in_step_update(1,2) [OF assms(1)] in_step_update(2) [OF in_step_update(1) [OF assms(1)]]
    in_step_sel(4) [OF in_step_update(1) [OF assms(1)]] assms(1)
  by (auto simp: walk_open_subdir_def Let_def split: sum.splits if_splits)

lemma is_directory_unhandled [simp]: "entry_is_directory (unhandled ctx) c = entry_is_directory ctx c"
  unfolding entry_is_directory_def Let_def unhandled_sel by (rule refl)

lemma entry_candidate_unhandled [simp]:
  "entry_candidate (unhandled ctx) p n b k d fd depth = entry_candidate ctx p n b k d fd depth"
  by (simp add: entry_candidate_def)

lemma should_descend_unhandled [simp]:
  "walk_should_descend_directory (unhandled ctx) name n d = walk_should_descend_directory ctx name n d"
  by (simp add: walk_should_descend_directory_def)

lemma entry_in_step:
  assumes "in_step st u"
  shows "case walk_entry ctx fd len depth e st of
      Entry_skipped st' \<Rightarrow> \<exists>u'. walk_entry (unhandled ctx) fd len depth e u = Entry_skipped u' \<and> in_step st' u'
    | Entry_failed st' \<Rightarrow> \<exists>u'. walk_entry (unhandled ctx) fd len depth e u = Entry_failed u' \<and> in_step st' u'
    | Entry_done st' \<Rightarrow> \<exists>u'. walk_entry (unhandled ctx) fd len depth e u = Entry_done u' \<and> in_step st' u'
    | Entry_enter sub sublen d st' \<Rightarrow>
        \<exists>u'. walk_entry (unhandled ctx) fd len depth e u = Entry_enter sub sublen d u' \<and> in_step st' u'"
proof (cases "walk_append_path (ws_buffer st) PATH_CAPACITY len (de_name e) (length (de_name e))")
  case None
  then show ?thesis using assms in_step_sel(1) [OF assms] by (simp add: walk_entry_def)
next
  case (Some res)
  obtain buf n where res: "res = (buf, n)" by fastforce
  let ?c = "entry_candidate ctx (cstr buf) n (cstr (drop (n - length (de_name e)) buf)) (length (de_name e)) (de_d_type e) fd depth"
  obtain ok c' st1 where em: "walk_emit_if_match ctx ?c (st\<lparr>ws_buffer := buf\<rparr>) = (ok, c', st1)" by (metis prod_cases3)
  from emit_if_match_in_step [OF in_step_update(5) [OF assms] this] obtain u1
    where em': "walk_emit_if_match (unhandled ctx) ?c (u\<lparr>ws_buffer := buf\<rparr>) = (ok, c', u1)" and s1: "in_step st1 u1" by blast
  obtain r st2 where op: "walk_open_subdir ctx fd (de_name e) st1 = (r, st2)" by fastforce
  from open_subdir_in_step [OF s1 op] obtain u2
    where op': "walk_open_subdir (unhandled ctx) fd (de_name e) u1 = (r, u2)" and s2: "in_step st2 u2" by blast
  obtain isd c2 where isd: "entry_is_directory ctx c' = (isd, c2)" by fastforce
  show ?thesis
    using assms s1 s2 in_step_update(4) [OF s2] in_step_sel(1) [OF assms]
    by (cases r) (simp_all add: walk_entry_def Let_def Some res em em' op op' isd)
qed

lemma compares_running: "in_step st u \<Longrightarrow> compares ctx (ok, st) (ok, u)"
  by (simp add: compares_def in_step_def)

section \<open>A directory\<close>

text \<open>The induction over a directory, given the comparison for the directories below it.\<close>

definition only_grows ::
  "'w walk_context \<Rightarrow> (fd \<Rightarrow> nat \<Rightarrow> nat \<Rightarrow> 'w walk_state \<Rightarrow> (bool \<times> 'w walk_state) option) \<Rightarrow> bool" where
  "only_grows ctx process \<longleftrightarrow> (\<forall>sub sublen d u ok v. process sub sublen d u = Some (ok, v) \<longrightarrow>
     output_grows ctx u v \<and> errors_grow ctx u v)"

lemma iterate_only_grows: "only_grows ctx (walk_iterate_entries n ctx)"
  using out.iterate errors.iterate by (fastforce simp: only_grows_def)

lemma cut_short_loop:
  assumes W: "writer_ok (wc_writer ctx)" and "cut_short ctx st u"
    and "only_grows (unhandled ctx) process"
    and "walk_loop process (unhandled ctx) fd len depth es u = Some v"
  shows "cut_short ctx st (snd v)"
proof -
  obtain ok u' where v: "v = (ok, u')" by fastforce
  have loop: "walk_loop process (unhandled ctx) fd len depth es u = Some (ok, u')" using assms(4) v by simp
  have "output_grows (unhandled ctx) u u'"
    by (rule out.loop [OF _ loop]) (use assms(3) in \<open>simp add: only_grows_def\<close>)
  moreover have "errors_grow (unhandled ctx) u u'"
    by (rule errors.loop [OF _ loop]) (use assms(3) in \<open>simp add: only_grows_def\<close>)
  ultimately show ?thesis using cut_short_grows [OF W _ _ assms(2)] by (simp add: v)
qed

lemma loop_compares:
  assumes W: "writer_ok (wc_writer ctx)"
    and below: "\<And>sub sublen d s u r v. in_step s u \<Longrightarrow> process sub sublen d s = Some r \<Longrightarrow>
      process' sub sublen d u = Some v \<Longrightarrow> compares ctx r v"
    and grows: "only_grows (unhandled ctx) process'"
  shows "in_step st u \<Longrightarrow> walk_loop process ctx fd len depth es st = Some r \<Longrightarrow>
    walk_loop process' (unhandled ctx) fd len depth es u = Some v \<Longrightarrow> compares ctx r v"
proof (induction es arbitrary: st u)
  case Nil
  obtain stop s1 where s: "walk_should_stop ctx st = (stop, s1)" by fastforce
  note poll = should_stop_in_step [OF Nil.prems(1) s] and free = should_stop_unhandled [OF Nil.prems(1), of ctx]
  show ?case
  proof (cases stop)
    case True
    then show ?thesis
      using Nil.prems(2) s poll cut_short_loop [OF W _ grows Nil.prems(3)] by (auto simp: compares_def)
  next
    case False
    then have step: "in_step s1 u" using poll by simp
    show ?thesis
    proof (cases "sys_read_error (wc_os ctx) fd")
      case None
      then have "r = (True, s1)" "v = (True, u)" using Nil.prems(2,3) s False free by simp_all
      then show ?thesis using compares_running [OF step] by simp
    next
      case (Some e)
      let ?path = "cstr (ws_buffer s1)"
      have "r = (False, walk_record_error ?path e s1)" "v = (False, walk_record_error ?path e u)"
        using Nil.prems(2,3) s False free Some in_step_sel(1) [OF step] by simp_all
      then show ?thesis using compares_running [OF in_step_update(4) [OF step]] by simp
    qed
  qed
next
  case (Cons e es)
  obtain stop s1 where s: "walk_should_stop ctx st = (stop, s1)" by fastforce
  note poll = should_stop_in_step [OF Cons.prems(1) s] and free = should_stop_unhandled [OF Cons.prems(1), of ctx]
  note later = cut_short_loop [OF W _ grows]
  show ?case
  proof (cases stop)
    case True
    then show ?thesis using Cons.prems(2) s poll later [OF _ Cons.prems(3)] by (auto simp: compares_def)
  next
    case False
    then have step: "in_step s1 u" using poll by simp
    note entry = entry_in_step [OF step, of ctx fd len depth e]
    show ?thesis
    proof (cases "walk_entry ctx fd len depth e s1")
      case (Entry_skipped s2)
      then show ?thesis using entry Cons s False free by auto
    next
      case (Entry_failed s2)
      then show ?thesis using entry Cons.prems s False free by (auto simp: compares_def in_step_def)
    next
      case (Entry_done s2)
      then obtain u2 where u2: "walk_entry (unhandled ctx) fd len depth e u = Entry_done u2" "in_step s2 u2"
        using entry by auto
      show ?thesis
        using Cons.IH [OF in_step_update(3) [OF u2(2)]] Cons.prems(2,3) s False free Entry_done u2(1) by simp
    next
      case (Entry_enter sub sublen d s2)
      then obtain u2 where u2: "walk_entry (unhandled ctx) fd len depth e u = Entry_enter sub sublen d u2" "in_step s2 u2"
        using entry by auto
      obtain ok s3 where p: "process sub sublen d s2 = Some (ok, s3)"
        using Cons.prems(2) s False Entry_enter by (auto split: option.splits)
      obtain ok' u3 where p': "process' sub sublen d u2 = Some (ok', u3)"
        using Cons.prems(3) free u2 by (auto split: option.splits)
      have c: "compares ctx (ok, s3) (ok', u3)" by (rule below [OF u2(2) p p'])
      have after: "cut_short ctx s' (snd v)" if "cut_short ctx s' u3" for s'
      proof -
        obtain stop' u4 where f: "walk_should_stop (unhandled ctx) (close_fd sub u3) = (stop', u4)" by fastforce
        have "cut_short ctx s' (walk_truncate len (close_fd sub u3))" "cut_short ctx s' (walk_truncate len u4)"
          using that should_stop_frame(2,3) [OF f] by (simp_all add: cut_short_def walk_truncate_def close_fd_def)
        then show ?thesis
          using Cons.prems(3) free u2(1) p' f by (auto simp: Let_def split: if_splits intro: later)
      qed
      show ?thesis
      proof (cases "ws_stop_requested s3")
        case True
        then have "ws_stop_requested (close_fd sub s3)" "ws_stop_requested (walk_truncate len (close_fd sub s3))"
          by (simp_all add: close_fd_def walk_truncate_def)
        then have "r = (False, walk_truncate len (close_fd sub s3))"
          using Cons.prems(2) s False Entry_enter p by (simp add: Let_def should_stop_requested loop_requested split: if_splits)
        moreover have "cut_short ctx (walk_truncate len (close_fd sub s3)) u3"
          using c True by (simp add: compares_def cut_short_def walk_truncate_def close_fd_def)
        ultimately show ?thesis
          using after True by (simp add: compares_def walk_truncate_def close_fd_def)
      next
        case running: False
        then have s3: "ok' = ok" "in_step (close_fd sub s3) (close_fd sub u3)"
          using c in_step_update(2) by (auto simp: compares_def)
        show ?thesis
        proof (cases ok)
          case True
          then show ?thesis
            using Cons.IH [OF in_step_update(3) [OF s3(2)]] Cons.prems(2,3) s False free Entry_enter u2(1) p p' s3(1)
            by simp
        next
          case failed: False
          obtain stop2 s4 where s4: "walk_should_stop ctx (close_fd sub s3) = (stop2, s4)" by fastforce
          note poll2 = should_stop_in_step [OF s3(2) s4] and free2 = should_stop_unhandled [OF s3(2), of ctx]
          show ?thesis
          proof (cases stop2)
            case True
            then have "r = (False, walk_truncate len s4)"
              using Cons.prems(2) s False Entry_enter p failed s4 by simp
            moreover have "cut_short ctx (walk_truncate len s4) u3" "ws_stop_requested (walk_truncate len s4)"
              using poll2 True by (simp_all add: cut_short_def walk_truncate_def close_fd_def)
            ultimately show ?thesis using after by (simp add: compares_def)
          next
            case False
            then have "in_step (walk_truncate len s4) (walk_truncate len (close_fd sub u3))"
              using poll2 in_step_update(3) by simp
            from Cons.IH [OF this] show ?thesis
              using Cons.prems(2,3) s \<open>\<not> stop\<close> free Entry_enter u2(1) p p' s3(1) failed s4 free2 False by simp
          qed
        qed
      qed
    qed
  qed
qed

lemma iterate_compares:
  assumes "writer_ok (wc_writer ctx)"
  shows "in_step st u \<Longrightarrow> walk_iterate_entries n ctx fd len depth st = Some r \<Longrightarrow>
    walk_iterate_entries n (unhandled ctx) fd len depth u = Some v \<Longrightarrow> compares ctx r v"
proof (induction n arbitrary: fd len depth st u r v)
  case 0
  then show ?case by simp
next
  case (Suc n)
  show ?case
  proof (cases "sys_reader_create (wc_os ctx) fd")
    case True
    then show ?thesis
      using Suc.prems loop_compares [OF assms Suc.IH iterate_only_grows Suc.prems(1)] by simp
  next
    case False
    then show ?thesis
      using Suc.prems in_step_update(4) [OF Suc.prems(1)] in_step_sel(1) [OF Suc.prems(1)]
      by (auto simp: compares_def in_step_def)
  qed
qed

section \<open>The roots\<close>

lemma compares_close: "compares ctx (ok, st) (ok', u) \<Longrightarrow> compares ctx (ok, close_fd fd st) (ok', close_fd fd u)"
  using in_step_update(2) by (auto simp: compares_def cut_short_def close_fd_def in_step_def)

lemma root_directory_compares:
  assumes W: "writer_ok (wc_writer ctx)" and step: "in_step st u"
    and run: "walk_root_directory ctx root len c st = Some r" "walk_root_directory (unhandled ctx) root len c u = Some v"
  shows "compares ctx r v"
proof -
  obtain ok c' s1 where em: "walk_emit_if_match ctx c st = (ok, c', s1)" by (metis prod_cases3)
  from emit_if_match_in_step [OF step this] obtain u1
    where em': "walk_emit_if_match (unhandled ctx) c u = (ok, c', u1)" and s1: "in_step s1 u1" by blast
  consider "\<exists>b. r = (b, s1) \<and> v = (b, u1)"
    | e where "r = (False, walk_record_error root e s1)" "v = (False, walk_record_error root e u1)"
    | fd ok s2 ok' u2 where "walk_process_directory ctx fd len 0 (open_fd fd s1) = Some (ok, s2)" "r = (ok, close_fd fd s2)"
        "walk_process_directory (unhandled ctx) fd len 0 (open_fd fd u1) = Some (ok', u2)" "v = (ok', close_fd fd u2)"
    using run unfolding walk_root_directory_def Let_def em em'
    by (auto split: if_splits sum.splits option.splits)
  then show ?thesis
  proof cases
    case 1
    then show ?thesis using compares_running [OF s1] by auto
  next
    case (2 e)
    then show ?thesis using compares_running [OF in_step_update(4) [OF s1]] by simp
  next
    case (3 fd ok s2 ok' u2)
    have "compares ctx (ok, s2) (ok', u2)"
      using iterate_compares [OF W in_step_update(1) [OF s1]] 3(1,3) unfolding walk_process_directory_def by blast
    then show ?thesis unfolding 3(2,4) by (rule compares_close)
  qed
qed

lemma visit_root_compares:
  assumes "writer_ok (wc_writer ctx)" "in_step st u"
    and "walk_visit_root ctx root st = Some r" "walk_visit_root (unhandled ctx) root u = Some v"
  shows "compares ctx r v"
proof (cases "sys_fstatat (wc_os ctx) AT_FDCWD root (wc_follow_symlinks ctx)")
  case (Inl e)
  then show ?thesis
    using assms(3,4) compares_running [OF in_step_update(4) [OF assms(2)]] by (auto simp: walk_visit_root_def)
next
  case (Inr root_stat)
  note step = in_step_update(6) [OF assms(2), of ctx root_stat]
  note failed = compares_running [OF in_step_update(4) [OF step]] and buffer = in_step_sel(1) [OF step]
  show ?thesis
    using assms(3,4) Inr failed buffer root_directory_compares [OF assms(1) in_step_update(5) [OF step]]
    by (auto simp: walk_visit_root_def Let_def split: option.splits if_splits)
qed

lemma roots_compare:
  assumes "writer_ok (wc_writer ctx)"
  shows "in_step st u \<Longrightarrow> walk_roots ctx roots any_ok st = Some r \<Longrightarrow>
    walk_roots (unhandled ctx) roots any_ok u = Some v \<Longrightarrow> compares ctx r v"
proof (induction roots arbitrary: any_ok st u)
  case Nil
  then show ?case by (auto intro: compares_running)
next
  case (Cons root roots)
  obtain stop s1 where s: "walk_should_stop ctx st = (stop, s1)" by fastforce
  note poll = should_stop_in_step [OF Cons.prems(1) s] and free = should_stop_unhandled [OF Cons.prems(1), of ctx]
  have later: "cut_short ctx s' (snd v)" if "cut_short ctx s' w" "walk_roots (unhandled ctx) rs b w = Some v" for s' w rs b
    using cut_short_grows [OF assms _ _ that(1)] out.roots [of "unhandled ctx" rs b w "fst v" "snd v"]
      errors.roots [of "unhandled ctx" rs b w "fst v" "snd v"] that(2) by simp
  show ?case
  proof (cases stop)
    case True
    then show ?thesis using Cons.prems(2) s poll later [OF _ Cons.prems(3)] by (auto simp: compares_def)
  next
    case False
    then obtain ok s2 where p: "walk_visit_root ctx root s1 = Some (ok, s2)"
      "walk_roots ctx roots (if ok then any_ok else False) s2 = Some r"
      using Cons.prems(2) s by (auto split: option.splits)
    obtain ok' u2 where p': "walk_visit_root (unhandled ctx) root u = Some (ok', u2)"
      "walk_roots (unhandled ctx) roots (if ok' then any_ok else False) u2 = Some v"
      using Cons.prems(3) free by (auto split: option.splits)
    have c: "compares ctx (ok, s2) (ok', u2)"
      using visit_root_compares [OF assms _ p(1) p'(1)] poll False by simp
    show ?thesis
    proof (cases "ws_stop_requested s2")
      case True
      then have "snd r = s2" using p(2) by (cases roots) (auto simp: should_stop_requested)
      then show ?thesis using True c later [OF _ p'(2)] by (auto simp: compares_def)
    next
      case False
      then show ?thesis using Cons.IH [OF _ p(2)] p'(2) c by (auto simp: compares_def)
    qed
  qed
qed

lemma walk_compares:
  assumes "writer_ok (wc_writer ctx)" "in_step st u"
    and "walk_from ctx roots st = Some r" "walk_from (unhandled ctx) roots u = Some v"
  shows "compares ctx r v"
  using assms(3,4) visit_root_compares [OF assms(1,2)] roots_compare [OF assms(1,2)]
  by (auto simp: walk_from_def split: if_splits)

section \<open>Matches between two queries\<close>

text \<open>The queries answered no, one more while the walk runs, less the matches emitted.\<close>

definition credit :: "'w walk_state \<Rightarrow> int" where
  "credit st = int (ws_polls st) + (if ws_stop_requested st then 0 else 1) - int (out_emitted_count (ws_output st))"

lemma credit_frame [simp]:
  "credit (open_fd fd st) = credit st" "credit (close_fd fd st) = credit st" "credit (walk_truncate n st) = credit st"
  "credit (walk_record_error p e st) = credit st" "credit (st\<lparr>ws_buffer := b\<rparr>) = credit st"
  "credit (resolve_root_device ctx s st) = credit st"
  by (simp_all add: credit_def open_fd_def close_fd_def walk_truncate_def walk_record_error_def resolve_root_device_def)

lemma poll_credit:
  assumes "wc_signal_handler ctx \<noteq> None" "walk_should_stop ctx st = (stop, st')"
  shows "credit st' = credit st + (if stop then 0 else 1)"
  using assms by (auto simp: walk_should_stop_def credit_def Let_def split: if_splits)

lemma emit_if_match_credit: "walk_emit_if_match ctx c st = (ok, c', st') \<Longrightarrow> credit st \<le> credit st' + 1"
  by (erule emit_if_match_cases) (auto simp: credit_def dest: emit_frame(4))

lemma open_subdir_credit: "walk_open_subdir ctx fd name st = (r, st') \<Longrightarrow> credit st' = credit st"
  by (erule open_subdir_cases) simp_all

lemma entry_credit:
  "case walk_entry ctx fd len depth e st of
     Entry_skipped st' \<Rightarrow> credit st \<le> credit st' + 1 | Entry_failed st' \<Rightarrow> credit st \<le> credit st' + 1
   | Entry_done st' \<Rightarrow> credit st \<le> credit st' + 1 | Entry_enter sub sublen d st' \<Rightarrow> credit st \<le> credit st' + 1"
proof -
  have "credit st \<le> credit st2 + 1" if "walk_emit_if_match ctx c (st\<lparr>ws_buffer := b\<rparr>) = (ok, c', st2)" for b c ok c' st2
    using emit_if_match_credit [OF that] by simp
  then show ?thesis
    unfolding walk_entry_def Let_def
    by (auto split: option.splits prod.splits sum.splits if_splits dest: open_subdir_credit)
qed

lemma loop_credit:
  assumes h: "wc_signal_handler ctx \<noteq> None"
    and below: "\<And>sub sublen d s ok s'. process sub sublen d s = Some (ok, s') \<Longrightarrow> credit s \<le> credit s'"
  shows "walk_loop process ctx fd len depth es st = Some (ok, st') \<Longrightarrow> credit st \<le> credit st'"
proof (induction es arbitrary: st)
  case Nil
  obtain stop s1 where s: "walk_should_stop ctx st = (stop, s1)" by fastforce
  then show ?case using Nil poll_credit [OF h s] by (auto split: if_splits option.splits)
next
  case (Cons e es)
  obtain stop s1 where s: "walk_should_stop ctx st = (stop, s1)" by fastforce
  show ?case
  proof (cases stop)
    case True
    then show ?thesis using Cons.prems s poll_credit [OF h s] by simp
  next
    case False
    then have s1: "credit s1 = credit st + 1" using poll_credit [OF h s] by simp
    note entry = entry_credit [where ctx = ctx and fd = fd and len = len and depth = depth and e = e and st = s1]
    show ?thesis
    proof (cases "walk_entry ctx fd len depth e s1")
      case (Entry_enter sub sublen d s2)
      obtain rok s3 where p: "process sub sublen d s2 = Some (rok, s3)"
        using Cons.prems s False Entry_enter by (auto split: option.splits)
      obtain stop2 s4 where s4: "walk_should_stop ctx (close_fd sub s3) = (stop2, s4)" by fastforce
      have "credit st \<le> credit s3" "credit s3 \<le> credit s4"
        using below [OF p] entry Entry_enter s1 poll_credit [OF h s4] by simp_all
      then show ?thesis
        using Cons.prems Cons.IH [of "walk_truncate len (close_fd sub s3)"] Cons.IH [of "walk_truncate len s4"]
          s False Entry_enter p s4
        by (auto simp: Let_def split: if_splits)
    next
      case (Entry_skipped s2)
      then show ?thesis using Cons.prems Cons.IH [of s2] entry s1 s False by simp
    next
      case (Entry_failed s2)
      then show ?thesis using Cons.prems entry s1 s False by simp
    next
      case (Entry_done s2)
      then show ?thesis using Cons.prems Cons.IH [of "walk_truncate len s2"] entry s1 s False by simp
    qed
  qed
qed

lemma iterate_credit:
  assumes "wc_signal_handler ctx \<noteq> None"
  shows "walk_iterate_entries n ctx fd len depth st = Some (ok, st') \<Longrightarrow> credit st \<le> credit st'"
proof (induction n arbitrary: fd len depth st ok st')
  case 0
  then show ?case by simp
next
  case (Suc n)
  then show ?case using loop_credit [OF assms Suc.IH] by (auto split: if_splits)
qed

lemma root_directory_credit:
  assumes "wc_signal_handler ctx \<noteq> None" "walk_root_directory ctx root len c st = Some (ok, st')"
  shows "credit st \<le> credit st' + 1"
proof -
  obtain ok' c' s1 where em: "walk_emit_if_match ctx c st = (ok', c', s1)" by (metis prod_cases3)
  have "credit s1 \<le> credit st'"
    using assms(2) iterate_credit [OF assms(1), of _ _ _ _ "open_fd _ s1"]
    unfolding walk_root_directory_def walk_process_directory_def Let_def em
    by (auto split: if_splits sum.splits option.splits)
  then show ?thesis using emit_if_match_credit [OF em] by linarith
qed

lemma visit_root_credit:
  assumes "wc_signal_handler ctx \<noteq> None" "walk_visit_root ctx root st = Some (ok, st')"
  shows "credit st \<le> credit st' + 1"
  using assms(2) root_directory_credit [OF assms(1)]
  by (fastforce simp: walk_visit_root_def Let_def split: sum.splits option.splits if_splits)

lemma roots_credit:
  assumes "wc_signal_handler ctx \<noteq> None"
  shows "walk_roots ctx roots any_ok st = Some (ok, st') \<Longrightarrow> credit st \<le> credit st'"
proof (induction roots arbitrary: any_ok st)
  case Nil
  then show ?case by simp
next
  case (Cons root roots)
  obtain stop s1 where s: "walk_should_stop ctx st = (stop, s1)" by fastforce
  show ?case
  proof (cases stop)
    case True
    then show ?thesis using Cons.prems s poll_credit [OF assms s] by simp
  next
    case False
    then obtain rok s2 where v: "walk_visit_root ctx root s1 = Some (rok, s2)"
      "walk_roots ctx roots (if rok then any_ok else False) s2 = Some (ok, st')"
      using Cons.prems s by (auto split: option.splits)
    show ?thesis using poll_credit [OF assms s] False visit_root_credit [OF assms v(1)] Cons.IH [OF v(2)] by simp
  qed
qed

section \<open>Properties\<close>

text \<open>C20: a walk that is stopped by its handler, wherever that happens, has emitted a first part of
  what the same walk without a handler emits, and recorded a first part of its errors; one that is
  never stopped ends as that walk does. Between two queries at most one match is emitted: the
  matches are no more than the queries answered no, and the default root.\<close>

theorem interrupted_walk_is_cut:
  assumes "readdir_ok (wc_os ctx)" "writer_ok (wc_writer ctx)" "wc_signal_handler ctx \<noteq> None"
    and "walk_sequential ctx roots out errors = Some (ok, st)"
  shows "\<exists>ok' u. walk_sequential (ctx\<lparr>wc_signal_handler := None\<rparr>) roots out errors = Some (ok', u) \<and>
    (if ws_stop_requested st
     then prefix (wr_accepted (wc_writer ctx) (out_writer (ws_output st)))
                 (wr_accepted (wc_writer ctx) (out_writer (ws_output u))) \<and>
          prefix (ws_errors st) (ws_errors u)
     else ok = ok' \<and> ws_output st = ws_output u \<and> ws_errors st = ws_errors u) \<and>
    out_emitted_count (ws_output st) + (if ws_stop_requested st then 1 else 0) \<le>
      out_emitted_count out + ws_polls st + (if roots = [] then 1 else 0)"
proof -
  let ?st = "walk_start out errors"
  have run: "walk_from ctx roots ?st = Some (ok, st)" using assms(4) by (simp add: walk_sequential_def)
  obtain ok' u where free: "walk_from (unhandled ctx) roots ?st = Some (ok', u)"
    using walk_total [of "unhandled ctx" roots ?st] assms(1) by (cases "walk_from (unhandled ctx) roots ?st") auto
  have "in_step ?st ?st" by (simp add: in_step_def walk_start_def)
  from walk_compares [OF assms(2) this run free]
  have c: "if ws_stop_requested st then cut_short ctx st u else ok = ok' \<and> in_step st u"
    unfolding compares_def fst_conv snd_conv .
  have "credit ?st \<le> credit st + (if roots = [] then 1 else 0)"
    using run visit_root_credit [OF assms(3)] roots_credit [OF assms(3)] by (auto simp: walk_from_def split: if_splits)
  then have "out_emitted_count (ws_output st) + (if ws_stop_requested st then 1 else 0) \<le>
      out_emitted_count out + ws_polls st + (if roots = [] then 1 else 0)"
    by (auto simp: credit_def walk_start_def split: if_splits)
  moreover have "walk_sequential (ctx\<lparr>wc_signal_handler := None\<rparr>) roots out errors = Some (ok', u)"
    using free by (simp add: walk_sequential_def unhandled_def)
  moreover have "ok = ok' \<and> ws_output st = ws_output u \<and> ws_errors st = ws_errors u" if "\<not> ws_stop_requested st"
    using c that in_step_sel(2,3) [of st u] by simp
  ultimately show ?thesis using c by (auto simp: cut_short_def)
qed

text \<open>The walk of the demo tree, stopped at its third query: it ends with that query and has emitted
  three matches at most, of seven.\<close>

definition signalled_context :: "list_state walk_context" where
  "signalled_context = demo_context\<lparr>wc_signal_handler := Some (\<lambda>k. Some (k = 2))\<rparr>"

lemma demo_run:
  obtains u where "walk_sequential demo_context [] (stdout_output []) [] = Some (True, u)"
    "advanced demo_context (walk_start (stdout_output []) []) (fst (spec_walk demo_context [])) u"
proof -
  obtain dev where "spec_root demo_context None ''.'' = (fst (spec_walk demo_context []), True, dev)"
    using demo_walk by (auto simp: spec_walk_def split: prod.splits)
  then show ?thesis
    using that visit_root_refines [OF demo_quiet _ _, of "''.''" "walk_start (stdout_output []) []" None]
    by (auto simp: walk_sequential_def walk_from_def ready_def walk_start_def)
qed

theorem interrupted_walk_is_cut_witness:
  "\<exists>ok st. walk_sequential signalled_context [] (stdout_output []) [] = Some (ok, st) \<and>
     ws_stop_requested st \<and> ws_polls st = 3 \<and> out_emitted_count (ws_output st) \<le> 3 \<and>
     prefix (accepted demo_context st) (lines_of CHR ''\<newline>''
       [''.'', ''./top.txt'', ''./sub'', ''./sub/alpha.c'', ''./sub/beta.h'', ''./sub/deep'', ''./sub/deep/gamma.c''])"
proof -
  let ?start = "walk_start (stdout_output []) []"
  have ctx: "readdir_ok (wc_os signalled_context)" "writer_ok (wc_writer signalled_context)"
    "wc_signal_handler signalled_context \<noteq> None" "signalled_context\<lparr>wc_signal_handler := None\<rparr> = demo_context"
    using demo_quiet by (simp_all add: signalled_context_def quiet_def demo_context_def)
  obtain ok st where w: "walk_sequential signalled_context [] (stdout_output []) [] = Some (ok, st)"
    using walk_total [OF ctx(1), of "[]" ?start]
    by (cases "walk_from signalled_context [] ?start") (auto simp: walk_sequential_def)
  obtain u where u: "walk_sequential demo_context [] (stdout_output []) [] = Some (True, u)"
    "advanced demo_context ?start (fst (spec_walk demo_context [])) u" by (rule demo_run)
  have full: "accepted demo_context u = lines_of CHR ''\<newline>''
      [''.'', ''./top.txt'', ''./sub'', ''./sub/alpha.c'', ''./sub/beta.h'', ''./sub/deep'', ''./sub/deep/gamma.c'']"
    "out_emitted_count (ws_output u) = 7"
    using u(2) unfolding demo_walk
    by (simp_all add: advanced_def moved_def accepted_def walk_start_def stdout_output_def list_writer_def)
  note cut = interrupted_walk_is_cut [OF ctx(1-3) w, unfolded ctx(4) u(1)]
  have latched: "stop_latched signalled_context ?start st"
    using stop.walk w unfolding walk_sequential_def by blast
  have no: "\<not> handler_says_stop signalled_context k" if "k \<noteq> 2" for k
    using that by (simp add: handler_says_stop_def signalled_context_def)
  have stopped: "ws_stop_requested st"
  proof (rule ccontr)
    assume running: "\<not> ws_stop_requested st"
    then have "2 < ws_polls st" using cut full(2) by (auto simp: stdout_output_def)
    then show False using stop_latchedD(4) [OF latched, of 2] running
      by (simp add: walk_start_def handler_says_stop_def signalled_context_def)
  qed
  have "ws_polls st \<noteq> 0" using stop_latchedD(5) [OF latched] stopped by (auto simp: walk_start_def)
  then have "handler_says_stop signalled_context (ws_polls st - 1)"
    using stop_latchedD(4) [OF latched, of "ws_polls st - 1"] stopped by (simp add: walk_start_def)
  then have "ws_polls st - 1 = 2" using no by blast
  then have polls: "ws_polls st = 3" by linarith
  then have "out_emitted_count (ws_output st) \<le> 3" using cut stopped by (auto simp: stdout_output_def)
  moreover have "prefix (accepted demo_context st) (accepted demo_context u)"
    using cut stopped by (auto simp: accepted_def signalled_context_def)
  ultimately show ?thesis using w stopped polls full(1) by auto
qed

end
