(* ===== verification/Seek_Parallel.thy ===== *)
theory Seek_Parallel
  imports Seek_Walk
begin

text \<open>
  The parallel walk of \<^verbatim>\<open>src/discovery/bc_seek_discovery_walk_parallel.c\<close>: the buffer of
  matches of each worker, the callbacks handed to the directory walker of bc-io, the handling of
  a root, the gathering of the buffers and the vectored write.

  Parameters of the model, all fields of \<open>parallel_context\<close>: the byte arrays that
  \<open>BC_TYPED_ARRAY_DEFINE\<close> generates (\<open>array_ops\<close>), the slots of bc-concurrency (one per worker,
  \<open>None\<close> for a NULL slot, and the order \<open>foreach_slot\<close> visits them in), \<open>writev\<close>, and the walker
  itself: \<open>pc_io_walk\<close> gives, for a configuration, the sequence of callbacks it makes and the
  worker each runs on. A visit only touches the slot of its worker and the error collector, so a
  run of the threads is a sequence of whole callbacks; every statement holds for every sequence.
  Memory contexts are not modelled: they select an allocator, whose failures are those of the
  array operations.
\<close>

definition OUTPUT_INITIAL_CAPACITY :: nat where "OUTPUT_INITIAL_CAPACITY = 64 * 1024"

definition MAX_IOVEC :: nat where "MAX_IOVEC = 256"

text \<open>\<open>IOV_MAX\<close> and \<open>EINTR\<close> of the system headers.\<close>

definition IOV_MAX :: nat where "IOV_MAX = 1024"

definition EINTR :: errno where "EINTR = 4"

section \<open>External interfaces\<close>

record 'a array_ops =
  ar_zero :: 'a
  ar_reserve :: "'a \<Rightarrow> nat \<Rightarrow> bool \<times> 'a"
  ar_append_bulk :: "'a \<Rightarrow> string \<Rightarrow> bool \<times> 'a"
  ar_push :: "'a \<Rightarrow> char \<Rightarrow> bool \<times> 'a"
  ar_data :: "'a \<Rightarrow> string"

text \<open>An operation of the arrays that fails leaves the contents alone.\<close>

definition array_ok :: "'a array_ops \<Rightarrow> bool" where
  "array_ok A \<longleftrightarrow>
     ar_data A (ar_zero A) = [] \<and>
     (\<forall>a n. ar_data A (snd (ar_reserve A a n)) = ar_data A a) \<and>
     (\<forall>a bs. ar_data A (snd (ar_append_bulk A a bs)) =
        (if fst (ar_append_bulk A a bs) then ar_data A a @ bs else ar_data A a)) \<and>
     (\<forall>a c. ar_data A (snd (ar_push A a c)) =
        (if fst (ar_push A a c) then ar_data A a @ [c] else ar_data A a))"

definition array_reliable :: "'a array_ops \<Rightarrow> bool" where
  "array_reliable A \<longleftrightarrow>
     (\<forall>a n. fst (ar_reserve A a n)) \<and> (\<forall>a bs. fst (ar_append_bulk A a bs)) \<and> (\<forall>a c. fst (ar_push A a c))"

datatype walk_kind = WALK_ENTRY_FILE | WALK_ENTRY_DIRECTORY | WALK_ENTRY_SYMLINK | WALK_ENTRY_OTHER

text \<open>An entry as \<open>bc_io_walk_parallel\<close> hands it to its callbacks.\<close>

record io_walk_entry =
  we_absolute_path :: string
  we_absolute_path_length :: nat
  we_kind :: walk_kind
  we_depth :: nat
  we_file_size :: u64
  we_modification_time_seconds :: i64
  we_permission_mask :: u32
  we_stat_populated :: bool
  we_device_id :: u64

datatype callback = Visit nat io_walk_entry | On_error string errno

record io_walk_config =
  cfg_root :: string
  cfg_root_length :: nat
  cfg_follow_symlinks :: bool
  cfg_include_hidden :: bool
  cfg_should_stop_check :: "nat \<Rightarrow> bool"
  cfg_should_descend :: "io_walk_entry \<Rightarrow> bool"

datatype writev_result = Written nat | Write_failed errno

section \<open>State\<close>

record 'a worker_slot =
  slot_output_bytes :: 'a
  slot_emitted_count :: nat
  slot_initialized :: bool

text \<open>What the C context and the arguments of the walk hold and only read.\<close>

record ('w, 'a) parallel_context =
  pc_core :: bc_core
  pc_os :: os
  pc_writer :: "'w writer_ops"
  pc_array :: "'a array_ops"
  pc_predicate :: predicate
  pc_signal_handler :: "(nat \<Rightarrow> bool option) option"
  pc_follow_symlinks :: bool
  pc_one_file_system :: bool
  pc_output_separator :: char
  pc_worker_count :: "nat option"
  pc_register_slot :: bool
  pc_slots :: "nat \<Rightarrow> 'a worker_slot option"
  pc_workers :: "nat list"
  pc_io_walk :: "io_walk_config \<Rightarrow> callback list"
  pc_writev :: "nat \<Rightarrow> string list \<Rightarrow> writev_result"

text \<open>What changes: \<open>root_device_initialized\<close> and \<open>root_device\<close> are one option, the main buffer
  and its count are the root result of the code.\<close>

record 'a parallel_state =
  ps_slots :: "nat \<Rightarrow> 'a worker_slot option"
  ps_errors :: "(string \<times> errno) list"
  ps_root_device :: "u64 option"
  ps_main_output :: 'a
  ps_main_emitted_count :: nat

section \<open>Definitions\<close>

subsection \<open>Buffers of matches\<close>

definition parallel_append_match :: "'a array_ops \<Rightarrow> char \<Rightarrow> 'a \<Rightarrow> string \<Rightarrow> nat \<Rightarrow> bool \<times> 'a" where
  "parallel_append_match A separator buffer path path_length =
     (let (ok, buffer) = ar_append_bulk A buffer (take path_length path)
      in if \<not> ok then (False, buffer)
         else let (ok, buffer) = ar_push A buffer separator
              in if \<not> ok then (False, buffer) else (True, buffer))"

text \<open>The slot of the worker, ready for use, or \<open>None\<close>; the state with the slot as it then is.\<close>

definition parallel_ensure_worker_slot ::
  "('w, 'a) parallel_context \<Rightarrow> nat \<Rightarrow> 'a parallel_state \<Rightarrow> 'a worker_slot option \<times> 'a parallel_state" where
  "parallel_ensure_worker_slot ctx worker st =
     (case ps_slots st worker of
        None \<Rightarrow> (None, st)
      | Some slot \<Rightarrow>
          if \<not> slot_initialized slot then
            (let (ok, bytes) = ar_reserve (pc_array ctx) (ar_zero (pc_array ctx)) OUTPUT_INITIAL_CAPACITY;
                 slot = slot\<lparr>slot_output_bytes := bytes\<rparr>
             in if \<not> ok then (None, st\<lparr>ps_slots := (ps_slots st)(worker := Some slot)\<rparr>)
                else let slot = slot\<lparr>slot_emitted_count := 0, slot_initialized := True\<rparr>
                  in (Some slot, st\<lparr>ps_slots := (ps_slots st)(worker := Some slot)\<rparr>))
          else (Some slot, st))"

definition parallel_record_error :: "string \<Rightarrow> errno \<Rightarrow> 'a parallel_state \<Rightarrow> 'a parallel_state" where
  "parallel_record_error path e st = st\<lparr>ps_errors := ps_errors st @ [(path, e)]\<rparr>"

definition parallel_is_hidden_name :: "string \<Rightarrow> bool" where
  "parallel_is_hidden_name name \<longleftrightarrow> char_at name 0 = CHR ''.''"

definition parallel_type_from_walk_kind :: "walk_kind \<Rightarrow> entry_type" where
  "parallel_type_from_walk_kind kind =
     (case kind of WALK_ENTRY_FILE \<Rightarrow> ENTRY_TYPE_FILE
      | WALK_ENTRY_DIRECTORY \<Rightarrow> ENTRY_TYPE_DIRECTORY
      | WALK_ENTRY_SYMLINK \<Rightarrow> ENTRY_TYPE_SYMLINK
      | WALK_ENTRY_OTHER \<Rightarrow> ENTRY_TYPE_ANY)"

text \<open>The basename is a pointer into the path: the C string from there on, and a length.\<close>

definition parallel_basename :: "bc_core \<Rightarrow> string \<Rightarrow> nat \<Rightarrow> string \<times> nat" where
  "parallel_basename C path path_length =
     (case core_find_last_byte C path path_length slash of
        Some last_slash_offset \<Rightarrow> (drop (last_slash_offset + 1) path, path_length - (last_slash_offset + 1))
      | None \<Rightarrow> (path, path_length))"

subsection \<open>The callbacks\<close>

definition off_device :: "('w, 'a) parallel_context \<Rightarrow> u64 option \<Rightarrow> io_walk_entry \<Rightarrow> bool" where
  "off_device ctx root_device entry \<longleftrightarrow>
     pc_one_file_system ctx \<and> root_device \<noteq> None \<and> Some (we_device_id entry) \<noteq> root_device"

definition parallel_candidate :: "('w, 'a) parallel_context \<Rightarrow> io_walk_entry \<Rightarrow> candidate" where
  "parallel_candidate ctx entry =
     (let (basename, basename_length) =
            parallel_basename (pc_core ctx) (we_absolute_path entry) (we_absolute_path_length entry);
          entry_type = parallel_type_from_walk_kind (we_kind entry)
      in \<lparr>cand_path = we_absolute_path entry, cand_path_length = we_absolute_path_length entry,
          cand_basename = basename, cand_basename_length = basename_length,
          cand_depth = we_depth entry, cand_entry_type = entry_type,
          cand_type_resolved = (entry_type \<noteq> ENTRY_TYPE_ANY),
          cand_size_bytes = we_file_size entry,
          cand_modification_time = we_modification_time_seconds entry,
          cand_permission_mask = we_permission_mask entry,
          cand_stat_populated = we_stat_populated entry,
          cand_follow_symlinks_enabled = pc_follow_symlinks ctx,
          cand_parent_directory_fd = AT_FDCWD\<rparr>)"

definition parallel_visit ::
  "('w, 'a) parallel_context \<Rightarrow> nat \<Rightarrow> io_walk_entry \<Rightarrow> 'a parallel_state \<Rightarrow> bool \<times> 'a parallel_state" where
  "parallel_visit ctx worker entry st =
     (if off_device ctx (ps_root_device st) entry then (True, st)
      else let (slot_or_null, st) = parallel_ensure_worker_slot ctx worker st in
        case slot_or_null of
          None \<Rightarrow> (False, st)
        | Some slot \<Rightarrow>
            (let (decision, c) = filter_evaluate (pc_os ctx) (pc_predicate ctx) (parallel_candidate ctx entry)
             in if decision \<noteq> DECISION_ACCEPT then (True, st)
                else let (ok, bytes) = parallel_append_match (pc_array ctx) (pc_output_separator ctx)
                           (slot_output_bytes slot) (we_absolute_path entry) (we_absolute_path_length entry);
                         slot = slot\<lparr>slot_output_bytes := bytes\<rparr>
                  in if \<not> ok then
                       (True, parallel_record_error (we_absolute_path entry) ENOMEM
                                (st\<lparr>ps_slots := (ps_slots st)(worker := Some slot)\<rparr>))
                     else (True, st\<lparr>ps_slots := (ps_slots st)
                             (worker := Some (slot\<lparr>slot_emitted_count := slot_emitted_count slot + 1\<rparr>))\<rparr>)))"

definition parallel_should_descend :: "('w, 'a) parallel_context \<Rightarrow> u64 option \<Rightarrow> io_walk_entry \<Rightarrow> bool" where
  "parallel_should_descend ctx root_device entry =
     (if pred_has_max_depth (pc_predicate ctx) \<and> we_depth entry \<ge> pred_max_depth (pc_predicate ctx) then False
      else let (basename, basename_length) =
                 parallel_basename (pc_core ctx) (we_absolute_path entry) (we_absolute_path_length entry)
        in if pred_respect_ignore_defaults (pc_predicate ctx) \<and>
              filter_ignored_directory_name (pc_core ctx) basename basename_length then False
           else if \<not> pred_include_hidden (pc_predicate ctx) \<and> parallel_is_hidden_name basename then False
           else if off_device ctx root_device entry then False
           else True)"

definition parallel_on_error :: "string \<Rightarrow> errno \<Rightarrow> 'a parallel_state \<Rightarrow> 'a parallel_state" where
  "parallel_on_error path errno_value st = parallel_record_error path errno_value st"

text \<open>The \<open>k\<close>-th query of the handler by the walker.\<close>

definition parallel_should_stop_check :: "(nat \<Rightarrow> bool option) option \<Rightarrow> nat \<Rightarrow> bool" where
  "parallel_should_stop_check handler k =
     (case handler of None \<Rightarrow> False | Some should_stop \<Rightarrow> should_stop k = Some True)"

fun run_callbacks :: "('w, 'a) parallel_context \<Rightarrow> callback list \<Rightarrow> 'a parallel_state \<Rightarrow> 'a parallel_state" where
  "run_callbacks ctx [] st = st"
| "run_callbacks ctx (Visit worker entry # cs) st = run_callbacks ctx cs (snd (parallel_visit ctx worker entry st))"
| "run_callbacks ctx (On_error path e # cs) st = run_callbacks ctx cs (parallel_on_error path e st)"

subsection \<open>A root\<close>

fun strip_trailing_slashes :: "string \<Rightarrow> nat \<Rightarrow> nat" where
  "strip_trailing_slashes root_path root_path_length =
     (if root_path_length > 1 \<and> root_path ! (root_path_length - 1) = slash
      then strip_trailing_slashes root_path (root_path_length - 1) else root_path_length)"

declare strip_trailing_slashes.simps [simp del]

definition parallel_root_match ::
  "('w, 'a) parallel_context \<Rightarrow> string \<Rightarrow> nat \<Rightarrow> candidate \<Rightarrow> 'a parallel_state \<Rightarrow> 'a parallel_state" where
  "parallel_root_match ctx root_path root_path_length c st =
     (let (decision, c) = filter_evaluate (pc_os ctx) (pc_predicate ctx) c
      in if decision = DECISION_ACCEPT then
           (let (ok, bytes) = parallel_append_match (pc_array ctx) (pc_output_separator ctx)
                  (ps_main_output st) root_path root_path_length;
                st = st\<lparr>ps_main_output := bytes\<rparr>
            in if \<not> ok then parallel_record_error root_path ENOMEM st
               else st\<lparr>ps_main_emitted_count := ps_main_emitted_count st + 1\<rparr>)
         else st)"

definition parallel_handle_root ::
  "('w, 'a) parallel_context \<Rightarrow> string \<Rightarrow> 'a parallel_state \<Rightarrow> bool \<times> 'a parallel_state" where
  "parallel_handle_root ctx root_path st =
     (case sys_fstatat (pc_os ctx) AT_FDCWD root_path (pc_follow_symlinks ctx) of
        Inl e \<Rightarrow> (False, parallel_record_error root_path e st)
      | Inr root_stat \<Rightarrow>
          (case core_length (pc_core ctx) root_path NUL of
            None \<Rightarrow> (False, parallel_record_error root_path EINVAL st)
          | Some full_length \<Rightarrow>
              (let root_path_length = strip_trailing_slashes root_path full_length;
                   root_type = type_of_mode (st_mode root_stat);
                   st = (if pc_one_file_system ctx \<and> ps_root_device st = None
                         then st\<lparr>ps_root_device := Some (st_dev root_stat)\<rparr> else st);
                   (basename, basename_length) = parallel_basename (pc_core ctx) root_path root_path_length;
                   st = parallel_root_match ctx root_path root_path_length
                          (root_candidate root_path root_path_length basename basename_length root_stat) st
               in if root_type \<noteq> ENTRY_TYPE_DIRECTORY then (True, st)
                  else if pred_has_max_depth (pc_predicate ctx) \<and> pred_max_depth (pc_predicate ctx) = 0
                    then (True, st)
                  else let config = \<lparr>cfg_root = root_path, cfg_root_length = root_path_length,
                               cfg_follow_symlinks = pc_follow_symlinks ctx,
                               cfg_include_hidden = pred_include_hidden (pc_predicate ctx),
                               cfg_should_stop_check = parallel_should_stop_check (pc_signal_handler ctx),
                               cfg_should_descend = parallel_should_descend ctx (ps_root_device st)\<rparr>
                    in (True, run_callbacks ctx (pc_io_walk ctx config) st))))"

fun parallel_roots ::
  "('w, 'a) parallel_context \<Rightarrow> string list \<Rightarrow> bool \<Rightarrow> 'a parallel_state \<Rightarrow> bool \<times> 'a parallel_state" where
  "parallel_roots ctx [] any_root_ok st = (any_root_ok, st)"
| "parallel_roots ctx (root_path # roots) any_root_ok st =
     (let (ok, st) = parallel_handle_root ctx root_path st
      in parallel_roots ctx roots (if \<not> ok then False else any_root_ok) st)"

subsection \<open>Gathering and writing\<close>

record iovec_builder =
  ib_iov :: "string list"
  ib_total_emitted :: nat

definition parallel_collect_slot_iovec ::
  "('w, 'a) parallel_context \<Rightarrow> 'a worker_slot \<Rightarrow> iovec_builder \<Rightarrow> iovec_builder" where
  "parallel_collect_slot_iovec ctx slot builder =
     (if \<not> slot_initialized slot \<or> length (ar_data (pc_array ctx) (slot_output_bytes slot)) = 0 \<or>
         length (ib_iov builder) \<ge> MAX_IOVEC then builder
      else builder\<lparr>ib_iov := ib_iov builder @ [ar_data (pc_array ctx) (slot_output_bytes slot)],
                   ib_total_emitted := ib_total_emitted builder + slot_emitted_count slot\<rparr>)"

fun foreach_slot ::
  "('w, 'a) parallel_context \<Rightarrow> nat list \<Rightarrow> 'a parallel_state \<Rightarrow> iovec_builder \<Rightarrow> iovec_builder" where
  "foreach_slot ctx [] st builder = builder"
| "foreach_slot ctx (worker # workers) st builder =
     foreach_slot ctx workers st
       (case ps_slots st worker of
          None \<Rightarrow> builder
        | Some slot \<Rightarrow> parallel_collect_slot_iovec ctx slot builder)"

text \<open>The inner loop: what is left of the vector when \<open>remaining\<close> bytes were written.\<close>

fun advance_iovec :: "nat \<Rightarrow> string list \<Rightarrow> string list" where
  "advance_iovec remaining [] = []"
| "advance_iovec remaining (base # iov) =
     (if remaining = 0 then base # iov
      else if remaining \<ge> length base then advance_iovec (remaining - length base) iov
      else drop remaining base # iov)"

text \<open>The outer loop on fuel; \<open>calls\<close> counts the calls of \<open>writev\<close>, \<open>sent\<close> is what they have
  written. A vector of zero bytes that makes no progress repeats, as in the code.\<close>

primrec write_all_iovec ::
  "nat \<Rightarrow> (nat \<Rightarrow> string list \<Rightarrow> writev_result) \<Rightarrow> nat \<Rightarrow> string list \<Rightarrow> string \<Rightarrow> (bool \<times> string) option" where
  "write_all_iovec 0 writev calls iov sent = None"
| "write_all_iovec (Suc fuel) writev calls iov sent =
     (if iov = [] then Some (True, sent)
      else let clamped = take IOV_MAX iov in
        case writev calls clamped of
          Write_failed e \<Rightarrow>
            if e = EINTR then write_all_iovec fuel writev (calls + 1) iov sent else Some (False, sent)
        | Written n \<Rightarrow>
            write_all_iovec fuel writev (calls + 1) (advance_iovec n iov) (sent @ take n (concat clamped)))"

subsection \<open>The walk\<close>

definition sequential_context :: "('w, 'a) parallel_context \<Rightarrow> 'w walk_context" where
  "sequential_context ctx = \<lparr>wc_core = pc_core ctx, wc_os = pc_os ctx, wc_writer = pc_writer ctx,
     wc_predicate = pc_predicate ctx, wc_signal_handler = pc_signal_handler ctx,
     wc_follow_symlinks = pc_follow_symlinks ctx, wc_one_file_system = pc_one_file_system ctx\<rparr>"

definition main_builder :: "('w, 'a) parallel_context \<Rightarrow> 'a parallel_state \<Rightarrow> iovec_builder" where
  "main_builder ctx st =
     (let data = ar_data (pc_array ctx) (ps_main_output st)
      in if length data > 0 then \<lparr>ib_iov = [data], ib_total_emitted = ps_main_emitted_count st\<rparr>
         else \<lparr>ib_iov = [], ib_total_emitted = 0\<rparr>)"

text \<open>The gathered buffers are written past the buffered writer, after flushing it; the result is
  whether that succeeded, the output and the bytes written by \<open>writev\<close>.\<close>

definition parallel_merge ::
  "nat \<Rightarrow> ('w, 'a) parallel_context \<Rightarrow> iovec_builder \<Rightarrow> 'w seek_output \<Rightarrow> (bool \<times> 'w seek_output \<times> string) option" where
  "parallel_merge fuel ctx builder out =
     (if length (ib_iov builder) > 0 then
        (let (merge_ok, w) = wr_flush (pc_writer ctx) (out_writer out);
             out = out\<lparr>out_writer := w, out_emitted_count := out_emitted_count out + ib_total_emitted builder\<rparr>
         in if \<not> merge_ok then Some (False, out, [])
            else case write_all_iovec fuel (pc_writev ctx) 0 (ib_iov builder) [] of
                None \<Rightarrow> None
              | Some (ok, sent) \<Rightarrow> Some (ok, out, sent))
      else Some (True, out\<lparr>out_emitted_count := out_emitted_count out + ib_total_emitted builder\<rparr>, []))"

text \<open>What a walk leaves: result, output, errors, and the bytes written past the writer.\<close>

record 'w walk_result =
  res_ok :: bool
  res_output :: "'w seek_output"
  res_errors :: "(string \<times> errno) list"
  res_sent :: string

definition walk_parallel ::
  "nat \<Rightarrow> ('w, 'a) parallel_context \<Rightarrow> string list \<Rightarrow> 'w seek_output \<Rightarrow> (string \<times> errno) list \<Rightarrow> 'w walk_result option" where
  "walk_parallel fuel ctx root_paths out errors =
     (if (case pc_worker_count ctx of None \<Rightarrow> True | Some n \<Rightarrow> n < 2) then
        (case walk_sequential (sequential_context ctx) root_paths out errors of
           None \<Rightarrow> None
         | Some (ok, st) \<Rightarrow> Some \<lparr>res_ok = ok, res_output = ws_output st, res_errors = ws_errors st, res_sent = []\<rparr>)
      else let ctx = ctx\<lparr>pc_output_separator := out_separator out\<rparr> in
        if \<not> pc_register_slot ctx then Some \<lparr>res_ok = False, res_output = out, res_errors = errors, res_sent = []\<rparr>
        else let (reserved, main) = ar_reserve (pc_array ctx) (ar_zero (pc_array ctx)) OUTPUT_INITIAL_CAPACITY in
          if \<not> reserved then Some \<lparr>res_ok = False, res_output = out, res_errors = errors, res_sent = []\<rparr>
          else let st = \<lparr>ps_slots = pc_slots ctx, ps_errors = errors, ps_root_device = None,
                         ps_main_output = main, ps_main_emitted_count = 0\<rparr>;
                   (any_root_ok, st) = parallel_roots ctx (if root_paths = [] then [''.''] else root_paths) True st;
                   builder = foreach_slot ctx (pc_workers ctx) st (main_builder ctx st)
            in case parallel_merge fuel ctx builder out of
                 None \<Rightarrow> None
               | Some (merge_ok, out, sent) \<Rightarrow>
                   Some \<lparr>res_ok = any_root_ok \<and> merge_ok, res_output = out, res_errors = ps_errors st, res_sent = sent\<rparr>)"

section \<open>The buffers as sinks\<close>

lemma array_okD:
  assumes "array_ok A"
  shows "ar_data A (ar_zero A) = []" "ar_reserve A a n = (ok, a') \<Longrightarrow> ar_data A a' = ar_data A a"
    "ar_append_bulk A a bs = (ok, a') \<Longrightarrow> ar_data A a' = (if ok then ar_data A a @ bs else ar_data A a)"
    "ar_push A a c = (ok, a') \<Longrightarrow> ar_data A a' = (if ok then ar_data A a @ [c] else ar_data A a)"
proof -
  note A = assms [unfolded array_ok_def]
  show "ar_data A (ar_zero A) = []" using A by blast
  show "ar_reserve A a n = (ok, a') \<Longrightarrow> ar_data A a' = ar_data A a" using A by (metis snd_conv)
  show "ar_append_bulk A a bs = (ok, a') \<Longrightarrow> ar_data A a' = (if ok then ar_data A a @ bs else ar_data A a)"
    using A by (metis fst_conv snd_conv)
  show "ar_push A a c = (ok, a') \<Longrightarrow> ar_data A a' = (if ok then ar_data A a @ [c] else ar_data A a)"
    using A by (metis fst_conv snd_conv)
qed

lemma array_reliableD:
  assumes "array_reliable A"
  shows "ar_reserve A a n \<noteq> (False, a')" "ar_append_bulk A a bs \<noteq> (False, a')" "ar_push A a c \<noteq> (False, a')"
proof -
  note A = assms [unfolded array_reliable_def]
  show "ar_reserve A a n \<noteq> (False, a')" using A by (metis fst_conv)
  show "ar_append_bulk A a bs \<noteq> (False, a')" using A by (metis fst_conv)
  show "ar_push A a c \<noteq> (False, a')" using A by (metis fst_conv)
qed

lemma append_match_cases:
  assumes "array_ok A" "parallel_append_match A sep a path n = (ok, a')"
  shows "ar_data A a' = ar_data A a @ (if ok then take n path @ [sep] else []) \<or>
    \<not> ok \<and> ar_data A a' = ar_data A a @ take n path"
  using assms(2) array_okD(3,4) [OF assms(1)]
  by (auto simp: parallel_append_match_def Let_def split: prod.splits if_splits)

interpretation array_sink: match_sink "\<lambda>(A, sep). array_ok A" "\<lambda>(A, sep). parallel_append_match A sep"
    "\<lambda>(A, sep). ar_data A" "\<lambda>(A, sep) a. sep"
proof (unfold_locales, goal_cases)
  case (1 P n path s s')
  then show ?case using append_match_cases by (fastforce split: prod.splits)
next
  case (2 P s path n ok s')
  then show ?case by (cases P) simp
next
  case (3 P n path s s')
  obtain A sep where P: "P = (A, sep)" by (cases P) auto
  then have "ar_data A s' = ar_data A s \<or> ar_data A s' = ar_data A s @ take n path"
    using append_match_cases [of A sep s path n False s'] 3 by auto
  then have "ar_data A s' = ar_data A s @ take 0 (take n path @ [sep]) \<or>
    ar_data A s' = ar_data A s @ take n (take n path @ [sep])"
    using 3(2) by simp
  then show ?case unfolding P prod.case by blast
qed

lemma append_match_reliable: "array_reliable A \<Longrightarrow> parallel_append_match A sep a path n \<noteq> (False, a')"
  using array_reliableD by (fastforce simp: parallel_append_match_def Let_def split: prod.splits if_splits)

end
