(* ===== verification/Seek_Parallel_Spec.thy ===== *)
theory Seek_Parallel_Spec
  imports Seek_Parallel Seek_Walk_Spec "HOL-Library.Multiset"
begin

text \<open>
  What the parallel walk writes. Each slot holds the lines of the entries its worker accepted, in
  the order of its visits; the vector gathers the buffer of the roots and those of the workers;
  the write loop delivers the vector whatever the sizes of the partial writes. Together: for any
  interleaving and any assignment of entries to workers the bytes written are the lines of a
  permutation of the accepted roots and entries.
\<close>

section \<open>The write loop\<close>

lemma advance_iovec_concat:
  "n \<le> length (concat iov) \<Longrightarrow> concat (advance_iovec n iov) = drop n (concat iov)"
  by (induction n iov rule: advance_iovec.induct) auto

lemma advance_iovec_length: "length (advance_iovec n iov) \<le> length iov"
  by (induction n iov rule: advance_iovec.induct) auto

lemma advance_iovec_nonempty:
  "\<forall>base \<in> set iov. base \<noteq> [] \<Longrightarrow> \<forall>base \<in> set (advance_iovec n iov). base \<noteq> []"
  by (induction n iov rule: advance_iovec.induct) auto

text \<open>What \<open>writev\<close> is documented to do: it writes at most the bytes given, and at least one when
  there is one; it is interrupted finitely often.\<close>

definition writev_ok :: "(nat \<Rightarrow> string list \<Rightarrow> writev_result) \<Rightarrow> bool" where
  "writev_ok writev \<longleftrightarrow> (\<forall>k iov n. writev k iov = Written n \<longrightarrow>
     n \<le> length (concat iov) \<and> (concat iov \<noteq> [] \<longrightarrow> 0 < n))"

definition interrupted_before :: "nat \<Rightarrow> (nat \<Rightarrow> string list \<Rightarrow> writev_result) \<Rightarrow> bool" where
  "interrupted_before m writev \<longleftrightarrow> (\<forall>k \<ge> m. \<forall>iov. writev k iov \<noteq> Write_failed EINTR)"

text \<open>Whatever is written is a first part of the vector; all of it exactly when the loop succeeds.\<close>

lemma concat_take_prefix: "length (concat (take m iov)) \<le> length (concat iov)"
  by (metis append_take_drop_id concat_append le_add1 length_append)

lemma take_concat_take:
  assumes "n \<le> length (concat (take m iov))"
  shows "take n (concat (take m iov)) = take n (concat iov)"
proof -
  have "concat iov = concat (take m iov) @ concat (drop m iov)"
    by (metis append_take_drop_id concat_append)
  then show ?thesis using assms by simp
qed

lemma write_all_sound:
  assumes "writev_ok writev"
  shows "write_all_iovec fuel writev k iov sent = Some (ok, sent') \<Longrightarrow>
    \<exists>n. sent' = sent @ take n (concat iov) \<and> (ok \<longrightarrow> sent' = sent @ concat iov)"
proof (induction fuel arbitrary: k iov sent)
  case 0
  then show ?case by simp
next
  case (Suc fuel)
  show ?case
  proof (cases "iov = []")
    case True
    then show ?thesis using Suc.prems by auto
  next
    case False
    show ?thesis
    proof (cases "writev k (take IOV_MAX iov)")
      case (Written n)
      then have n: "n \<le> length (concat (take IOV_MAX iov))" using assms by (auto simp: writev_ok_def)
      then have all: "n \<le> length (concat iov)" using concat_take_prefix le_trans by blast
      have "write_all_iovec fuel writev (k + 1) (advance_iovec n iov) (sent @ take n (concat iov)) = Some (ok, sent')"
        using Suc.prems False Written take_concat_take [OF n] by (simp add: Let_def)
      from Suc.IH [OF this] obtain m where m: "sent' = (sent @ take n (concat iov)) @ take m (drop n (concat iov))"
        "ok \<longrightarrow> sent' = (sent @ take n (concat iov)) @ drop n (concat iov)"
        unfolding advance_iovec_concat [OF all] by auto
      have "sent' = sent @ take (n + m) (concat iov)" using m(1) by (simp add: take_add)
      moreover have "ok \<longrightarrow> sent' = sent @ concat iov" using m(2) by simp
      ultimately show ?thesis by blast
    next
      case (Write_failed e)
      then show ?thesis using Suc False by (auto simp: Let_def split: if_splits intro: exI [of _ 0])
    qed
  qed
qed

text \<open>Fuel for one call per byte and per interrupt suffices.\<close>

lemma write_all_total:
  assumes "writev_ok writev" "interrupted_before m writev"
  shows "\<forall>base \<in> set iov. base \<noteq> [] \<Longrightarrow> length (concat iov) + (m - k) < fuel \<Longrightarrow>
    write_all_iovec fuel writev k iov sent \<noteq> None"
proof (induction fuel arbitrary: k iov sent)
  case 0
  then show ?case by simp
next
  case (Suc fuel)
  show ?case
  proof (cases iov)
    case Nil
    then show ?thesis by simp
  next
    case (Cons base rest)
    then have "take IOV_MAX iov = base # take (IOV_MAX - 1) rest" by (simp add: IOV_MAX_def take_Cons')
    then have ne: "concat (take IOV_MAX iov) \<noteq> []" using Suc.prems(1) Cons by simp
    show ?thesis
    proof (cases "writev k (take IOV_MAX iov)")
      case (Written n)
      then have n: "n \<le> length (concat (take IOV_MAX iov))" "0 < n" using assms(1) ne by (auto simp: writev_ok_def)
      then have all: "n \<le> length (concat iov)" using concat_take_prefix le_trans by blast
      have "length (concat (advance_iovec n iov)) + (m - (k + 1)) < fuel"
        using advance_iovec_concat [OF all] Suc.prems(2) n(2) all by simp
      from Suc.IH [OF advance_iovec_nonempty [OF Suc.prems(1)] this] show ?thesis
        using Written Cons by (simp add: Let_def del: not_None_eq advance_iovec.simps)
    next
      case (Write_failed e)
      have "length (concat iov) + (m - (k + 1)) < fuel" if "e = EINTR"
      proof -
        have "k < m" using assms(2) Write_failed that by (auto simp: interrupted_before_def not_le [symmetric])
        then show ?thesis using Suc.prems(2) by linarith
      qed
      then show ?thesis using Write_failed Suc.IH [OF Suc.prems(1)] Cons
        by (auto simp: Let_def simp del: not_None_eq)
    qed
  qed
qed

section \<open>What the callbacks accept\<close>

definition entry_line :: "io_walk_entry \<Rightarrow> string" where
  "entry_line entry = take (we_absolute_path_length entry) (we_absolute_path entry)"

definition parallel_accepts :: "('w, 'a) parallel_context \<Rightarrow> u64 option \<Rightarrow> io_walk_entry \<Rightarrow> bool" where
  "parallel_accepts ctx dev entry \<longleftrightarrow>
     \<not> off_device ctx dev entry \<and>
     fst (filter_evaluate (pc_os ctx) (pc_predicate ctx) (parallel_candidate ctx entry)) = DECISION_ACCEPT"

text \<open>The lines of a sequence of callbacks, of all workers and of one.\<close>

fun accepted_lines :: "('w, 'a) parallel_context \<Rightarrow> u64 option \<Rightarrow> callback list \<Rightarrow> string list" where
  "accepted_lines ctx dev [] = []"
| "accepted_lines ctx dev (Visit worker entry # cs) =
     (if parallel_accepts ctx dev entry then [entry_line entry] else []) @ accepted_lines ctx dev cs"
| "accepted_lines ctx dev (On_error p e # cs) = accepted_lines ctx dev cs"

fun lines_of_worker :: "('w, 'a) parallel_context \<Rightarrow> u64 option \<Rightarrow> nat \<Rightarrow> callback list \<Rightarrow> string list" where
  "lines_of_worker ctx dev w [] = []"
| "lines_of_worker ctx dev w (Visit worker entry # cs) =
     (if worker = w \<and> parallel_accepts ctx dev entry then [entry_line entry] else []) @ lines_of_worker ctx dev w cs"
| "lines_of_worker ctx dev w (On_error p e # cs) = lines_of_worker ctx dev w cs"

definition visits_within :: "nat list \<Rightarrow> callback list \<Rightarrow> bool" where
  "visits_within workers cs \<longleftrightarrow> (\<forall>worker entry. Visit worker entry \<in> set cs \<longrightarrow> worker \<in> set workers)"

lemma visits_within_simps [simp]:
  "visits_within ws []" "visits_within ws (Visit w e # cs) \<longleftrightarrow> w \<in> set ws \<and> visits_within ws cs"
  "visits_within ws (On_error p err # cs) \<longleftrightarrow> visits_within ws cs"
  by (auto simp: visits_within_def)

text \<open>The workers together accept every entry once.\<close>

lemma sum_lines_of_workers:
  assumes "visits_within workers cs"
  shows "(\<Sum>w \<in> set workers. mset (lines_of_worker ctx dev w cs)) = mset (accepted_lines ctx dev cs)"
  using assms
proof (induction cs rule: accepted_lines.induct)
  case (1 ctx dev)
  then show ?case by simp
next
  case (2 ctx dev worker entry cs)
  let ?one = "if parallel_accepts ctx dev entry then {#entry_line entry#} else {#}"
  have "(\<Sum>w \<in> set workers. mset (lines_of_worker ctx dev w (Visit worker entry # cs))) =
    (\<Sum>w \<in> set workers. (if w = worker then ?one else {#}) + mset (lines_of_worker ctx dev w cs))"
    by (intro sum.cong) auto
  also have "\<dots> = ?one + mset (accepted_lines ctx dev cs)"
    using 2 by (simp add: sum.distrib)
  finally show ?case by simp
next
  case (3 ctx dev p e cs)
  then show ?case by simp
qed

section \<open>The slots\<close>

definition slot_holds :: "('w, 'a) parallel_context \<Rightarrow> 'a worker_slot option \<Rightarrow> string list \<Rightarrow> bool" where
  "slot_holds ctx slot_or_null ls \<longleftrightarrow> (case slot_or_null of None \<Rightarrow> False | Some slot \<Rightarrow>
     if slot_initialized slot
     then ar_data (pc_array ctx) (slot_output_bytes slot) = lines_of (pc_output_separator ctx) ls \<and>
          slot_emitted_count slot = length ls
     else ls = [])"

definition reliable :: "('w, 'a) parallel_context \<Rightarrow> bool" where
  "reliable ctx \<longleftrightarrow> array_ok (pc_array ctx) \<and> array_reliable (pc_array ctx)"

lemma ensure_slot:
  assumes r: "reliable ctx" and h: "slot_holds ctx (ps_slots st worker) ls"
  shows "\<exists>slot. parallel_ensure_worker_slot ctx worker st =
      (Some slot, st\<lparr>ps_slots := (ps_slots st)(worker := Some slot)\<rparr>) \<and>
    slot_initialized slot \<and> slot_holds ctx (Some slot) ls"
proof -
  obtain slot where slot: "ps_slots st worker = Some slot" using h by (auto simp: slot_holds_def split: option.splits)
  show ?thesis
  proof (cases "slot_initialized slot")
    case True
    then have "(ps_slots st)(worker := Some slot) = ps_slots st" using slot by auto
    then show ?thesis using True slot h by (auto simp: parallel_ensure_worker_slot_def slot_holds_def)
  next
    case False
    obtain ok bytes where res: "ar_reserve (pc_array ctx) (ar_zero (pc_array ctx)) OUTPUT_INITIAL_CAPACITY = (ok, bytes)"
      by fastforce
    have "ok"
      using array_reliableD(1) [of "pc_array ctx" "ar_zero (pc_array ctx)" OUTPUT_INITIAL_CAPACITY bytes] res r
      by (cases ok) (auto simp: reliable_def)
    moreover have "ar_data (pc_array ctx) bytes = []"
      using array_okD(1,2) res r by (fastforce simp: reliable_def)
    ultimately show ?thesis using False slot h res
      by (intro exI [of _ "slot\<lparr>slot_output_bytes := bytes, slot_emitted_count := 0, slot_initialized := True\<rparr>"])
        (simp add: parallel_ensure_worker_slot_def slot_holds_def Let_def)
  qed
qed

text \<open>A visit changes the slot of its worker only, by the line of the entry if it is accepted.\<close>

lemma visit_slot:
  assumes r: "reliable ctx" and h: "slot_holds ctx (ps_slots st worker) ls"
  shows "\<exists>slot. snd (parallel_visit ctx worker entry st) = st\<lparr>ps_slots := (ps_slots st)(worker := Some slot)\<rparr> \<and>
    slot_holds ctx (Some slot)
      (ls @ (if parallel_accepts ctx (ps_root_device st) entry then [entry_line entry] else []))"
proof (cases "off_device ctx (ps_root_device st) entry")
  case True
  obtain slot where slot: "ps_slots st worker = Some slot" using h by (auto simp: slot_holds_def split: option.splits)
  then have same: "st\<lparr>ps_slots := (ps_slots st)(worker := Some slot)\<rparr> = st" by (simp add: fun_upd_idem)
  show ?thesis using True slot h
    by (intro exI [of _ slot]) (simp only: same, simp add: parallel_visit_def parallel_accepts_def)
next
  case False
  obtain slot where en: "parallel_ensure_worker_slot ctx worker st =
      (Some slot, st\<lparr>ps_slots := (ps_slots st)(worker := Some slot)\<rparr>)"
    and init: "slot_initialized slot" and hs: "slot_holds ctx (Some slot) ls"
    using ensure_slot [OF r h] by blast
  obtain d c where ev: "filter_evaluate (pc_os ctx) (pc_predicate ctx) (parallel_candidate ctx entry) = (d, c)" by fastforce
  show ?thesis
  proof (cases "d = DECISION_ACCEPT")
    case True
    obtain ok bytes where ap: "parallel_append_match (pc_array ctx) (pc_output_separator ctx) (slot_output_bytes slot)
        (we_absolute_path entry) (we_absolute_path_length entry) = (ok, bytes)" by fastforce
    then have ok: "ok"
      using append_match_reliable [of "pc_array ctx" "pc_output_separator ctx" "slot_output_bytes slot"
          "we_absolute_path entry" "we_absolute_path_length entry" bytes] r
      by (cases ok) (auto simp: reliable_def)
    have "ar_data (pc_array ctx) bytes = ar_data (pc_array ctx) (slot_output_bytes slot) @
        entry_line entry @ [pc_output_separator ctx]"
      using append_match_cases [OF _ ap] ok r by (simp add: reliable_def entry_line_def)
    then show ?thesis
      using True False en ev ap ok init hs
      by (auto simp: parallel_visit_def parallel_accepts_def slot_holds_def)
  next
    case rejected: False
    then show ?thesis using False en ev hs
      by (auto simp: parallel_visit_def parallel_accepts_def)
  qed
qed

lemma run_callbacks_slots:
  assumes r: "reliable ctx"
  shows "visits_within workers cs \<Longrightarrow> \<forall>w \<in> set workers. slot_holds ctx (ps_slots st w) (f w) \<Longrightarrow>
    (\<forall>w \<in> set workers. slot_holds ctx (ps_slots (run_callbacks ctx cs st) w)
       (f w @ lines_of_worker ctx (ps_root_device st) w cs)) \<and>
    ps_root_device (run_callbacks ctx cs st) = ps_root_device st \<and>
    ps_main_output (run_callbacks ctx cs st) = ps_main_output st \<and>
    ps_main_emitted_count (run_callbacks ctx cs st) = ps_main_emitted_count st"
proof (induction cs arbitrary: st f)
  case Nil
  then show ?case by simp
next
  case (Cons c cs)
  show ?case
  proof (cases c)
    case (Visit worker entry)
    then have w: "worker \<in> set workers" and rest: "visits_within workers cs" using Cons.prems(1) by auto
    let ?new = "if parallel_accepts ctx (ps_root_device st) entry then [entry_line entry] else []"
    obtain slot where v: "snd (parallel_visit ctx worker entry st) = st\<lparr>ps_slots := (ps_slots st)(worker := Some slot)\<rparr>"
      and hs: "slot_holds ctx (Some slot) (f worker @ ?new)"
      using visit_slot [OF r, of st worker "f worker" entry] Cons.prems(2) w by blast
    let ?f = "f(worker := f worker @ ?new)"
    have "\<forall>w \<in> set workers. slot_holds ctx (ps_slots (snd (parallel_visit ctx worker entry st)) w) (?f w)"
      using hs Cons.prems(2) by (simp add: v split: if_splits)
    note IH = Cons.IH [OF rest this]
    have lines: "?f w @ lines_of_worker ctx (ps_root_device st) w cs =
        f w @ lines_of_worker ctx (ps_root_device st) w (c # cs)" for w
      unfolding Visit by simp
    have run: "run_callbacks ctx (c # cs) st = run_callbacks ctx cs (snd (parallel_visit ctx worker entry st))"
      unfolding Visit by simp
    have dev: "ps_root_device (snd (parallel_visit ctx worker entry st)) = ps_root_device st"
      "ps_main_output (snd (parallel_visit ctx worker entry st)) = ps_main_output st"
      "ps_main_emitted_count (snd (parallel_visit ctx worker entry st)) = ps_main_emitted_count st"
      by (simp_all add: v)
    show ?thesis using IH unfolding run dev lines .
  next
    case (On_error p e)
    have "\<forall>w \<in> set workers. slot_holds ctx (ps_slots (parallel_on_error p e st) w) (f w)"
      using Cons.prems(2) by (simp add: parallel_on_error_def parallel_record_error_def)
    from Cons.IH [OF _ this] Cons.prems(1) show ?thesis
      unfolding On_error by (simp add: parallel_on_error_def parallel_record_error_def)
  qed
qed

section \<open>The roots\<close>

text \<open>The matches of a root: itself and what the callbacks of its walk accept.\<close>

definition root_config :: "('w, 'a) parallel_context \<Rightarrow> u64 option \<Rightarrow> string \<Rightarrow> nat \<Rightarrow> io_walk_config" where
  "root_config ctx dev root n =
     \<lparr>cfg_root = root, cfg_root_length = n, cfg_follow_symlinks = pc_follow_symlinks ctx,
      cfg_include_hidden = pred_include_hidden (pc_predicate ctx),
      cfg_should_stop_check = parallel_should_stop_check (pc_signal_handler ctx),
      cfg_should_descend = parallel_should_descend ctx dev\<rparr>"

definition root_match :: "('w, 'a) parallel_context \<Rightarrow> string \<Rightarrow> stat_info \<Rightarrow> string list" where
  "root_match ctx root st =
     (let n = strip_trailing_slashes root (length root);
          (basename, basename_length) = parallel_basename (pc_core ctx) root n
      in if fst (filter_evaluate (pc_os ctx) (pc_predicate ctx) (root_candidate root n basename basename_length st)) = DECISION_ACCEPT
         then [take n root] else [])"

definition root_callbacks :: "('w, 'a) parallel_context \<Rightarrow> u64 option \<Rightarrow> string \<Rightarrow> stat_info \<Rightarrow> callback list" where
  "root_callbacks ctx dev root st =
     (if type_of_mode (st_mode st) \<noteq> ENTRY_TYPE_DIRECTORY \<or>
         pred_has_max_depth (pc_predicate ctx) \<and> pred_max_depth (pc_predicate ctx) = 0 then []
      else pc_io_walk ctx (root_config ctx dev root (strip_trailing_slashes root (length root))))"

definition root_device_after :: "('w, 'a) parallel_context \<Rightarrow> u64 option \<Rightarrow> stat_info \<Rightarrow> u64 option" where
  "root_device_after ctx dev st = (if pc_one_file_system ctx \<and> dev = None then Some (st_dev st) else dev)"

fun parallel_matches :: "('w, 'a) parallel_context \<Rightarrow> u64 option \<Rightarrow> string list \<Rightarrow> string list" where
  "parallel_matches ctx dev [] = []"
| "parallel_matches ctx dev (root # roots) =
     (case sys_fstatat (pc_os ctx) AT_FDCWD root (pc_follow_symlinks ctx) of
        Inl e \<Rightarrow> parallel_matches ctx dev roots
      | Inr st \<Rightarrow> root_match ctx root st @
          accepted_lines ctx (root_device_after ctx dev st) (root_callbacks ctx (root_device_after ctx dev st) root st) @
          parallel_matches ctx (root_device_after ctx dev st) roots)"

text \<open>The lines held by the main buffer and by the slots.\<close>

definition holds_lines ::
  "('w, 'a) parallel_context \<Rightarrow> 'a parallel_state \<Rightarrow> string list \<Rightarrow> (nat \<Rightarrow> string list) \<Rightarrow> bool" where
  "holds_lines ctx st main f \<longleftrightarrow>
     ar_data (pc_array ctx) (ps_main_output st) = lines_of (pc_output_separator ctx) main \<and>
     ps_main_emitted_count st = length main \<and>
     (\<forall>w \<in> set (pc_workers ctx). slot_holds ctx (ps_slots st w) (f w))"

definition all_lines :: "nat list \<Rightarrow> string list \<Rightarrow> (nat \<Rightarrow> string list) \<Rightarrow> string multiset" where
  "all_lines workers main f = mset main + (\<Sum>w \<in> set workers. mset (f w))"

lemma root_match_holds:
  assumes r: "reliable ctx" and h: "holds_lines ctx st main f"
  shows "\<exists>st'. parallel_root_match ctx root n c st = st' \<and>
    holds_lines ctx st' (main @ (if fst (filter_evaluate (pc_os ctx) (pc_predicate ctx) c) = DECISION_ACCEPT then [take n root] else [])) f \<and>
    ps_root_device st' = ps_root_device st"
proof -
  obtain d c' where ev: "filter_evaluate (pc_os ctx) (pc_predicate ctx) c = (d, c')" by fastforce
  obtain ok bytes where ap: "parallel_append_match (pc_array ctx) (pc_output_separator ctx) (ps_main_output st) root n = (ok, bytes)"
    by fastforce
  have ok: "ok"
    using append_match_reliable [of "pc_array ctx" "pc_output_separator ctx" "ps_main_output st" root n bytes] ap r
    by (cases ok) (auto simp: reliable_def)
  have "ar_data (pc_array ctx) bytes =
      ar_data (pc_array ctx) (ps_main_output st) @ take n root @ [pc_output_separator ctx]"
    using append_match_cases [OF _ ap] ok r by (simp add: reliable_def)
  then show ?thesis
    using ev ap ok h by (cases "d = DECISION_ACCEPT") (simp_all add: parallel_root_match_def holds_lines_def)
qed

definition callbacks_known :: "('w, 'a) parallel_context \<Rightarrow> bool" where
  "callbacks_known ctx \<longleftrightarrow> (\<forall>config. visits_within (pc_workers ctx) (pc_io_walk ctx config))"

lemma handle_root_holds:
  assumes r: "reliable ctx" and k: "callbacks_known ctx" and c: "core_ok (pc_core ctx)" "no_nul root"
    and h: "holds_lines ctx st main f"
    and s: "sys_fstatat (pc_os ctx) AT_FDCWD root (pc_follow_symlinks ctx) = Inr rs"
  defines "dev \<equiv> root_device_after ctx (ps_root_device st) rs"
  shows "\<exists>st' g. parallel_handle_root ctx root st = (True, st') \<and> ps_root_device st' = dev \<and>
    holds_lines ctx st' (main @ root_match ctx root rs) g \<and>
    (\<forall>w. g w = f w @ lines_of_worker ctx dev w (root_callbacks ctx dev root rs))"
proof -
  let ?n = "strip_trailing_slashes root (length root)"
  obtain b bl where b: "parallel_basename (pc_core ctx) root ?n = (b, bl)" by fastforce
  let ?st0 = "if pc_one_file_system ctx \<and> ps_root_device st = None then st\<lparr>ps_root_device := Some (st_dev rs)\<rparr> else st"
  have h0: "holds_lines ctx ?st0 main f" "ps_root_device ?st0 = dev"
    using h by (auto simp: holds_lines_def dev_def root_device_after_def)
  obtain st1 where m: "parallel_root_match ctx root ?n (root_candidate root ?n b bl rs) ?st0 = st1"
    and h1: "holds_lines ctx st1 (main @ root_match ctx root rs) f" and d1: "ps_root_device st1 = dev"
    using root_match_holds [OF r h0(1), of root ?n "root_candidate root ?n b bl rs"] h0(2) b
    by (auto simp: root_match_def Let_def)
  have len: "core_length (pc_core ctx) root NUL = Some (length root)" using core_lengthI c by simp
  have run: "parallel_handle_root ctx root st = (True, run_callbacks ctx (root_callbacks ctx dev root rs) st1)"
    using s len b m d1 by (simp add: parallel_handle_root_def Let_def root_callbacks_def root_config_def)
  have within: "visits_within (pc_workers ctx) (root_callbacks ctx dev root rs)"
    using k by (simp add: root_callbacks_def callbacks_known_def)
  from run_callbacks_slots [OF r within, of st1 f] h1 d1 show ?thesis
    unfolding run holds_lines_def by auto
qed

lemma roots_hold:
  assumes r: "reliable ctx" and k: "callbacks_known ctx" and c: "core_ok (pc_core ctx)"
  shows "\<forall>root \<in> set roots. no_nul root \<Longrightarrow> holds_lines ctx st main f \<Longrightarrow>
    \<exists>ok st' main' g. parallel_roots ctx roots any_ok st = (ok, st') \<and> holds_lines ctx st' main' g \<and>
      all_lines (pc_workers ctx) main' g =
        all_lines (pc_workers ctx) main f + mset (parallel_matches ctx (ps_root_device st) roots)"
proof (induction roots arbitrary: st main f any_ok)
  case Nil
  then show ?case by auto
next
  case (Cons root roots)
  show ?case
  proof (cases "sys_fstatat (pc_os ctx) AT_FDCWD root (pc_follow_symlinks ctx)")
    case (Inl e)
    have "holds_lines ctx (parallel_record_error root e st) main f"
      using Cons.prems(2) by (simp add: holds_lines_def parallel_record_error_def)
    from Cons.IH [OF _ this, of False] Cons.prems(1) Inl show ?thesis
      by (simp add: parallel_handle_root_def parallel_record_error_def)
  next
    case (Inr rs)
    let ?dev = "root_device_after ctx (ps_root_device st) rs"
    let ?cs = "root_callbacks ctx ?dev root rs"
    obtain st1 g where hr: "parallel_handle_root ctx root st = (True, st1)" and d1: "ps_root_device st1 = ?dev"
      and h1: "holds_lines ctx st1 (main @ root_match ctx root rs) g"
      and g: "\<forall>w. g w = f w @ lines_of_worker ctx ?dev w ?cs"
      using handle_root_holds [OF r k c _ Cons.prems(2) Inr] Cons.prems(1) by auto
    have within: "visits_within (pc_workers ctx) ?cs"
      using k by (simp add: root_callbacks_def callbacks_known_def)
    have "all_lines (pc_workers ctx) (main @ root_match ctx root rs) g =
        all_lines (pc_workers ctx) main f + mset (root_match ctx root rs) + mset (accepted_lines ctx ?dev ?cs)"
      using sum_lines_of_workers [OF within, of ctx ?dev] by (simp add: all_lines_def g sum.distrib)
    moreover obtain ok st' main' g' where "parallel_roots ctx roots any_ok st1 = (ok, st')"
      "holds_lines ctx st' main' g'"
      "all_lines (pc_workers ctx) main' g' = all_lines (pc_workers ctx) (main @ root_match ctx root rs) g +
         mset (parallel_matches ctx ?dev roots)"
      using Cons.IH [OF _ h1, of any_ok] Cons.prems(1) d1 by auto
    ultimately show ?thesis using hr Inr by (simp add: ac_simps) blast
  qed
qed

section \<open>Gathering\<close>

lemma lines_of_empty_iff: "lines_of sep ls = [] \<longleftrightarrow> ls = []"
  by (cases ls) simp_all

lemma lines_of_concat: "lines_of sep (concat lss) = concat (map (lines_of sep) lss)"
  by (induction lss) simp_all

text \<open>With room in the vector, gathering appends the lines of each worker and adds their counts.\<close>

lemma foreach_slot_gathers:
  assumes "\<forall>w \<in> set workers. slot_holds ctx (ps_slots st w) (f w)"
  shows "length (ib_iov b) + length workers \<le> MAX_IOVEC \<Longrightarrow>
    \<forall>base \<in> set (ib_iov b). base \<noteq> [] \<Longrightarrow>
    concat (ib_iov (foreach_slot ctx workers st b)) =
      concat (ib_iov b) @ lines_of (pc_output_separator ctx) (concat (map f workers)) \<and>
    ib_total_emitted (foreach_slot ctx workers st b) = ib_total_emitted b + length (concat (map f workers)) \<and>
    (\<forall>base \<in> set (ib_iov (foreach_slot ctx workers st b)). base \<noteq> [])"
  using assms
proof (induction workers arbitrary: b)
  case Nil
  then show ?case by simp
next
  case (Cons w ws)
  obtain slot where slot: "ps_slots st w = Some slot" and h: "slot_holds ctx (Some slot) (f w)"
    using Cons.prems(3) by (auto simp: slot_holds_def split: option.splits)
  let ?b = "parallel_collect_slot_iovec ctx slot b"
  have "concat (ib_iov ?b) = concat (ib_iov b) @ lines_of (pc_output_separator ctx) (f w) \<and>
      ib_total_emitted ?b = ib_total_emitted b + length (f w) \<and>
      length (ib_iov ?b) \<le> length (ib_iov b) + 1 \<and> (\<forall>base \<in> set (ib_iov ?b). base \<noteq> [])"
    using h Cons.prems(1,2)
    by (cases "f w = []") (auto simp: parallel_collect_slot_iovec_def slot_holds_def lines_of_empty_iff split: if_splits)
  then show ?case using Cons.IH [of ?b] Cons.prems slot by simp
qed

text \<open>Past the capacity of the vector a slot is left out, its count too.\<close>

lemma collect_full:
  "MAX_IOVEC \<le> length (ib_iov b) \<Longrightarrow> parallel_collect_slot_iovec ctx slot b = b"
  by (simp add: parallel_collect_slot_iovec_def)

lemma main_builder_holds:
  assumes "holds_lines ctx st main f"
  shows "concat (ib_iov (main_builder ctx st)) = lines_of (pc_output_separator ctx) main \<and>
    ib_total_emitted (main_builder ctx st) = length main \<and> length (ib_iov (main_builder ctx st)) \<le> 1 \<and>
    (\<forall>base \<in> set (ib_iov (main_builder ctx st)). base \<noteq> [])"
  using assms by (cases "main = []") (auto simp: main_builder_def Let_def holds_lines_def lines_of_empty_iff)

text \<open>The merge delivers the gathered bytes after the writer has flushed.\<close>

lemma merge_delivers:
  assumes "writev_ok (pc_writev ctx)" "interrupted_before m (pc_writev ctx)"
    and "\<forall>base \<in> set (ib_iov b). base \<noteq> []" "length (concat (ib_iov b)) + m < fuel"
  shows "\<exists>ok out' sent. parallel_merge fuel ctx b out = Some (ok, out', sent) \<and>
    out_emitted_count out' = out_emitted_count out + ib_total_emitted b \<and>
    prefix sent (concat (ib_iov b)) \<and> (ok \<longrightarrow> sent = concat (ib_iov b))"
proof (cases "ib_iov b = []")
  case True
  then show ?thesis by (auto simp: parallel_merge_def)
next
  case False
  obtain fl w where fl: "wr_flush (pc_writer ctx) (out_writer out) = (fl, w)" by fastforce
  obtain ok sent where wa: "write_all_iovec fuel (pc_writev ctx) 0 (ib_iov b) [] = Some (ok, sent)"
    using write_all_total [OF assms(1,2,3), of 0 fuel "[]"] assms(4) by fastforce
  from write_all_sound [OF assms(1) wa] have "prefix sent (concat (ib_iov b))" "ok \<longrightarrow> sent = concat (ib_iov b)"
    by (auto intro: take_is_prefix)
  then show ?thesis using False fl wa by (cases fl) (auto simp: parallel_merge_def)
qed

section \<open>The whole walk\<close>

text \<open>What is assumed: enough workers, slots that are there and untouched, no more of them than fit the
  vector beside the main buffer, arrays that grow, and callbacks on known workers.\<close>

definition parallel_ready :: "('w, 'a) parallel_context \<Rightarrow> bool" where
  "parallel_ready ctx \<longleftrightarrow>
     (case pc_worker_count ctx of None \<Rightarrow> False | Some n \<Rightarrow> 2 \<le> n) \<and> pc_register_slot ctx \<and>
     distinct (pc_workers ctx) \<and> length (pc_workers ctx) < MAX_IOVEC \<and>
     (\<forall>w \<in> set (pc_workers ctx). \<exists>slot. pc_slots ctx w = Some slot \<and> \<not> slot_initialized slot) \<and>
     reliable ctx \<and> callbacks_known ctx \<and> core_ok (pc_core ctx)"

lemma mset_concat_map_distinct:
  "distinct ws \<Longrightarrow> mset (concat (map f ws)) = (\<Sum>w \<in> set ws. mset (f w))"
  by (induction ws) simp_all

lemma walk_parallel_lines:
  fixes out :: "'w seek_output"
  assumes rd: "parallel_ready ctx" and n: "\<forall>root \<in> set roots. no_nul root"
    and w: "writev_ok (pc_writev ctx)" "interrupted_before m (pc_writev ctx)"
  defines "ctx' \<equiv> ctx\<lparr>pc_output_separator := out_separator out\<rparr>"
  defines "matches \<equiv> parallel_matches ctx' None (if roots = [] then [''.''] else roots)"
  assumes fuel: "length (lines_of (out_separator out) matches) + m < fuel"
  shows "\<exists>res ls merged. walk_parallel fuel ctx roots out errors = Some res \<and> mset ls = mset matches \<and>
    prefix (res_sent res) (lines_of (out_separator out) ls) \<and>
    (merged \<longrightarrow> res_sent res = lines_of (out_separator out) ls) \<and> (res_ok res \<longrightarrow> merged) \<and>
    out_emitted_count (res_output res) = out_emitted_count out + length matches"
proof -
  let ?roots = "if roots = [] then [''.''] else roots"
  have r: "reliable ctx'" and k: "callbacks_known ctx'" and c: "core_ok (pc_core ctx')"
    and ws: "distinct (pc_workers ctx')" "length (pc_workers ctx') < MAX_IOVEC"
    and slots: "\<forall>w \<in> set (pc_workers ctx'). \<exists>slot. pc_slots ctx' w = Some slot \<and> \<not> slot_initialized slot"
    using rd by (simp_all add: parallel_ready_def ctx'_def reliable_def callbacks_known_def)
  obtain main where main: "ar_reserve (pc_array ctx') (ar_zero (pc_array ctx')) OUTPUT_INITIAL_CAPACITY = (True, main)"
    using r array_reliableD(1) unfolding reliable_def by (metis (full_types) prod.collapse)
  have empty: "ar_data (pc_array ctx') main = []"
    using r array_okD(1) [of "pc_array ctx'"] array_okD(2) [OF _ main] by (simp add: reliable_def)
  let ?st = "\<lparr>ps_slots = pc_slots ctx', ps_errors = errors, ps_root_device = None,
    ps_main_output = main, ps_main_emitted_count = 0\<rparr>"
  have "holds_lines ctx' ?st [] (\<lambda>w. [])"
    using slots empty by (fastforce simp: holds_lines_def slot_holds_def)
  moreover have "\<forall>root \<in> set ?roots. no_nul root" using n by simp
  ultimately obtain any_ok st1 main' g where pr: "parallel_roots ctx' ?roots True ?st = (any_ok, st1)"
    and h: "holds_lines ctx' st1 main' g"
    and total: "all_lines (pc_workers ctx') main' g = mset matches"
    using roots_hold [OF r k c, of ?roots ?st "[]" "\<lambda>w. []" True] by (auto simp: all_lines_def matches_def)
  let ?ls = "main' @ concat (map g (pc_workers ctx'))"
  have perm: "mset ?ls = mset matches"
    using total ws(1) by (simp add: all_lines_def mset_concat_map_distinct)
  let ?b = "foreach_slot ctx' (pc_workers ctx') st1 (main_builder ctx' st1)"
  have holds: "\<forall>w \<in> set (pc_workers ctx'). slot_holds ctx' (ps_slots st1 w) (g w)" using h by (simp add: holds_lines_def)
  note mb = main_builder_holds [OF h]
  have room: "length (ib_iov (main_builder ctx' st1)) + length (pc_workers ctx') \<le> MAX_IOVEC" using mb ws(2) by linarith
  have b: "concat (ib_iov ?b) = lines_of (out_separator out) ?ls" "ib_total_emitted ?b = length ?ls"
    "\<forall>base \<in> set (ib_iov ?b). base \<noteq> []"
    using foreach_slot_gathers [OF holds room] mb by (simp_all add: ctx'_def)
  have len: "length ?ls = length matches" using perm by (metis size_mset)
  have size: "length (lines_of (out_separator out) xs) = (\<Sum>x \<in># mset xs. length x + 1)" for xs
    by (induction xs) simp_all
  have "length (concat (ib_iov ?b)) + m < fuel" using fuel unfolding b(1) size perm by simp
  then obtain ok out' sent where mg: "parallel_merge fuel ctx' ?b out = Some (ok, out', sent)"
    and cnt: "out_emitted_count out' = out_emitted_count out + length matches"
    and snt: "prefix sent (lines_of (out_separator out) ?ls)" "ok \<longrightarrow> sent = lines_of (out_separator out) ?ls"
    using merge_delivers [of ctx' m ?b fuel out] w b len by (auto simp: ctx'_def)
  have "walk_parallel fuel ctx roots out errors =
      Some \<lparr>res_ok = any_ok \<and> ok, res_output = out', res_errors = ps_errors st1, res_sent = sent\<rparr>"
    using rd main pr mg unfolding walk_parallel_def Let_def ctx'_def [symmetric]
    by (auto simp: parallel_ready_def ctx'_def split: option.splits)
  then show ?thesis using perm snt cnt
    by (intro exI [of _ "\<lparr>res_ok = any_ok \<and> ok, res_output = out', res_errors = ps_errors st1, res_sent = sent\<rparr>"]
        exI [of _ ?ls] exI [of _ ok]) simp
qed

text \<open>The threads write past the buffered writer, which only flushes what it already had.\<close>

lemma walk_parallel_accepted:
  assumes "writer_ok (pc_writer ctx)" "pc_worker_count ctx = Some n" "2 \<le> n"
    and "walk_parallel fuel ctx roots out errors = Some res"
  shows "wr_accepted (pc_writer ctx) (out_writer (res_output res)) = wr_accepted (pc_writer ctx) (out_writer out)"
proof -
  have flush: "wr_accepted (pc_writer ctx) w' = wr_accepted (pc_writer ctx) w" if "wr_flush (pc_writer ctx) w = (ok, w')" for w ok w'
    using writer_okD(6) [OF assms(1), of w] that by simp
  have "wr_accepted (pc_writer ctx) (out_writer out') = wr_accepted (pc_writer ctx) (out_writer out)"
    if "parallel_merge fuel (ctx\<lparr>pc_output_separator := sep\<rparr>) b out = Some (ok, out', sent)" for sep b ok out' sent
    using that flush by (auto simp: parallel_merge_def Let_def split: prod.splits if_splits option.splits)
  then show ?thesis
    using assms(2-4) by (auto simp: walk_parallel_def Let_def split: prod.splits if_splits option.splits)
qed

section \<open>Against the sequential walk\<close>

lemma last_index_append_slash:
  "c \<notin> set t \<Longrightarrow> last_index c (s @ c # t) = Some (length s)"
proof (induction s)
  case Nil
  then show ?case by (simp add: last_index_None [THEN iffD2])
next
  case (Cons x s)
  then show ?case by simp
qed

lemma parallel_basename_child:
  assumes "core_ok C" "slash \<notin> set name"
  shows "parallel_basename C (path @ slash # name) (length (path @ slash # name)) = (name, length name)"
  using last_index_append_slash [OF assms(2), of path] core_find_last_byteI [OF assms(1), of _ "path @ slash # name" slash]
  by (simp add: parallel_basename_def)

lemma strip_trailing_all:
  assumes "s \<noteq> []" "last s \<noteq> slash"
  shows "k \<le> n \<Longrightarrow> strip_trailing_slashes (s @ replicate n slash) (length s + k) = length s"
proof (induction k)
  case 0
  have "(s @ replicate n slash) ! (length s - 1) \<noteq> slash"
    using assms by (simp add: nth_append last_conv_nth)
  then show ?case by (subst strip_trailing_slashes.simps) simp
next
  case (Suc k)
  have "(s @ replicate n slash) ! (length s + k) = slash" using Suc.prems by (simp add: nth_append)
  moreover have "1 < length s + Suc k" using assms(1) by (cases s) simp_all
  ultimately show ?case using Suc by (subst strip_trailing_slashes.simps) simp
qed

section \<open>Properties\<close>

text \<open>A concrete run: two workers with growing arrays and a \<open>writev\<close> that takes at most five bytes.\<close>

definition list_array :: "string array_ops" where
  "list_array = \<lparr>ar_zero = [], ar_reserve = (\<lambda>a n. (True, a)), ar_append_bulk = (\<lambda>a bs. (True, a @ bs)),
     ar_push = (\<lambda>a c. (True, a @ [c])), ar_data = (\<lambda>a. a)\<rparr>"

definition demo_visit :: "nat \<Rightarrow> string \<Rightarrow> callback" where
  "demo_visit worker path = Visit worker \<lparr>we_absolute_path = path, we_absolute_path_length = length path,
     we_kind = WALK_ENTRY_FILE, we_depth = 1, we_file_size = 0, we_modification_time_seconds = 0,
     we_permission_mask = 0, we_stat_populated = False, we_device_id = 1\<rparr>"

definition short_writev :: "nat \<Rightarrow> string list \<Rightarrow> writev_result" where
  "short_writev k iov = (if k = 0 then Write_failed EINTR else Written (min 5 (length (concat iov))))"

definition demo_parallel :: "(list_state, string) parallel_context" where
  "demo_parallel = \<lparr>pc_core = ref_core, pc_os = demo_os, pc_writer = list_writer, pc_array = list_array,
     pc_predicate = plain_predicate, pc_signal_handler = None, pc_follow_symlinks = False,
     pc_one_file_system = False, pc_output_separator = NUL, pc_worker_count = Some 2, pc_register_slot = True,
     pc_slots = (\<lambda>w. Some \<lparr>slot_output_bytes = [], slot_emitted_count = 0, slot_initialized = False\<rparr>),
     pc_workers = [0, 1],
     pc_io_walk = (\<lambda>config. [demo_visit 1 ''./b'', demo_visit 0 ''./a'', demo_visit 1 ''./c'']),
     pc_writev = short_writev\<rparr>"

lemma demo_parallel_sel [simp]:
  "pc_core demo_parallel = ref_core" "pc_os demo_parallel = demo_os" "pc_predicate demo_parallel = plain_predicate"
  "\<not> pc_follow_symlinks demo_parallel" "\<not> pc_one_file_system demo_parallel" "pc_writev demo_parallel = short_writev"
  "pc_io_walk demo_parallel config = [demo_visit 1 ''./b'', demo_visit 0 ''./a'', demo_visit 1 ''./c'']"
  by (simp_all add: demo_parallel_def)

lemma short_writev_ok: "writev_ok short_writev" "interrupted_before 1 short_writev"
  by (auto simp: writev_ok_def interrupted_before_def short_writev_def)

lemma demo_parallel_ready: "parallel_ready demo_parallel"
  by (auto simp: parallel_ready_def demo_parallel_def MAX_IOVEC_def reliable_def array_ok_def array_reliable_def
      list_array_def callbacks_known_def visits_within_def demo_visit_def ref_core_ok)

lemma demo_parallel_matches:
  "parallel_matches (demo_parallel\<lparr>pc_output_separator := sep\<rparr>) None [''.''] = [''.'', ''./b'', ''./a'', ''./c'']"
proof -
  have one: "strip_trailing_slashes ''.'' 1 = 1" by (subst strip_trailing_slashes.simps) simp
  show ?thesis
    by (simp add: demo_os_def demo_stat_def AT_FDCWD_def directory_def root_match_def Let_def
        one [simplified] plain_evaluate root_callbacks_def type_of_mode_def S_ISREG_def S_ISDIR_def S_IFMT_def
        demo_visit_def parallel_accepts_def off_device_def entry_line_def plain_predicate_flags split: prod.splits)
qed

text \<open>C5: with fewer than 256 slots and arrays that do not fail, whatever the interleaving of the
  callbacks and the assignment of entries to workers, the parallel walk returns, and the bytes it
  writes past the writer are a first part of the lines of some arrangement of exactly the accepted
  roots and entries, and all of them when the walk reports success; the count is their number in
  either case.\<close>

theorem parallel_writes_matches:
  assumes "parallel_ready ctx" "\<forall>root \<in> set roots. no_nul root"
    and "writev_ok (pc_writev ctx)" "interrupted_before m (pc_writev ctx)"
    and "matches = parallel_matches (ctx\<lparr>pc_output_separator := out_separator out\<rparr>) None (if roots = [] then [''.''] else roots)"
    and "length (lines_of (out_separator out) matches) + m < fuel"
  shows "\<exists>res ls. walk_parallel fuel ctx roots out errors = Some res \<and> mset ls = mset matches \<and>
    prefix (res_sent res) (lines_of (out_separator out) ls) \<and>
    (res_ok res \<longrightarrow> res_sent res = lines_of (out_separator out) ls) \<and>
    out_emitted_count (res_output res) = out_emitted_count out + length matches"
  using walk_parallel_lines [OF assms(1-4), of out fuel errors] assms(5,6) by blast

theorem parallel_writes_matches_witness:
  "\<exists>res ls. walk_parallel 100 demo_parallel [] (stdout_output []) [] = Some res \<and>
     mset ls = {#''.'', ''./a'', ''./b'', ''./c''#} \<and> out_emitted_count (res_output res) = 4"
proof -
  note matches = demo_parallel_matches [of "out_separator (stdout_output [])", symmetric]
  have sep: "out_separator (stdout_output []) = CHR ''\<newline>''" by (simp add: stdout_output_def)
  have "length (lines_of (out_separator (stdout_output [])) [''.'', ''./b'', ''./a'', ''./c'']) + 1 < 100" by simp
  with parallel_writes_matches [OF demo_parallel_ready, of "[]" 1 "[''.'', ''./b'', ''./a'', ''./c'']" "stdout_output []" 100 "[]"]
    short_writev_ok matches
  obtain res ls where "walk_parallel 100 demo_parallel [] (stdout_output []) [] = Some res"
    "mset ls = mset [''.'', ''./b'', ''./a'', ''./c'']"
    "out_emitted_count (res_output res) = out_emitted_count (stdout_output []) + length [''.'', ''./b'', ''./a'', ''./c'']"
    by auto
  moreover have "mset [''.'', ''./b'', ''./a'', ''./c''] = {#''.'', ''./a'', ''./b'', ''./c''#}" by simp
  moreover have "out_emitted_count (stdout_output []) = 0" by (simp add: stdout_output_def)
  ultimately show ?thesis by (intro exI [of _ res] exI [of _ ls]) simp
qed

text \<open>C16: the write loop returns, whatever the sizes of the partial writes and the interrupts;
  what it has written is a first part of the vector, and all of it when it succeeds.\<close>

theorem write_all_iovec_delivers:
  assumes "writev_ok writev" "interrupted_before m writev" "\<forall>base \<in> set iov. base \<noteq> []"
    and "length (concat iov) + m < fuel"
  shows "\<exists>ok sent. write_all_iovec fuel writev 0 iov [] = Some (ok, sent) \<and>
    prefix sent (concat iov) \<and> (ok \<longrightarrow> sent = concat iov)"
proof -
  obtain ok sent where w: "write_all_iovec fuel writev 0 iov [] = Some (ok, sent)"
    using write_all_total [OF assms(1,2,3), of 0 fuel "[]"] assms(4) by fastforce
  from write_all_sound [OF assms(1) w] show ?thesis using w by (auto intro: take_is_prefix)
qed

theorem write_all_iovec_delivers_witness:
  "\<exists>ok sent. write_all_iovec 20 short_writev 0 [''abcdefg'', ''hi''] [] = Some (ok, sent) \<and> prefix sent ''abcdefghi''"
  using write_all_iovec_delivers [OF short_writev_ok, of "[''abcdefg'', ''hi'']" 20] by auto

text \<open>C40: the vector gathered from the slots never holds more than 256 buffers: once it is full,
  whatever slots come are left out, and their counts with them.\<close>

theorem slots_beyond_vector_are_dropped:
  "(length (ib_iov b) \<le> MAX_IOVEC \<longrightarrow> length (ib_iov (foreach_slot ctx workers st b)) \<le> MAX_IOVEC) \<and>
   (MAX_IOVEC \<le> length (ib_iov b) \<longrightarrow> foreach_slot ctx workers st b = b)"
proof (intro conjI impI)
  have step: "length (ib_iov (parallel_collect_slot_iovec ctx slot b)) \<le> MAX_IOVEC"
    if "length (ib_iov b) \<le> MAX_IOVEC" for b slot
    using that by (auto simp: parallel_collect_slot_iovec_def)
  show "length (ib_iov (foreach_slot ctx workers st b)) \<le> MAX_IOVEC" if "length (ib_iov b) \<le> MAX_IOVEC"
    using that by (induction workers arbitrary: b) (simp_all add: step split: option.splits)
  show "foreach_slot ctx workers st b = b" if "MAX_IOVEC \<le> length (ib_iov b)"
    using that by (induction workers) (simp_all add: collect_full split: option.splits)
qed

theorem slots_beyond_vector_are_dropped_witness:
  "\<forall>st. foreach_slot demo_parallel [0] st \<lparr>ib_iov = replicate 256 ''x'', ib_total_emitted = 256\<rparr> =
   \<lparr>ib_iov = replicate 256 ''x'', ib_total_emitted = 256\<rparr>"
proof
  fix st
  show "foreach_slot demo_parallel [0] st \<lparr>ib_iov = replicate 256 ''x'', ib_total_emitted = 256\<rparr> =
    \<lparr>ib_iov = replicate 256 ''x'', ib_total_emitted = 256\<rparr>"
    using slots_beyond_vector_are_dropped [of "\<lparr>ib_iov = replicate 256 ''x'', ib_total_emitted = 256\<rparr>" demo_parallel "[0]" st]
    by (simp only: MAX_IOVEC_def iovec_builder.simps length_replicate)
qed

text \<open>C24: on a directory entry both walks agree where to descend, except at the maximum depth:
  there the sequential walk still opens the directory and reads it, and the parallel one does not.\<close>

theorem walks_descend_alike_above_max_depth:
  assumes "core_ok (pc_core ctx)" "slash \<notin> set name" "name \<noteq> []" "name \<noteq> ''.''" "no_nul name"
    and "we_absolute_path entry = path @ slash # name" "we_absolute_path_length entry = length (path @ slash # name)"
  shows "parallel_should_descend ctx None entry \<longleftrightarrow>
    walk_should_descend_directory (sequential_context ctx) name (length name) (we_depth entry) \<and>
    \<not> (pred_has_max_depth (pc_predicate ctx) \<and> we_depth entry = pred_max_depth (pc_predicate ctx))"
proof -
  have b: "parallel_basename (pc_core ctx) (we_absolute_path entry) (we_absolute_path_length entry) = (name, length name)"
    unfolding assms(6,7) by (rule parallel_basename_child [OF assms(1,2)])
  have h: "parallel_is_hidden_name name \<longleftrightarrow> walk_is_hidden_name name"
    using assms(3,4,5)
    by (cases name; cases "tl name") (auto simp: parallel_is_hidden_name_def walk_is_hidden_name_def char_at_def)
  show ?thesis
    by (auto simp: parallel_should_descend_def walk_should_descend_directory_def b h off_device_def
        sequential_context_def)
qed

theorem walks_descend_alike_above_max_depth_witness:
  "parallel_should_descend demo_parallel None
     \<lparr>we_absolute_path = ''./sub'', we_absolute_path_length = length ''./sub'', we_kind = WALK_ENTRY_DIRECTORY, we_depth = 1,
      we_file_size = 0, we_modification_time_seconds = 0, we_permission_mask = 0, we_stat_populated = False,
      we_device_id = 1\<rparr> \<longleftrightarrow>
   walk_should_descend_directory (sequential_context demo_parallel) ''sub'' (length ''sub'') 1"
  using walks_descend_alike_above_max_depth [of demo_parallel "''sub''" _ "''.''"]
  by (simp add: ref_core_ok plain_predicate_flags)

text \<open>C25: for a root with a name and one or more slashes behind it, whatever path is in front of
  the name, the two walks match \<^verbatim>\<open>--name\<close> against different strings, neither of them the name of
  the directory: the sequential walk against the empty string, the parallel walk against the name
  with all its slashes, of which it counts the name only. (The root \<^verbatim>\<open>/\<close> has no name.)\<close>

theorem trailing_slash_root_basenames:
  assumes "core_ok C" "name \<noteq> []" "slash \<notin> set name" "path = [] \<or> last path = slash" "0 < k"
    and root: "root = path @ name @ replicate k slash" and "holds_path buffer root"
  shows "cstr (drop (root_basename_offset C buffer (length root)) buffer) = [] \<and>
    parallel_basename C root (strip_trailing_slashes root (length root)) = (name @ replicate k slash, length name)"
proof
  obtain j where k: "k = Suc j" using assms(5) by (cases k) auto
  have "root = (path @ name @ replicate j slash) @ slash # []"
    by (simp add: root k replicate_append_same)
  then have "last_index slash root = Some (length root - 1)"
    using last_index_append_slash [of slash "[]" "path @ name @ replicate j slash"] by simp
  then show "cstr (drop (root_basename_offset C buffer (length root)) buffer) = []"
    unfolding root_basename_offset_drop(1) [OF assms(1,7)] by (simp add: root_basename_def)
next
  have last: "path @ name \<noteq> []" "last (path @ name) \<noteq> slash"
    using assms(2,3) last_in_set [of name] by (auto simp del: last_in_set)
  have strip: "strip_trailing_slashes root (length root) = length (path @ name)"
    using strip_trailing_all [OF last order_refl, of k] by (simp add: root add.assoc)
  have find: "core_find_last_byte C root (length (path @ name)) slash = last_index slash (path @ name)"
    using core_find_last_byteI [OF assms(1)] by (simp add: root)
  show "parallel_basename C root (strip_trailing_slashes root (length root)) = (name @ replicate k slash, length name)"
  proof (cases path rule: rev_cases)
    case Nil
    then have none: "last_index slash (path @ name) = None" using assms(3) by simp
    show ?thesis unfolding strip parallel_basename_def find none by (simp add: root Nil)
  next
    case (snoc q c)
    then have path: "path = q @ [slash]" using assms(4) by simp
    then have "last_index slash (path @ name) = Some (length q)"
      using last_index_append_slash [OF assms(3), of q] by simp
    then show ?thesis unfolding strip parallel_basename_def find by (simp add: root path)
  qed
qed

theorem trailing_slash_root_basenames_witness:
  "parallel_basename ref_core ''a/sub//'' (strip_trailing_slashes ''a/sub//'' (length ''a/sub//'')) = (''sub//'', 3)"
proof -
  have "holds_path (''a/sub//'' @ replicate 4089 NUL) ''a/sub//''"
    using replicate_Suc [of 4088 NUL] by (auto simp: holds_path_def PATH_CAPACITY_def simp del: replicate_Suc)
  with trailing_slash_root_basenames [OF ref_core_ok, of "''sub''" "''a/''" 2 "''a/sub//''"] show ?thesis
    by (simp add: eval_nat_numeral)
qed

end
