(* ===== verification/Seek_Interleaving.thy ===== *)
theory Seek_Interleaving
  imports Seek_Parallel_Spec
begin

text \<open>
  The threads of the parallel walk. bc-io calls back on several workers at once; a visit touches no
  slot but that of its worker, and appends to an error collector that serialises its callers, so
  that what the threads do is some sequence of callbacks. The model of the walk takes any
  sequence; here is what of it matters.

  Each slot depends on the visits of its own worker alone, in their order, and the errors are
  recorded in the order of the sequence. So two sequences in which every worker makes the same
  visits in the same order, however the workers are interleaved, leave the same slots, hence the
  same bytes to write, and the same errors up to their order.
\<close>

section \<open>What the visits of one worker do\<close>

text \<open>The visits of a worker, in order, and the errors the walker reports itself.\<close>

fun visits_of :: "nat \<Rightarrow> callback list \<Rightarrow> io_walk_entry list" where
  "visits_of w [] = []"
| "visits_of w (Visit worker entry # cs) = (if worker = w then entry # visits_of w cs else visits_of w cs)"
| "visits_of w (On_error path e # cs) = visits_of w cs"

fun reports :: "callback list \<Rightarrow> (string \<times> errno) list" where
  "reports [] = []"
| "reports (Visit worker entry # cs) = reports cs"
| "reports (On_error path e # cs) = (path, e) # reports cs"

fun workers_of :: "callback list \<Rightarrow> nat set" where
  "workers_of [] = {}"
| "workers_of (Visit worker entry # cs) = insert worker (workers_of cs)"
| "workers_of (On_error path e # cs) = workers_of cs"

lemma finite_workers_of: "finite (workers_of cs)"
  by (induction cs rule: workers_of.induct) simp_all

lemma workers_of_visits: "w \<in> workers_of cs \<longleftrightarrow> visits_of w cs \<noteq> []"
  by (induction cs rule: workers_of.induct) auto

text \<open>What a visit makes of the slot of its worker, and the errors it records.\<close>

definition visit_effect ::
  "('w, 'a) parallel_context \<Rightarrow> u64 option \<Rightarrow> nat \<Rightarrow> io_walk_entry \<Rightarrow> 'a worker_slot option \<Rightarrow>
   'a worker_slot option \<times> (string \<times> errno) list" where
  "visit_effect ctx dev worker entry slot =
     (let st = snd (parallel_visit ctx worker entry \<lparr>ps_slots = (\<lambda>w. slot), ps_errors = [], ps_root_device = dev,
                 ps_main_output = ar_zero (pc_array ctx), ps_main_emitted_count = 0\<rparr>)
      in (ps_slots st worker, ps_errors st))"

fun visits_effect ::
  "('w, 'a) parallel_context \<Rightarrow> u64 option \<Rightarrow> nat \<Rightarrow> io_walk_entry list \<Rightarrow> 'a worker_slot option \<Rightarrow>
   'a worker_slot option \<times> (string \<times> errno) list" where
  "visits_effect ctx dev worker [] slot = (slot, [])"
| "visits_effect ctx dev worker (entry # entries) slot =
     (let (slot, errors) = visit_effect ctx dev worker entry slot;
          (slot, errors') = visits_effect ctx dev worker entries slot
      in (slot, errors @ errors'))"

text \<open>A visit reads and changes no slot but its own.\<close>

lemma visit_state:
  "snd (parallel_visit ctx worker entry st) =
   st\<lparr>ps_slots := (ps_slots st)(worker := fst (visit_effect ctx (ps_root_device st) worker entry (ps_slots st worker))),
      ps_errors := ps_errors st @ snd (visit_effect ctx (ps_root_device st) worker entry (ps_slots st worker))\<rparr>"
  by (cases st)
    (auto simp: visit_effect_def parallel_visit_def parallel_ensure_worker_slot_def parallel_record_error_def off_device_def Let_def
      split: option.splits prod.splits if_splits)

text \<open>After any callbacks, each slot is where the visits of its worker take it.\<close>

lemma callbacks_slots:
  "ps_slots (run_callbacks ctx cs st) w = fst (visits_effect ctx (ps_root_device st) w (visits_of w cs) (ps_slots st w))"
proof (induction cs arbitrary: st)
  case (Cons c cs)
  then show ?case
    by (cases c) (auto simp: visit_state parallel_on_error_def parallel_record_error_def case_prod_unfold Let_def)
qed simp

lemma callbacks_frame:
  "ps_root_device (run_callbacks ctx cs st) = ps_root_device st"
  "ps_main_output (run_callbacks ctx cs st) = ps_main_output st"
  "ps_main_emitted_count (run_callbacks ctx cs st) = ps_main_emitted_count st"
  by (induction cs arbitrary: st rule: reports.induct)
    (simp_all add: visit_state parallel_on_error_def parallel_record_error_def)

text \<open>The errors of the visits of all workers.\<close>

definition visit_errors ::
  "('w, 'a) parallel_context \<Rightarrow> u64 option \<Rightarrow> (nat \<Rightarrow> 'a worker_slot option) \<Rightarrow> nat set \<Rightarrow>
   (nat \<Rightarrow> io_walk_entry list) \<Rightarrow> (string \<times> errno) multiset" where
  "visit_errors ctx dev slots ws visits = (\<Sum>w \<in> ws. mset (snd (visits_effect ctx dev w (visits w) (slots w))))"

lemma visit_errors_first:
  assumes "finite ws" "worker \<in> ws"
  shows "visit_errors ctx dev slots ws (visits(worker := entry # visits worker)) =
    mset (snd (visit_effect ctx dev worker entry (slots worker))) +
    visit_errors ctx dev (slots(worker := fst (visit_effect ctx dev worker entry (slots worker)))) ws visits"
proof -
  let ?eff = "visit_effect ctx dev worker entry (slots worker)"
  have "mset (snd (visits_effect ctx dev w ((visits(worker := entry # visits worker)) w) (slots w))) =
      (if w = worker then mset (snd ?eff) else {#}) +
      mset (snd (visits_effect ctx dev w (visits w) ((slots(worker := fst ?eff)) w)))" for w
    by (simp add: case_prod_unfold Let_def)
  then show ?thesis using assms by (simp add: visit_errors_def sum.distrib)
qed

lemma callbacks_errors:
  assumes "finite ws" "workers_of cs \<subseteq> ws"
  shows "mset (ps_errors (run_callbacks ctx cs st)) = mset (ps_errors st) + mset (reports cs) +
    visit_errors ctx (ps_root_device st) (ps_slots st) ws (\<lambda>w. visits_of w cs)"
  using assms(2)
proof (induction cs arbitrary: st)
  case Nil
  then show ?case by (simp add: visit_errors_def)
next
  case (Cons c cs)
  show ?case
  proof (cases c)
    case (Visit worker entry)
    have "(\<lambda>w. visits_of w (c # cs)) = (\<lambda>w. visits_of w cs)(worker := entry # visits_of worker cs)"
      by (auto simp: Visit)
    then show ?thesis
      using Cons visit_errors_first [OF assms(1), of worker ctx "ps_root_device st" "ps_slots st" "\<lambda>w. visits_of w cs" entry]
      by (simp add: Visit visit_state)
  next
    case (On_error path e)
    then show ?thesis using Cons by (simp add: parallel_on_error_def parallel_record_error_def)
  qed
qed

section \<open>Properties\<close>

text \<open>C6: two sequences of callbacks in which every worker makes the same visits in the same order,
  and the walker reports the same errors, leave the same slots and the same main buffer, so that
  the same vector is gathered and written, and record the same errors, each as often, in whatever
  order the workers took their turns and whichever array operations failed.\<close>

theorem schedules_agree:
  fixes ctx :: "('w, 'a) parallel_context" and st :: "'a parallel_state"
  assumes "\<forall>w. visits_of w cs = visits_of w ds" "mset (reports cs) = mset (reports ds)"
  defines "st1 \<equiv> run_callbacks ctx cs st" and "st2 \<equiv> run_callbacks ctx ds st"
  shows "ps_slots st1 = ps_slots st2 \<and> mset (ps_errors st1) = mset (ps_errors st2) \<and>
    foreach_slot ctx ws st1 (main_builder ctx st1) = foreach_slot ctx ws st2 (main_builder ctx st2)"
proof -
  have slots: "ps_slots st1 = ps_slots st2"
    using assms(1) by (auto simp: st1_def st2_def callbacks_slots)
  have "workers_of ds = workers_of cs" using assms(1) by (auto simp: workers_of_visits)
  then have "mset (ps_errors st1) = mset (ps_errors st2)"
    using callbacks_errors [OF finite_workers_of order_refl, of ctx cs st] assms(1,2)
      callbacks_errors [OF finite_workers_of [of cs], of ds ctx st]
    by (simp add: st1_def st2_def)
  moreover have "main_builder ctx st1 = main_builder ctx st2"
    unfolding main_builder_def st1_def st2_def callbacks_frame ..
  moreover have "foreach_slot ctx ws st1 b = foreach_slot ctx ws st2 b" for b
    by (induction ws arbitrary: b) (simp_all add: slots)
  ultimately show ?thesis using slots by simp
qed

text \<open>Two workers of the demo walk and an error of the walker, from any state.\<close>

theorem schedules_agree_witness:
  "\<forall>st. ps_slots (run_callbacks demo_parallel
       [demo_visit 1 ''./b'', demo_visit 0 ''./a'', On_error ''./d'' 13, demo_visit 1 ''./c''] st) =
     ps_slots (run_callbacks demo_parallel
       [On_error ''./d'' 13, demo_visit 0 ''./a'', demo_visit 1 ''./b'', demo_visit 1 ''./c''] st)"
proof
  fix st
  show "ps_slots (run_callbacks demo_parallel
       [demo_visit 1 ''./b'', demo_visit 0 ''./a'', On_error ''./d'' 13, demo_visit 1 ''./c''] st) =
     ps_slots (run_callbacks demo_parallel
       [On_error ''./d'' 13, demo_visit 0 ''./a'', demo_visit 1 ''./b'', demo_visit 1 ''./c''] st)"
    by (rule conjunct1 [OF schedules_agree]) (simp_all add: demo_visit_def)
qed

end
