(* ===== verification/Seek_Parsers.thy ===== *)
theory Seek_Parsers
  imports Seek_Strings
begin

text \<open>
  The value parsers of \<^verbatim>\<open>src/cli/bc_seek_cli_parsers.c\<close>: unsigned numbers, \<^verbatim>\<open>--type\<close>,
  \<^verbatim>\<open>--size\<close>, \<^verbatim>\<open>--mtime\<close>, \<^verbatim>\<open>--perm\<close> and \<^verbatim>\<open>--threads\<close>. A parser that returns false
  is \<open>None\<close>; the out-parameters it writes on success are the value of \<open>Some\<close>. Characters
  compare by code; a \<open>char\<close> above 127, negative in C, fails the same range tests.

  \<^item> \<open>parse_unsigned\<close> is shown equal to checked decimal evaluation: the 64-bit overflow test
    refuses exactly the numbers that do not fit.
  \<^item> The sign and unit grammar of \<^verbatim>\<open>--size\<close> and \<^verbatim>\<open>--mtime\<close> is characterised in both
    directions; the two share the contract \<open>signed_value_parser\<close>.
  \<^item> The octal loop of \<^verbatim>\<open>--perm\<close> is octal evaluation bounded by 07777.
\<close>

section \<open>Definitions\<close>

subsection \<open>bc_seek_cli_parse_unsigned\<close>

text \<open>The loop body over the first \<open>length\<close> characters.\<close>

fun parse_unsigned_loop :: "string \<Rightarrow> u64 \<Rightarrow> u64 option" where
  "parse_unsigned_loop [] accumulator = Some accumulator"
| "parse_unsigned_loop (character # rest) accumulator =
     (if character < CHR ''0'' \<or> character > CHR ''9'' then None
      else let digit = of_char character - of_char CHR ''0'' in
        if accumulator > (UINT64_MAX - digit) div 10 then None
        else parse_unsigned_loop rest (accumulator * 10 + digit))"

text \<open>Of a C string shorter than \<open>len\<close> the loop would read the NUL, and nothing behind it.\<close>

definition parse_unsigned :: "string \<Rightarrow> nat \<Rightarrow> u64 option" where
  "parse_unsigned value len = (if len = 0 then None else parse_unsigned_loop (take len (value @ [NUL])) 0)"

subsection \<open>bc_seek_cli_parse_type_filter\<close>

definition parse_type_filter :: "bc_core \<Rightarrow> string \<Rightarrow> entry_type option" where
  "parse_type_filter C value =
     (if strings_equal C value ''f'' \<or> strings_equal C value ''file'' then Some ENTRY_TYPE_FILE
      else if strings_equal C value ''d'' \<or> strings_equal C value ''dir'' then Some ENTRY_TYPE_DIRECTORY
      else if strings_equal C value ''l'' \<or> strings_equal C value ''link'' \<or> strings_equal C value ''symlink''
        then Some ENTRY_TYPE_SYMLINK
      else None)"

subsection \<open>bc_seek_cli_parse_size_filter and bc_seek_cli_parse_mtime_filter\<close>

text \<open>The sign test both functions start with: the operator and the moved cursor.\<close>

definition parse_sign :: "string \<Rightarrow> compare_op \<times> string" where
  "parse_sign value =
     (if char_at value 0 = CHR ''+'' then (COMPARE_GREATER, drop 1 value)
      else if char_at value 0 = CHR ''-'' then (COMPARE_LESS, drop 1 value)
      else (COMPARE_EQUAL, value))"

text \<open>The suffix switch: the multiplier and how many characters the suffix takes.\<close>

definition size_suffix :: "char \<Rightarrow> (u64 \<times> nat) option" where
  "size_suffix suffix =
     (if suffix = CHR ''c'' then Some (1, 1)
      else if suffix = CHR ''w'' then Some (2, 1)
      else if suffix = CHR ''b'' then Some (512, 1)
      else if suffix = CHR ''k'' \<or> suffix = CHR ''K'' then Some (1024, 1)
      else if suffix = CHR ''M'' then Some (1024 * 1024, 1)
      else if suffix = CHR ''G'' then Some (1024 * 1024 * 1024, 1)
      else if suffix = CHR ''T'' then Some (1024 * 1024 * 1024 * 1024, 1)
      else if suffix < CHR ''0'' \<or> suffix > CHR ''9'' then None
      else Some (512, 0))"

definition parse_size_body :: "bc_core \<Rightarrow> string \<Rightarrow> u64 option" where
  "parse_size_body C cursor =
     (let cursor_length = strings_length C cursor in
      if cursor_length = 0 then None
      else (case size_suffix (char_at cursor (cursor_length - 1)) of
          None \<Rightarrow> None
        | Some (multiplier, suffix_length) \<Rightarrow>
            (case parse_unsigned cursor (cursor_length - suffix_length) of
               None \<Rightarrow> None
             | Some numeric_value \<Rightarrow>
                 if multiplier \<noteq> 0 \<and> numeric_value > UINT64_MAX div multiplier then None
                 else Some (numeric_value * multiplier))))"

definition parse_size_filter :: "bc_core \<Rightarrow> string option \<Rightarrow> (compare_op \<times> u64) option" where
  "parse_size_filter C value =
     (case value of None \<Rightarrow> None
      | Some v \<Rightarrow>
          if char_at v 0 = NUL then None
          else (let (op, cursor) = parse_sign v in
                case parse_size_body C cursor of None \<Rightarrow> None | Some bytes \<Rightarrow> Some (op, bytes)))"

definition parse_mtime_body :: "bc_core \<Rightarrow> string \<Rightarrow> i64 option" where
  "parse_mtime_body C cursor =
     (let cursor_length = strings_length C cursor in
      if cursor_length = 0 then None
      else (case parse_unsigned cursor cursor_length of
          None \<Rightarrow> None
        | Some numeric_value \<Rightarrow> if numeric_value > INT64_MAX then None else Some numeric_value))"

definition parse_mtime_filter :: "bc_core \<Rightarrow> string option \<Rightarrow> (compare_op \<times> i64) option" where
  "parse_mtime_filter C value =
     (case value of None \<Rightarrow> None
      | Some v \<Rightarrow>
          if char_at v 0 = NUL then None
          else (let (op, cursor) = parse_sign v in
                case parse_mtime_body C cursor of None \<Rightarrow> None | Some days \<Rightarrow> Some (op, days)))"

subsection \<open>bc_seek_cli_parse_perm_filter\<close>

fun parse_perm_loop :: "string \<Rightarrow> u32 \<Rightarrow> u32 option" where
  "parse_perm_loop [] perm_bits = Some perm_bits"
| "parse_perm_loop (character # rest) perm_bits =
     (if character < CHR ''0'' \<or> character > CHR ''7'' then None
      else if perm_bits > drop_bit 3 UINT_MAX then None
      else parse_perm_loop rest (push_bit 3 perm_bits OR (of_char character - of_char CHR ''0'')))"

definition parse_perm_filter :: "bc_core \<Rightarrow> string option \<Rightarrow> u32 option" where
  "parse_perm_filter C value =
     (case value of None \<Rightarrow> None
      | Some v \<Rightarrow>
          if char_at v 0 = NUL then None
          else (case parse_perm_loop (take (strings_length C v) v) 0 of
              None \<Rightarrow> None
            | Some perm_bits \<Rightarrow> if perm_bits > 0xFFF then None else Some perm_bits))"

subsection \<open>bc_seek_cli_parse_threads\<close>

definition parse_threads :: "bc_core \<Rightarrow> string option \<Rightarrow> (threads_mode \<times> nat) option" where
  "parse_threads C value =
     (case value of None \<Rightarrow> None
      | Some v \<Rightarrow>
          if char_at v 0 = NUL then None
          else if strings_equal C v ''mono'' then Some (THREADS_MODE_MONO, 0)
          else if strings_equal C v ''auto'' then Some (THREADS_MODE_AUTO, 0)
          else if strings_equal C v ''io'' then Some (THREADS_MODE_IO, 0)
          else (let value_length = strings_length C v in
            if value_length = 0 then None
            else (case core_parse_u64 C v value_length of
                None \<Rightarrow> None
              | Some (parsed_value, consumed) \<Rightarrow>
                  if consumed \<noteq> value_length then None
                  else if parsed_value = 0 then Some (THREADS_MODE_MONO, 0)
                  else Some (THREADS_MODE_EXPLICIT, unat parsed_value))))"

section \<open>Unsigned numbers\<close>

lemma digit_word:
  assumes "is_digit c"
  shows "unat (of_char c - of_char CHR ''0'' :: u64) = digit_value c"
    and "digit_value c \<le> 9"
proof -
  have le: "48 \<le> (of_char c :: nat)" "(of_char c :: nat) \<le> 57"
    using assms by (simp_all add: is_digit_code)
  have "(of_char c - of_char CHR ''0'' :: u64) = of_nat (of_char c) - of_nat 48"
    by (simp add: of_nat_of_char)
  also have "\<dots> = of_nat (digit_value c)"
    using le by (simp add: digit_value_def)
  finally have e: "(of_char c - of_char CHR ''0'' :: u64) = of_nat (digit_value c)" .
  show small: "digit_value c \<le> 9" using le by (simp add: digit_value_def)
  show "unat (of_char c - of_char CHR ''0'' :: u64) = digit_value c"
    unfolding e using small by (intro unat_of_nat_64) simp
qed

lemma parse_unsigned_loop_eq:
  "parse_unsigned_loop s acc =
     (let n = foldl (\<lambda>a c. a * 10 + digit_value c) (unat acc) s in
      if list_all is_digit s \<and> n < 2 ^ 64 then Some (of_nat n) else None)"
proof (induction s arbitrary: acc)
  case Nil
  then show ?case using unat_lt_64 [of acc] by simp
next
  case (Cons c s)
  show ?case
  proof (cases "is_digit c")
    case False
    then show ?thesis by (auto simp: is_digit_def)
  next
    case True
    let ?d = "of_char c - of_char CHR ''0'' :: u64"
    let ?n = "unat acc * 10 + digit_value c"
    have range: "\<not> (c < CHR ''0'' \<or> c > CHR ''9'')" using True by (auto simp: is_digit_def)
    have d: "unat ?d = digit_value c" "unat ?d \<le> 9" using digit_word [OF True] by auto
    have ge: "?n \<le> foldl (\<lambda>a c. a * 10 + digit_value c) ?n s"
      by (rule foldl_base_ge) simp
    show ?thesis
    proof (cases "?n < 2 ^ 64")
      case False
      then have "(UINT64_MAX - ?d) div 10 < acc"
        using mul_add_overflow_iff [OF d(2), of acc] d(1) by simp
      then show ?thesis using range ge False by (simp add: Let_def)
    next
      case small: True
      then have nov: "\<not> (UINT64_MAX - ?d) div 10 < acc"
        using mul_add_overflow_iff [OF d(2), of acc] d(1) by simp
      have m: "unat (acc * 10) = unat acc * 10" using small by (simp add: unat_mult_64)
      have "unat (acc * 10 + ?d) = ?n" using small d(1) m by (simp only: unat_add_64)
      then show ?thesis using range nov True Cons.IH [of "acc * 10 + ?d"] by (simp add: Let_def)
    qed
  qed
qed

lemma parse_unsigned_eq:
  "parse_unsigned value len =
     (if len \<noteq> 0 \<and> len \<le> length value \<and> list_all is_digit (take len value) \<and> dec_value (take len value) < 2 ^ 64
      then Some (of_nat (dec_value (take len value))) else None)"
proof (cases "len \<le> length value")
  case True
  then show ?thesis by (simp add: parse_unsigned_def parse_unsigned_loop_eq base_value_def Let_def)
next
  case False
  then have "take len (value @ [NUL]) = value @ [NUL]" by simp
  moreover have "\<not> is_digit NUL" by (simp add: is_digit_def)
  ultimately show ?thesis using False by (simp add: parse_unsigned_def parse_unsigned_loop_eq)
qed

section \<open>Signs: the contract of --size and --mtime\<close>

text \<open>
  Both parsers read a sign and hand the rest to a body. The contract is stated once: what a
  parser of signed values returns for each first character.
\<close>

definition sign_text :: "compare_op \<Rightarrow> string" where
  "sign_text op =
     (case op of COMPARE_EQUAL \<Rightarrow> [] | COMPARE_GREATER \<Rightarrow> ''+'' | COMPARE_LESS \<Rightarrow> ''-'')"

definition unsigned_start :: "string \<Rightarrow> bool" where
  "unsigned_start s \<longleftrightarrow> s \<noteq> [] \<and> hd s \<noteq> CHR ''+'' \<and> hd s \<noteq> CHR ''-'' \<and> hd s \<noteq> NUL"

locale signed_value_parser =
  fixes parse :: "string option \<Rightarrow> (compare_op \<times> 'v) option"
    and body :: "string \<Rightarrow> 'v option"
  assumes parse_null: "parse None = None"
    and parse_empty: "parse (Some []) = None"
    and parse_nul: "parse (Some (NUL # s)) = None"
    and parse_plus: "parse (Some (CHR ''+'' # s)) = map_option (Pair COMPARE_GREATER) (body s)"
    and parse_minus: "parse (Some (CHR ''-'' # s)) = map_option (Pair COMPARE_LESS) (body s)"
    and parse_plain: "unsigned_start s \<Longrightarrow> parse (Some s) = map_option (Pair COMPARE_EQUAL) (body s)"
begin

lemma parse_Some_iff:
  "parse (Some v) = Some (op, x) \<longleftrightarrow>
     (\<exists>s. v = sign_text op @ s \<and> body s = Some x \<and> (op = COMPARE_EQUAL \<longrightarrow> unsigned_start s))"
proof (cases v)
  case Nil
  then show ?thesis
    by (cases op) (auto simp: parse_empty sign_text_def unsigned_start_def)
next
  case (Cons c s)
  consider "c = CHR ''+''" | "c = CHR ''-''" | "c = NUL" | "unsigned_start v"
    using Cons by (auto simp: unsigned_start_def)
  then show ?thesis
  proof cases
    case 1
    with Cons show ?thesis by (cases op) (auto simp: parse_plus sign_text_def unsigned_start_def)
  next
    case 2
    with Cons show ?thesis by (cases op) (auto simp: parse_minus sign_text_def unsigned_start_def)
  next
    case 3
    with Cons show ?thesis by (cases op) (auto simp: parse_nul sign_text_def unsigned_start_def)
  next
    case 4
    with Cons show ?thesis
      by (cases op) (auto simp: parse_plain sign_text_def unsigned_start_def)
  qed
qed

lemma parse_sign_text:
  "op \<noteq> COMPARE_EQUAL \<or> unsigned_start s \<Longrightarrow> parse (Some (sign_text op @ s)) = map_option (Pair op) (body s)"
  by (cases op) (auto simp: sign_text_def parse_plus parse_minus parse_plain)

end

interpretation size_parser: signed_value_parser "parse_size_filter C" "parse_size_body C" for C
  by unfold_locales
    (auto simp: parse_size_filter_def parse_sign_def char_at_def unsigned_start_def hd_conv_nth
        split: option.splits)

interpretation mtime_parser: signed_value_parser "parse_mtime_filter C" "parse_mtime_body C" for C
  by unfold_locales
    (auto simp: parse_mtime_filter_def parse_sign_def char_at_def unsigned_start_def hd_conv_nth
        split: option.splits)

section \<open>The bodies\<close>

text \<open>The bytes one unit of each suffix stands for; no suffix is a 512-byte block.\<close>

fun size_unit :: "string \<Rightarrow> nat option" where
  "size_unit [] = Some 512"
| "size_unit [c] =
     (if c = CHR ''c'' then Some 1
      else if c = CHR ''w'' then Some 2
      else if c = CHR ''b'' then Some 512
      else if c = CHR ''k'' \<or> c = CHR ''K'' then Some (2 ^ 10)
      else if c = CHR ''M'' then Some (2 ^ 20)
      else if c = CHR ''G'' then Some (2 ^ 30)
      else if c = CHR ''T'' then Some (2 ^ 40)
      else None)"
| "size_unit (_ # _ # _) = None"

definition digits :: "string \<Rightarrow> bool" where
  "digits s \<longleftrightarrow> s \<noteq> [] \<and> list_all is_digit s"

lemma digits_unsigned_start: "digits ds \<Longrightarrow> unsigned_start (ds @ s)"
  by (cases ds) (auto simp: digits_def unsigned_start_def is_digit_def)

lemma digits_no_nul: "digits ds \<Longrightarrow> no_nul ds"
  by (auto simp: digits_def no_nul_def list_all_iff is_digit_def)

lemma digits_dec_string: "digits (dec_string n)"
  using dec_string_digits by (simp add: digits_def list_all_iff)

lemma unat_eq_of_nat: "n < 2 ^ 64 \<Longrightarrow> (of_nat n = (b :: u64)) = (unat b = n)"
  by (metis unat_of_nat_64 word_unat_eq_iff)

lemma scaled_number_iff:
  assumes "m \<noteq> 0" and "n \<le> length v"
  shows "(case parse_unsigned v n of None \<Rightarrow> None
          | Some x \<Rightarrow> if m \<noteq> 0 \<and> UINT64_MAX div m < x then None else Some (x * m)) = Some b \<longleftrightarrow>
    digits (take n v) \<and> dec_value (take n v) * unat m < 2 ^ 64 \<and> unat b = dec_value (take n v) * unat m"
proof -
  let ?d = "dec_value (take n v)"
  have ne: "n \<noteq> 0 \<and> list_all is_digit (take n v) \<longleftrightarrow> digits (take n v)"
    using assms(2) by (cases v) (auto simp: digits_def)
  have pos: "0 < unat m" using assms(1) by (simp add: unat_gt_0)
  have lt: "?d < 2 ^ 64" if "?d * unat m < 2 ^ 64"
  proof -
    have "?d * 1 \<le> ?d * unat m" using pos by (intro mult_le_mono2) linarith
    with that show ?thesis by linarith
  qed
  show ?thesis
  proof (cases "digits (take n v) \<and> ?d < 2 ^ 64")
    case True
    let ?x = "of_nat ?d :: u64"
    have p: "parse_unsigned v n = Some ?x" using True ne assms(2) by (simp add: parse_unsigned_eq)
    have x: "unat ?x = ?d" using True by (intro unat_of_nat_64) simp
    have o: "UINT64_MAX div m < ?x \<longleftrightarrow> 2 ^ 64 \<le> ?d * unat m"
      using mul_overflow_iff [OF assms(1), of ?x] x by simp
    show ?thesis
    proof (cases "?d * unat m < 2 ^ 64")
      case small: True
      then have xm: "unat (?x * m) = ?d * unat m" using x unat_mult_64 [of ?x m] by simp
      have "?x * m = b \<longleftrightarrow> unat (?x * m) = unat b" by (rule word_unat_eq_iff)
      then show ?thesis using p o small True xm assms(1) by auto
    next
      case False
      then show ?thesis using p o assms(1) by simp
    qed
  next
    case False
    then have "parse_unsigned v n = None" using ne by (auto simp: parse_unsigned_eq)
    with False lt show ?thesis by auto
  qed
qed

text \<open>The switch reads one unit character, or none when the last character is a digit.\<close>

lemma size_suffix_cases:
  obtains (none) "size_suffix c = None" "size_unit [c] = None" "\<not> is_digit c"
  | (unit) m where "size_suffix c = Some (m, 1)" "size_unit [c] = Some (unat m)" "\<not> is_digit c" "m \<noteq> 0"
  | (digit) "size_suffix c = Some (512, 0)" "size_unit [c] = None" "is_digit c"
proof -
  consider "c \<in> {CHR ''c'', CHR ''w'', CHR ''b'', CHR ''k'', CHR ''K'', CHR ''M'', CHR ''G'', CHR ''T''}"
    | "c \<notin> {CHR ''c'', CHR ''w'', CHR ''b'', CHR ''k'', CHR ''K'', CHR ''M'', CHR ''G'', CHR ''T''}" "is_digit c"
    | "c \<notin> {CHR ''c'', CHR ''w'', CHR ''b'', CHR ''k'', CHR ''K'', CHR ''M'', CHR ''G'', CHR ''T''}" "\<not> is_digit c"
    by blast
  then show thesis
  proof cases
    case 1
    then show ?thesis
      by (intro unit [of "fst (the (size_suffix c))"])
        (auto simp: size_suffix_def is_digit_def)
  next
    case 2
    then show ?thesis by (intro digit) (auto simp: size_suffix_def is_digit_def)
  next
    case 3
    then show ?thesis by (intro none) (auto simp: size_suffix_def is_digit_def)
  qed
qed

text \<open>Splitting a text into digits and a unit: the unit takes the last character or nothing.\<close>

definition size_text :: "string \<Rightarrow> string \<Rightarrow> nat \<Rightarrow> bool" where
  "size_text s ds u \<longleftrightarrow> (\<exists>sfx. s = ds @ sfx \<and> size_unit sfx = Some u \<and> digits ds)"

lemma size_text_snoc:
  "size_text (t @ [c]) ds u \<longleftrightarrow>
     (size_unit [c] = Some u \<and> ds = t \<and> digits t \<or> u = 512 \<and> ds = t @ [c] \<and> digits (t @ [c]))"
proof
  assume "size_text (t @ [c]) ds u"
  then obtain sfx where sfx: "t @ [c] = ds @ sfx" "size_unit sfx = Some u" "digits ds"
    by (auto simp: size_text_def)
  show "size_unit [c] = Some u \<and> ds = t \<and> digits t \<or> u = 512 \<and> ds = t @ [c] \<and> digits (t @ [c])"
    using sfx by (cases sfx rule: size_unit.cases) (auto simp del: size_unit.simps(2))
next
  assume "size_unit [c] = Some u \<and> ds = t \<and> digits t \<or> u = 512 \<and> ds = t @ [c] \<and> digits (t @ [c])"
  then show "size_text (t @ [c]) ds u"
    unfolding size_text_def by (elim disjE) (auto simp del: size_unit.simps(2) intro: exI [of _ "[c]"] exI [of _ "[]"])
qed

lemma parse_size_body_iff:
  assumes "core_ok C" "no_nul s"
  shows "parse_size_body C s = Some b \<longleftrightarrow>
    (\<exists>ds u. size_text s ds u \<and> dec_value ds * u < 2 ^ 64 \<and> unat b = dec_value ds * u)"
proof (cases s rule: rev_cases)
  case Nil
  then show ?thesis
    using assms by (simp add: parse_size_body_def core_laws size_text_def digits_def)
next
  case (snoc t c)
  have len: "strings_length C (t @ [c]) = Suc (length t)"
    using strings_length_eq [OF assms] snoc by simp
  have last: "char_at (t @ [c]) (length t) = c" by (simp add: char_at_def)
  note body = parse_size_body_def Let_def len last
  show ?thesis
  proof (cases rule: size_suffix_cases [of c])
    case none
    then show ?thesis using snoc by (simp add: body size_text_snoc digits_def del: size_unit.simps)
  next
    case (unit m)
    show ?thesis
      using scaled_number_iff [OF unit(4), of "length t" s b] unit snoc
      by (simp add: body size_text_snoc digits_def del: size_unit.simps)
  next
    case digit
    have "(512 :: u64) \<noteq> 0" by simp
    from scaled_number_iff [OF this, of "Suc (length t)" s b] show ?thesis
      using digit snoc by (simp add: body size_text_snoc del: size_unit.simps)
  qed
qed

lemma parse_mtime_body_iff:
  assumes "core_ok C" "no_nul s"
  shows "parse_mtime_body C s = Some d \<longleftrightarrow>
    digits s \<and> dec_value s < 2 ^ 63 \<and> unat d = dec_value s"
proof -
  have gt: "INT64_MAX < of_nat n \<longleftrightarrow> 2 ^ 63 \<le> n" if "n < 2 ^ 64" for n
    using that by (simp add: word_less_nat_alt unat_INT64_MAX unat_of_nat_64) arith
  show ?thesis
    using strings_length_eq [OF assms]
    by (auto simp: parse_mtime_body_def Let_def parse_unsigned_eq digits_def gt unat_of_nat_64
        unat_eq_of_nat)
qed

section \<open>The octal mask\<close>

definition is_octal :: "char \<Rightarrow> bool" where
  "is_octal c \<longleftrightarrow> CHR ''0'' \<le> c \<and> c \<le> CHR ''7''"

lemma octal_word:
  assumes "is_octal c"
  shows "unat (of_char c - of_char CHR ''0'' :: u32) = digit_value c" and "digit_value c < 8"
proof -
  have le: "48 \<le> (of_char c :: nat)" "(of_char c :: nat) \<le> 55"
    using assms by (simp_all add: is_octal_def less_eq_char_def)
  have "(of_char c - of_char CHR ''0'' :: u32) = of_nat (of_char c) - of_nat 48"
    by (simp add: of_nat_of_char)
  also have "\<dots> = of_nat (digit_value c)"
    using le by (simp add: digit_value_def)
  finally have e: "(of_char c - of_char CHR ''0'' :: u32) = of_nat (digit_value c)" .
  show small: "digit_value c < 8" using le by (simp add: digit_value_def)
  show "unat (of_char c - of_char CHR ''0'' :: u32) = digit_value c"
    unfolding e using small by (simp add: unat_of_nat)
qed

text \<open>Shifting in three bits is multiplying by eight and adding, while nothing is lost.\<close>

lemma shift_in_octal:
  fixes m d :: u32
  assumes "unat d < 8" and "unat m * 8 < 2 ^ 32"
  shows "unat (push_bit 3 m OR d) = unat m * 8 + unat d"
proof -
  have "take_bit 3 (unat d) = unat d" using assms(1) by (simp add: take_bit_nat_eq_self)
  then have "take_bit 3 d = d" by (metis unsigned_take_bit_eq word_unat_eq_iff) 
  then have low: "n < 3" if "bit d n" for n using that by (metis bit_take_bit_iff)
  have "push_bit 3 m AND d = 0"
    by (rule bit_eqI) (auto simp: bit_and_iff bit_push_bit_iff dest: low)
  then have "push_bit 3 m OR d = push_bit 3 m + d" by (simp add: disjunctive_add_eq_or)
  moreover have "unat (push_bit 3 m) = unat m * 8"
    using assms(2) by (simp add: push_bit_eq_mult unat_word_ariths)
  moreover have "unat m * 8 + unat d < 2 ^ 32"
  proof -
    have "a * 8 + e < 4294967296" if "a * 8 < 4294967296" "e < 8" for a e :: nat
      using that by presburger
    from this [of "unat m" "unat d"] show ?thesis using assms by simp
  qed
  ultimately show ?thesis by (simp add: unat_word_ariths)
qed

text \<open>The loop and the final bound together: every early refusal is a value above 07777.\<close>

lemma parse_perm_loop_bounded:
  "(case parse_perm_loop s m of None \<Rightarrow> None | Some r \<Rightarrow> if r > 0xFFF then None else Some r) =
     (let n = foldl (\<lambda>a c. a * 8 + digit_value c) (unat m) s in
      if list_all is_octal s \<and> n \<le> 0xFFF then Some (of_nat n) else None)"
proof (induction s arbitrary: m)
  case Nil
  show ?case by (simp add: word_less_nat_alt linorder_not_less)
next
  case (Cons c s)
  show ?case
  proof (cases "is_octal c")
    case False
    then show ?thesis by (auto simp: is_octal_def)
  next
    case True
    let ?d = "of_char c - of_char CHR ''0'' :: u32"
    let ?n = "unat m * 8 + digit_value c"
    have range: "\<not> (c < CHR ''0'' \<or> c > CHR ''7'')" using True by (auto simp: is_octal_def)
    have d: "unat ?d = digit_value c" "unat ?d < 8" using octal_word [OF True] by auto
    have shifted: "m > drop_bit 3 UINT_MAX \<longleftrightarrow> 2 ^ 29 \<le> unat m"
      by (simp add: word_less_nat_alt UINT_MAX_def) arith
    show ?thesis
    proof (cases "2 ^ 29 \<le> unat m")
      case big: True
      have "?n \<le> foldl (\<lambda>a c. a * 8 + digit_value c) ?n s" by (rule foldl_base_ge) simp
      with big have "\<not> foldl (\<lambda>a c. a * 8 + digit_value c) ?n s \<le> 0xFFF" by simp
      then show ?thesis using range shifted big by (simp add: Let_def)
    next
      case False
      then have "unat (push_bit 3 m OR ?d) = ?n"
        using shift_in_octal [OF d(2), of m] d(1) by simp
      then show ?thesis
        using range shifted False True Cons.IH [of "push_bit 3 m OR ?d"] by (simp add: Let_def)
    qed
  qed
qed

lemma parse_perm_filter_eq:
  assumes "core_ok C" "no_nul v"
  shows "parse_perm_filter C (Some v) =
    (if v \<noteq> [] \<and> list_all is_octal v \<and> base_value 8 v \<le> 0xFFF
     then Some (of_nat (base_value 8 v)) else None)"
proof (cases v)
  case Nil
  then show ?thesis by (simp add: parse_perm_filter_def char_at_def)
next
  case (Cons c s)
  then have "c \<noteq> NUL" using assms by simp
  then show ?thesis
    using Cons strings_length_eq [OF assms] parse_perm_loop_bounded [of v 0]
    by (simp add: parse_perm_filter_def char_at_def base_value_def Let_def)
qed

section \<open>Type names and thread modes\<close>

lemma parse_type_filter_eq:
  assumes "core_ok C" "no_nul v"
  shows "parse_type_filter C v =
    map_of [(''f'', ENTRY_TYPE_FILE), (''file'', ENTRY_TYPE_FILE), (''d'', ENTRY_TYPE_DIRECTORY),
      (''dir'', ENTRY_TYPE_DIRECTORY), (''l'', ENTRY_TYPE_SYMLINK), (''link'', ENTRY_TYPE_SYMLINK),
      (''symlink'', ENTRY_TYPE_SYMLINK)] v"
  using assms by (auto simp: parse_type_filter_def strings_equal_eq)

text \<open>The thread count the rest of the text denotes, when it is all digits.\<close>

lemma parse_u64_prefix_all:
  assumes "s \<noteq> []"
  shows "(case parse_u64_prefix s of None \<Rightarrow> None
          | Some (n, consumed) \<Rightarrow> if consumed \<noteq> length s then None else f n) =
         (if list_all is_digit s \<and> dec_value s < 2 ^ 64 then f (of_nat (dec_value s)) else None)"
proof -
  have eq: "length (takeWhile is_digit s) = length s \<longleftrightarrow> list_all is_digit s"
  proof
    assume "length (takeWhile is_digit s) = length s"
    then have "takeWhile is_digit s = s" by (metis takeWhile_eq_take take_all_iff order_refl)
    then show "list_all is_digit s" by (metis list_all_iff set_takeWhileD)
  next
    assume "list_all is_digit s"
    then show "length (takeWhile is_digit s) = length s" by (simp add: takeWhile_eq_all_conv [THEN iffD2] list_all_iff)
  qed
  show ?thesis
  proof (cases "list_all is_digit s")
    case True
    then have whole: "takeWhile is_digit s = s" by (simp add: list_all_iff)
    show ?thesis unfolding parse_u64_prefix_def Let_def whole using True assms by simp
  next
    case False
    then show ?thesis using eq by (simp add: parse_u64_prefix_def Let_def)
  qed
qed

lemma parse_threads_eq:
  assumes "core_ok C" "no_nul v"
  shows "parse_threads C (Some v) =
    (if v = ''mono'' then Some (THREADS_MODE_MONO, 0)
     else if v = ''auto'' then Some (THREADS_MODE_AUTO, 0)
     else if v = ''io'' then Some (THREADS_MODE_IO, 0)
     else if digits v \<and> dec_value v < 2 ^ 64
       then (if dec_value v = 0 then Some (THREADS_MODE_MONO, 0)
             else Some (THREADS_MODE_EXPLICIT, dec_value v))
     else None)"
proof (cases v)
  case Nil
  then show ?thesis by (simp add: parse_threads_def char_at_def digits_def)
next
  case (Cons c s)
  have z: "(of_nat n :: u64) = 0 \<longleftrightarrow> n = 0" if "n < 2 ^ 64" for n
    using unat_eq_of_nat [OF that, of 0] by auto
  have ne: "v \<noteq> []" "char_at v 0 \<noteq> NUL" using Cons assms(2) by (simp_all add: char_at_def)
  have "parse_threads C (Some v) =
    (if v = ''mono'' then Some (THREADS_MODE_MONO, 0)
     else if v = ''auto'' then Some (THREADS_MODE_AUTO, 0)
     else if v = ''io'' then Some (THREADS_MODE_IO, 0)
     else (case parse_u64_prefix v of None \<Rightarrow> None
          | Some (n, consumed) \<Rightarrow> if consumed \<noteq> length v then None else
              if n = 0 then Some (THREADS_MODE_MONO, 0) else Some (THREADS_MODE_EXPLICIT, unat n)))"
    using ne assms by (simp add: parse_threads_def strings_equal_eq strings_length_eq core_parse_u64I Let_def)
  also have "\<dots> = (if v = ''mono'' then Some (THREADS_MODE_MONO, 0)
     else if v = ''auto'' then Some (THREADS_MODE_AUTO, 0)
     else if v = ''io'' then Some (THREADS_MODE_IO, 0)
     else if digits v \<and> dec_value v < 2 ^ 64
       then (if dec_value v = 0 then Some (THREADS_MODE_MONO, 0)
             else Some (THREADS_MODE_EXPLICIT, dec_value v))
     else None)"
    unfolding parse_u64_prefix_all [OF ne(1), of "\<lambda>n. if n = 0 then Some (THREADS_MODE_MONO, 0)
        else Some (THREADS_MODE_EXPLICIT, unat n)"]
    using ne(1) by (simp add: digits_def z unat_of_nat_64 cong: if_cong)
  finally show ?thesis .
qed

section \<open>Properties\<close>

lemma size_unit_no_nul: "size_unit sfx = Some u \<Longrightarrow> no_nul sfx"
  by (cases sfx rule: size_unit.cases) (auto split: if_splits)

lemma sign_text_no_nul [simp]: "no_nul (sign_text op)"
  by (cases op) (simp_all add: sign_text_def)

text \<open>C18: for any C string and length, the digit loop with its 64-bit overflow test is
  checked decimal evaluation of the first \<open>len\<close> characters: it succeeds exactly when they are
  there and are a non-empty run of decimal digits whose value is below 2^64, and then returns that
  value.\<close>

theorem parse_unsigned_is_checked_decimal:
  "parse_unsigned value len =
     (if len \<noteq> 0 \<and> len \<le> length value \<and> list_all is_digit (take len value) \<and> dec_value (take len value) < 2 ^ 64
      then Some (of_nat (dec_value (take len value))) else None)"
  by (rule parse_unsigned_eq)

text \<open>C13: \<^verbatim>\<open>--size\<close> accepts exactly the texts sign, digits, optional unit whose number of
  bytes fits 64 bits, and returns the operator of the sign and that number of bytes; every other
  text is refused. No product wraps around.\<close>

theorem parse_size_filter_grammar:
  assumes "core_ok C" "no_nul v"
  shows "parse_size_filter C (Some v) = Some (op, b) \<longleftrightarrow>
    (\<exists>ds sfx u. v = sign_text op @ ds @ sfx \<and> digits ds \<and> size_unit sfx = Some u \<and>
       dec_value ds * u < 2 ^ 64 \<and> unat b = dec_value ds * u)"
proof -
  have "parse_size_filter C (Some v) = Some (op, b) \<longleftrightarrow>
      (\<exists>s. v = sign_text op @ s \<and> parse_size_body C s = Some b \<and> (op = COMPARE_EQUAL \<longrightarrow> unsigned_start s))"
    by (rule size_parser.parse_Some_iff)
  also have "\<dots> \<longleftrightarrow> (\<exists>s. v = sign_text op @ s \<and> parse_size_body C s = Some b)"
    using assms by (auto simp: parse_size_body_iff size_text_def digits_unsigned_start)
  finally show ?thesis
    using assms by (fastforce simp: parse_size_body_iff size_text_def)
qed

theorem parse_size_filter_grammar_witness:
  "parse_size_filter ref_core (Some ''+1k'') = Some (COMPARE_GREATER, 1024)"
proof -
  have "\<exists>ds sfx u. ''+1k'' = sign_text COMPARE_GREATER @ ds @ sfx \<and> digits ds \<and> size_unit sfx = Some u \<and>
      dec_value ds * u < 2 ^ 64 \<and> unat (1024 :: u64) = dec_value ds * u"
    by (rule exI [of _ "''1''"], rule exI [of _ "''k''"], rule exI [of _ 1024])
      (simp add: sign_text_def digits_def is_digit_def base_value_def digit_value_def)
  then show ?thesis
    using parse_size_filter_grammar [OF ref_core_ok, of "''+1k''" COMPARE_GREATER 1024] by simp
qed

text \<open>C31: printing a number in decimal with any sign and any unit and parsing it back
  with \<^verbatim>\<open>--size\<close> returns the operator and the number of bytes, as long as that fits 64 bits.\<close>

theorem parse_size_filter_roundtrip:
  assumes "core_ok C" "size_unit sfx = Some u" "n * u < 2 ^ 64"
  shows "parse_size_filter C (Some (sign_text op @ dec_string n @ sfx)) = Some (op, of_nat (n * u))"
proof -
  let ?s = "dec_string n @ sfx"
  have ok: "no_nul ?s"
    using size_unit_no_nul [OF assms(2)] digits_no_nul [OF digits_dec_string] by simp
  have "unat (of_nat (n * u) :: u64) = n * u" using assms(3) by (rule unat_of_nat_64)
  then have "parse_size_body C ?s = Some (of_nat (n * u))"
    using assms digits_dec_string
    by (simp only: parse_size_body_iff [OF assms(1) ok] size_text_def)
      (intro exI [of _ "dec_string n"] exI [of _ u], simp add: dec_value_dec_string)
  then show ?thesis
    using size_parser.parse_sign_text [of op ?s] digits_unsigned_start [OF digits_dec_string] by simp
qed

theorem parse_size_filter_roundtrip_witness:
  "parse_size_filter ref_core (Some (sign_text COMPARE_LESS @ dec_string 25 @ ''M'')) =
     Some (COMPARE_LESS, of_nat (25 * 2 ^ 20))"
  by (rule parse_size_filter_roundtrip [OF ref_core_ok]) simp_all

text \<open>C26: \<^verbatim>\<open>--mtime\<close> accepts exactly a sign and decimal digits whose value fits a
  non-negative \<open>int64_t\<close>, and returns the operator and the value, which is never negative.\<close>

theorem parse_mtime_filter_grammar:
  assumes "core_ok C" "no_nul v"
  shows "parse_mtime_filter C (Some v) = Some (op, d) \<longleftrightarrow>
    (\<exists>ds. v = sign_text op @ ds \<and> digits ds \<and> dec_value ds < 2 ^ 63 \<and> sint d = int (dec_value ds))"
proof -
  have nonneg: "unat d = n \<longleftrightarrow> sint d = int n" if "n < 2 ^ 63" for n
    using that by (rule unat_eq_iff_sint_eq)
  have "parse_mtime_filter C (Some v) = Some (op, d) \<longleftrightarrow>
      (\<exists>s. v = sign_text op @ s \<and> parse_mtime_body C s = Some d \<and> (op = COMPARE_EQUAL \<longrightarrow> unsigned_start s))"
    by (rule mtime_parser.parse_Some_iff)
  also have "\<dots> \<longleftrightarrow> (\<exists>s. v = sign_text op @ s \<and> parse_mtime_body C s = Some d)"
    using assms digits_unsigned_start [of _ "[]"] by (auto simp: parse_mtime_body_iff)
  also have "\<dots> \<longleftrightarrow> (\<exists>s. v = sign_text op @ s \<and> digits s \<and> dec_value s < 2 ^ 63 \<and> unat d = dec_value s)"
    using assms parse_mtime_body_iff [OF assms(1)] by auto
  finally show ?thesis using nonneg by (auto simp del: of_nat_less_numeral_iff; metis)
qed

theorem parse_mtime_filter_grammar_witness:
  "parse_mtime_filter ref_core (Some ''-30'') = Some (COMPARE_LESS, 30)"
  using parse_mtime_filter_grammar [OF ref_core_ok, of "''-30''" COMPARE_LESS 30]
  by (simp add: sign_text_def digits_def is_digit_def base_value_def digit_value_def)

text \<open>C27: \<^verbatim>\<open>--perm\<close> accepts exactly the non-empty octal texts whose value is at most 07777,
  leading zeros included, and returns that value: the shift overflow test only ever refuses
  values that are too large anyway.\<close>

theorem parse_perm_filter_is_octal:
  assumes "core_ok C" "no_nul v"
  shows "parse_perm_filter C (Some v) =
    (if v \<noteq> [] \<and> list_all is_octal v \<and> base_value 8 v \<le> 0xFFF
     then Some (of_nat (base_value 8 v)) else None)"
  by (rule parse_perm_filter_eq [OF assms])

theorem parse_perm_filter_is_octal_witness:
  "parse_perm_filter ref_core (Some ''0755'') = Some 493"
  using parse_perm_filter_is_octal [OF ref_core_ok, of "''0755''"]
  by (simp add: is_octal_def base_value_def digit_value_def)

text \<open>C28: \<^verbatim>\<open>--threads\<close> accepts the three keywords and decimal numbers that fit 64 bits
  and nothing else; 0 is an alias of \<open>mono\<close>, and only a positive number selects the explicit mode,
  with exactly that count.\<close>

theorem parse_threads_modes:
  assumes "core_ok C" "no_nul v"
  shows "parse_threads C (Some v) =
    (if v = ''mono'' then Some (THREADS_MODE_MONO, 0)
     else if v = ''auto'' then Some (THREADS_MODE_AUTO, 0)
     else if v = ''io'' then Some (THREADS_MODE_IO, 0)
     else if digits v \<and> dec_value v < 2 ^ 64
       then (if dec_value v = 0 then Some (THREADS_MODE_MONO, 0)
             else Some (THREADS_MODE_EXPLICIT, dec_value v))
     else None)"
  by (rule parse_threads_eq [OF assms])

theorem parse_threads_modes_witness:
  "parse_threads ref_core (Some ''4'') = Some (THREADS_MODE_EXPLICIT, 4)"
  using parse_threads_modes [OF ref_core_ok, of "''4''"]
  by (simp add: digits_def is_digit_def base_value_def digit_value_def)

end
