(* ===== verification/Seek_Spec.thy ===== *)
theory Seek_Spec
  imports Seek_Types
begin

text \<open>
  The option tables of \<^verbatim>\<open>src/cli/bc_seek_cli_spec.c\<close> that the program hands to the
  command-line parser of bc-runtime. The parser is external; it stores the value of an option
  under the key \<^verbatim>\<open>global.NAME\<close> or \<^verbatim>\<open>find.NAME\<close>. The lemmas say that the tables are well
  formed, so that a later theory can show that the binder reads declared keys only, each at
  the declared type.
\<close>

datatype option_type = OPTION_STRING | OPTION_ENUM | OPTION_INTEGER | OPTION_FLAG

record option_spec =
  spec_long_name :: string
  spec_type :: option_type
  spec_allowed_values :: "string list option"
  spec_default_value :: "string option"
  spec_required :: bool
  spec_value_placeholder :: "string option"
  spec_help_summary :: string

record command_spec =
  command_name :: string
  command_summary :: string
  command_options :: "option_spec list"
  command_positional_usage :: string
  command_positional_min :: nat
  command_positional_max :: nat

record program_spec =
  program_name :: string
  program_version :: string
  program_summary :: string
  program_global_options :: "option_spec list"
  program_commands :: "command_spec list"

definition type_allowed_values :: "string list" where
  "type_allowed_values = [''f'', ''d'', ''l'', ''file'', ''dir'', ''link'', ''symlink'']"

definition global_options :: "option_spec list" where
  "global_options =
    [\<lparr>spec_long_name = ''threads'', spec_type = OPTION_STRING, spec_allowed_values = None,
      spec_default_value = Some ''auto'', spec_required = False,
      spec_value_placeholder = Some ''mono|auto|io|N'',
      spec_help_summary = ''thread mode: mono (single-thread, alias 0), auto (CPU-bound, physical cores - 1, default), io (I/O-bound, logical processors - 1, oversubscribe), or N (1..logical_cpu_count)''\<rparr>]"

definition find_options :: "option_spec list" where
  "find_options =
    [\<lparr>spec_long_name = ''name'', spec_type = OPTION_STRING, spec_allowed_values = None,
      spec_default_value = None, spec_required = False, spec_value_placeholder = Some ''GLOB'',
      spec_help_summary = ''match entries whose basename matches the shell glob''\<rparr>,
     \<lparr>spec_long_name = ''iname'', spec_type = OPTION_STRING, spec_allowed_values = None,
      spec_default_value = None, spec_required = False, spec_value_placeholder = Some ''GLOB'',
      spec_help_summary = ''like --name but case-insensitive''\<rparr>,
     \<lparr>spec_long_name = ''path'', spec_type = OPTION_STRING, spec_allowed_values = None,
      spec_default_value = None, spec_required = False, spec_value_placeholder = Some ''GLOB'',
      spec_help_summary = ''match entries whose full path matches the shell glob''\<rparr>,
     \<lparr>spec_long_name = ''type'', spec_type = OPTION_ENUM, spec_allowed_values = Some type_allowed_values,
      spec_default_value = None, spec_required = False, spec_value_placeholder = Some ''f|d|l'',
      spec_help_summary = ''filter by entry type''\<rparr>,
     \<lparr>spec_long_name = ''size'', spec_type = OPTION_STRING, spec_allowed_values = None,
      spec_default_value = None, spec_required = False, spec_value_placeholder = Some ''+N|-N|N[cwbkMGT]'',
      spec_help_summary = ''filter by size (find(1) syntax; default unit: 512-byte blocks)''\<rparr>,
     \<lparr>spec_long_name = ''mtime'', spec_type = OPTION_STRING, spec_allowed_values = None,
      spec_default_value = None, spec_required = False, spec_value_placeholder = Some ''+N|-N|N'',
      spec_help_summary = ''filter by modification age in 24h units (find(1) semantics)''\<rparr>,
     \<lparr>spec_long_name = ''newer'', spec_type = OPTION_STRING, spec_allowed_values = None,
      spec_default_value = None, spec_required = False, spec_value_placeholder = Some ''PATH'',
      spec_help_summary = ''match entries modified more recently than the reference file''\<rparr>,
     \<lparr>spec_long_name = ''perm'', spec_type = OPTION_STRING, spec_allowed_values = None,
      spec_default_value = None, spec_required = False, spec_value_placeholder = Some ''OCTAL'',
      spec_help_summary = ''match entries whose permission bits equal the octal mask''\<rparr>,
     \<lparr>spec_long_name = ''max-depth'', spec_type = OPTION_INTEGER, spec_allowed_values = None,
      spec_default_value = None, spec_required = False, spec_value_placeholder = Some ''N'',
      spec_help_summary = ''descend at most N levels below each root''\<rparr>,
     \<lparr>spec_long_name = ''min-depth'', spec_type = OPTION_INTEGER, spec_allowed_values = None,
      spec_default_value = Some ''0'', spec_required = False, spec_value_placeholder = Some ''N'',
      spec_help_summary = ''do not emit entries shallower than N''\<rparr>,
     \<lparr>spec_long_name = ''hidden'', spec_type = OPTION_FLAG, spec_allowed_values = None,
      spec_default_value = None, spec_required = False, spec_value_placeholder = None,
      spec_help_summary = ''include entries whose basename starts with a dot''\<rparr>,
     \<lparr>spec_long_name = ''no-ignore'', spec_type = OPTION_FLAG, spec_allowed_values = None,
      spec_default_value = None, spec_required = False, spec_value_placeholder = None,
      spec_help_summary = ''do not prune well-known directories (.git, node_modules, ...)''\<rparr>,
     \<lparr>spec_long_name = ''follow-symlinks'', spec_type = OPTION_FLAG, spec_allowed_values = None,
      spec_default_value = None, spec_required = False, spec_value_placeholder = None,
      spec_help_summary = ''follow symbolic links during descent''\<rparr>,
     \<lparr>spec_long_name = ''one-file-system'', spec_type = OPTION_FLAG, spec_allowed_values = None,
      spec_default_value = None, spec_required = False, spec_value_placeholder = None,
      spec_help_summary = ''do not cross filesystem boundaries''\<rparr>,
     \<lparr>spec_long_name = ''null'', spec_type = OPTION_FLAG, spec_allowed_values = None,
      spec_default_value = None, spec_required = False, spec_value_placeholder = None,
      spec_help_summary = ''separate matches with a NUL byte instead of a newline''\<rparr>,
     \<lparr>spec_long_name = ''output'', spec_type = OPTION_STRING, spec_allowed_values = None,
      spec_default_value = Some ''-'', spec_required = False, spec_value_placeholder = Some ''-|PATH'',
      spec_help_summary = ''output destination (- writes to stdout)''\<rparr>]"

definition commands :: "command_spec list" where
  "commands =
    [\<lparr>command_name = ''find'', command_summary = ''enumerate files matching predicates'',
      command_options = find_options, command_positional_usage = ''[path...]'',
      command_positional_min = 0, command_positional_max = 0\<rparr>]"

text \<open>The version string comes from the build (\<^verbatim>\<open>BC_SEEK_VERSION_STRING\<close>).\<close>

definition cli_program_spec :: "string \<Rightarrow> program_spec" where
  "cli_program_spec version =
    \<lparr>program_name = ''bc-seek'', program_version = version,
     program_summary = ''parallel hardware-saturating file search'',
     program_global_options = global_options, program_commands = commands\<rparr>"

text \<open>The keys of a program's options in the configuration store, with their types and defaults.\<close>

definition scoped :: "string \<Rightarrow> option_spec \<Rightarrow> string \<times> option_type \<times> string option" where
  "scoped scope opt = (scope @ ''.'' @ spec_long_name opt, spec_type opt, spec_default_value opt)"

definition declared_keys :: "program_spec \<Rightarrow> (string \<times> option_type \<times> string option) list" where
  "declared_keys spec =
     map (scoped ''global'') (program_global_options spec) @
     concat (map (\<lambda>cmd. map (scoped (command_name cmd)) (command_options cmd)) (program_commands spec))"

lemma declared_keys_value:
  "declared_keys (cli_program_spec version) =
    [(''global.threads'', OPTION_STRING, Some ''auto''),
     (''find.name'', OPTION_STRING, None), (''find.iname'', OPTION_STRING, None),
     (''find.path'', OPTION_STRING, None), (''find.type'', OPTION_ENUM, None),
     (''find.size'', OPTION_STRING, None), (''find.mtime'', OPTION_STRING, None),
     (''find.newer'', OPTION_STRING, None), (''find.perm'', OPTION_STRING, None),
     (''find.max-depth'', OPTION_INTEGER, None), (''find.min-depth'', OPTION_INTEGER, Some ''0''),
     (''find.hidden'', OPTION_FLAG, None), (''find.no-ignore'', OPTION_FLAG, None),
     (''find.follow-symlinks'', OPTION_FLAG, None), (''find.one-file-system'', OPTION_FLAG, None),
     (''find.null'', OPTION_FLAG, None), (''find.output'', OPTION_STRING, Some ''-'')]"
  by (simp add: declared_keys_def cli_program_spec_def global_options_def commands_def find_options_def
      scoped_def)

end
