(* ===== verification/Seek_Bind.thy ===== *)
theory Seek_Bind
  imports Seek_Parsers Seek_Spec Seek_Demo
begin

text \<open>
  The option binder of \<^verbatim>\<open>src/cli/bc_seek_cli_spec.c\<close>: from the configuration store to
  \<open>cli_options\<close>. The store of bc-runtime is a parameter, the answers of its three lookups.
  \<open>bc_seek_cli_bind_options\<close> is the list of its stages in source order; a stage that returns
  false is \<open>Inl\<close> the text it writes to the standard error stream.

  The lemmas show the invariant of bound options (\<open>wf_options\<close>) stage by stage, that every
  overflow is refused before the multiplication, what each rejected option reports, and that
  the binder reads declared keys only.
\<close>

section \<open>Definitions\<close>

text \<open>\<open>bc_runtime_config_store_get_string\<close> returns false (\<open>None\<close>) or a pointer, which may be
  NULL (\<open>Some None\<close>); the integer and boolean lookups return false or a value.\<close>

record config_store =
  store_string :: "string \<Rightarrow> string option option"
  store_integer :: "string \<Rightarrow> int option"
  store_boolean :: "string \<Rightarrow> bool option"

record cli_parsed =
  parsed_positional_count :: nat
  parsed_positional_values :: "string list"

type_synonym message = string

text \<open>The pieces that are not NULL, in order; the writer of bc-core carries them to stderr.\<close>

definition cli_emit_stderr :: "string option \<Rightarrow> string option \<Rightarrow> string option \<Rightarrow> string option \<Rightarrow> message" where
  "cli_emit_stderr prefix middle value suffix =
     concat (map (\<lambda>piece. case piece of None \<Rightarrow> [] | Some s \<Rightarrow> s) [prefix, middle, value, suffix])"

text \<open>The quote and the newline that the messages use.\<close>

abbreviation quote :: char where "quote \<equiv> CHR 0x27"

abbreviation newline :: char where "newline \<equiv> CHR 0x0A"

definition plain_message :: "string \<Rightarrow> message" where
  "plain_message text = cli_emit_stderr (Some (text @ [newline])) None None None"

definition value_message :: "string \<Rightarrow> string option \<Rightarrow> message" where
  "value_message text value = cli_emit_stderr (Some (text @ [quote])) None value (Some [quote, newline])"

definition bind_global_threads :: "bc_core \<Rightarrow> config_store \<Rightarrow> message + threads_mode \<times> nat" where
  "bind_global_threads C store =
     (case store_string store ''global.threads'' of
        None \<Rightarrow> Inl (plain_message ''bc-seek: internal error: missing global.threads'')
      | Some threads_value \<Rightarrow>
          (case parse_threads C threads_value of
             None \<Rightarrow> Inl (value_message ''bc-seek: invalid --threads value: '' threads_value)
           | Some result \<Rightarrow> Inr result))"

definition cli_lookup_string :: "config_store \<Rightarrow> string \<Rightarrow> string option" where
  "cli_lookup_string store key =
     (case store_string store key of
        None \<Rightarrow> None
      | Some None \<Rightarrow> None
      | Some (Some value) \<Rightarrow> if char_at value 0 = NUL then None else Some value)"

definition cli_lookup_integer :: "config_store \<Rightarrow> string \<Rightarrow> int option" where
  "cli_lookup_integer store key = store_integer store key"

definition cli_lookup_boolean :: "config_store \<Rightarrow> string \<Rightarrow> bool option" where
  "cli_lookup_boolean store key = store_boolean store key"

definition bind_output :: "bc_core \<Rightarrow> string \<Rightarrow> (output_mode \<times> string option) option" where
  "bind_output C value =
     (if strings_equal C value ''-'' then Some (OUTPUT_MODE_STDOUT, None)
      else if char_at value 0 = NUL then None
      else Some (OUTPUT_MODE_FILE, Some value))"

definition bind_newer_reference :: "os \<Rightarrow> string \<Rightarrow> i64 option" where
  "bind_newer_reference os path =
     (case sys_stat os path of Inl _ \<Rightarrow> None | Inr reference_stat \<Rightarrow> Some (st_mtime reference_stat))"

subsection \<open>The stages of bc_seek_cli_bind_options\<close>

definition bind_threads_stage :: "bc_core \<Rightarrow> config_store \<Rightarrow> cli_options \<Rightarrow> message + cli_options" where
  "bind_threads_stage C store opts =
     (case bind_global_threads C store of
        Inl e \<Rightarrow> Inl e
      | Inr (mode, count) \<Rightarrow>
          Inr (opts\<lparr>opt_threads_mode := mode, opt_explicit_worker_count := count\<rparr>))"

definition bind_name_stage :: "config_store \<Rightarrow> cli_options \<Rightarrow> message + cli_options" where
  "bind_name_stage store opts =
     (case (cli_lookup_string store ''find.name'', cli_lookup_string store ''find.iname'') of
        (Some _, Some _) \<Rightarrow> Inl (plain_message ''bc-seek: --name and --iname are mutually exclusive'')
      | (Some name_value, None) \<Rightarrow>
          Inr (opts\<lparr>opt_has_name_glob := True, opt_name_glob := Some name_value, opt_name_case_insensitive := False\<rparr>)
      | (None, Some iname_value) \<Rightarrow>
          Inr (opts\<lparr>opt_has_name_glob := True, opt_name_glob := Some iname_value, opt_name_case_insensitive := True\<rparr>)
      | (None, None) \<Rightarrow> Inr opts)"

definition bind_path_stage :: "config_store \<Rightarrow> cli_options \<Rightarrow> message + cli_options" where
  "bind_path_stage store opts =
     (case cli_lookup_string store ''find.path'' of
        None \<Rightarrow> Inr opts
      | Some path_value \<Rightarrow> Inr (opts\<lparr>opt_has_path_glob := True, opt_path_glob := Some path_value\<rparr>))"

definition bind_type_stage :: "bc_core \<Rightarrow> config_store \<Rightarrow> cli_options \<Rightarrow> message + cli_options" where
  "bind_type_stage C store opts =
     (case cli_lookup_string store ''find.type'' of
        None \<Rightarrow> Inr opts
      | Some type_value \<Rightarrow>
          (case parse_type_filter C type_value of
             None \<Rightarrow> Inl (value_message ''bc-seek: invalid --type: '' (Some type_value))
           | Some t \<Rightarrow> Inr (opts\<lparr>opt_type_filter := t, opt_has_type_filter := True\<rparr>)))"

definition bind_size_stage :: "bc_core \<Rightarrow> config_store \<Rightarrow> cli_options \<Rightarrow> message + cli_options" where
  "bind_size_stage C store opts =
     (case cli_lookup_string store ''find.size'' of
        None \<Rightarrow> Inr opts
      | Some size_value \<Rightarrow>
          (case parse_size_filter C (Some size_value) of
             None \<Rightarrow> Inl (value_message ''bc-seek: invalid --size: '' (Some size_value))
           | Some (op, bytes) \<Rightarrow>
               Inr (opts\<lparr>opt_size_op := op, opt_size_threshold_bytes := bytes, opt_has_size_filter := True\<rparr>)))"

definition bind_mtime_stage :: "bc_core \<Rightarrow> config_store \<Rightarrow> cli_options \<Rightarrow> message + cli_options" where
  "bind_mtime_stage C store opts =
     (case cli_lookup_string store ''find.mtime'' of
        None \<Rightarrow> Inr opts
      | Some mtime_value \<Rightarrow>
          (case parse_mtime_filter C (Some mtime_value) of
             None \<Rightarrow> Inl (value_message ''bc-seek: invalid --mtime: '' (Some mtime_value))
           | Some (op, days) \<Rightarrow>
               if sint days > sint (INT64_MAX div 86400)
               then Inl (value_message ''bc-seek: --mtime value out of range: '' (Some mtime_value))
               else Inr (opts\<lparr>opt_mtime_op := op, opt_mtime_threshold_seconds_ago := days * 86400,
                             opt_has_mtime_filter := True\<rparr>)))"

definition bind_newer_stage :: "os \<Rightarrow> config_store \<Rightarrow> cli_options \<Rightarrow> message + cli_options" where
  "bind_newer_stage os store opts =
     (case cli_lookup_string store ''find.newer'' of
        None \<Rightarrow> Inr opts
      | Some newer_value \<Rightarrow>
          (case bind_newer_reference os newer_value of
             None \<Rightarrow> Inl (value_message ''bc-seek: cannot stat --newer reference: '' (Some newer_value))
           | Some reference_mtime \<Rightarrow>
               Inr (opts\<lparr>opt_has_newer_reference := True, opt_newer_reference_mtime := reference_mtime\<rparr>)))"

definition bind_perm_stage :: "bc_core \<Rightarrow> config_store \<Rightarrow> cli_options \<Rightarrow> message + cli_options" where
  "bind_perm_stage C store opts =
     (case cli_lookup_string store ''find.perm'' of
        None \<Rightarrow> Inr opts
      | Some perm_value \<Rightarrow>
          (case parse_perm_filter C (Some perm_value) of
             None \<Rightarrow> Inl (value_message ''bc-seek: invalid --perm: '' (Some perm_value))
           | Some perm_bits \<Rightarrow> Inr (opts\<lparr>opt_perm_mask := perm_bits, opt_has_perm_filter := True\<rparr>)))"

definition bind_max_depth_stage :: "config_store \<Rightarrow> cli_options \<Rightarrow> message + cli_options" where
  "bind_max_depth_stage store opts =
     (case cli_lookup_integer store ''find.max-depth'' of
        None \<Rightarrow> Inr opts
      | Some max_depth_value \<Rightarrow>
          if max_depth_value < 0 then Inl (plain_message ''bc-seek: --max-depth must be non-negative'')
          else Inr (opts\<lparr>opt_has_max_depth := True, opt_max_depth := nat max_depth_value\<rparr>))"

definition bind_min_depth_stage :: "config_store \<Rightarrow> cli_options \<Rightarrow> message + cli_options" where
  "bind_min_depth_stage store opts =
     (case cli_lookup_integer store ''find.min-depth'' of
        None \<Rightarrow> Inr opts
      | Some min_depth_value \<Rightarrow>
          if min_depth_value < 0 then Inl (plain_message ''bc-seek: --min-depth must be non-negative'')
          else Inr (opts\<lparr>opt_min_depth := nat min_depth_value\<rparr>))"

definition check_depth_stage :: "cli_options \<Rightarrow> message + cli_options" where
  "check_depth_stage opts =
     (if opt_has_max_depth opts \<and> opt_min_depth opts > opt_max_depth opts
      then Inl (plain_message ''bc-seek: --min-depth cannot exceed --max-depth'')
      else Inr opts)"

definition flag_or :: "bool \<Rightarrow> bool option \<Rightarrow> bool" where
  "flag_or old flag = (case flag of None \<Rightarrow> old | Some b \<Rightarrow> b)"

definition bind_flags_stage :: "config_store \<Rightarrow> cli_options \<Rightarrow> message + cli_options" where
  "bind_flags_stage store opts =
     Inr (opts\<lparr>
       opt_include_hidden := flag_or (opt_include_hidden opts) (cli_lookup_boolean store ''find.hidden''),
       opt_respect_ignore_defaults := flag_or (opt_respect_ignore_defaults opts)
         (map_option Not (cli_lookup_boolean store ''find.no-ignore'')),
       opt_follow_symlinks := flag_or (opt_follow_symlinks opts) (cli_lookup_boolean store ''find.follow-symlinks''),
       opt_one_file_system := flag_or (opt_one_file_system opts) (cli_lookup_boolean store ''find.one-file-system''),
       opt_null_terminated := flag_or (opt_null_terminated opts) (cli_lookup_boolean store ''find.null'')\<rparr>)"

text \<open>A store that answers with a NULL output pointer would be dereferenced: \<open>the None\<close>.\<close>

definition bind_output_stage :: "bc_core \<Rightarrow> config_store \<Rightarrow> cli_options \<Rightarrow> message + cli_options" where
  "bind_output_stage C store opts =
     (case store_string store ''find.output'' of
        None \<Rightarrow> Inl (plain_message ''bc-seek: internal error: missing find.output'')
      | Some output_value \<Rightarrow>
          (case bind_output C (the output_value) of
             None \<Rightarrow> Inl (value_message ''bc-seek: invalid --output: '' output_value)
           | Some (mode, path) \<Rightarrow> Inr (opts\<lparr>opt_output_mode := mode, opt_output_path := path\<rparr>)))"

text \<open>The count goes through an \<open>int\<close> and back, which keeps it: it is at most \<open>argc\<close>.\<close>

definition bind_positional_stage :: "cli_parsed \<Rightarrow> cli_options \<Rightarrow> message + cli_options" where
  "bind_positional_stage parsed opts =
     Inr (opts\<lparr>opt_positional_argument_count := parsed_positional_count parsed,
               opt_positional_argument_values := parsed_positional_values parsed\<rparr>)"

definition bind_stages :: "bc_core \<Rightarrow> os \<Rightarrow> config_store \<Rightarrow> cli_parsed \<Rightarrow> (cli_options \<Rightarrow> message + cli_options) list" where
  "bind_stages C os store parsed =
     [bind_threads_stage C store, bind_name_stage store, bind_path_stage store, bind_type_stage C store,
      bind_size_stage C store, bind_mtime_stage C store, bind_newer_stage os store, bind_perm_stage C store,
      bind_max_depth_stage store, bind_min_depth_stage store, check_depth_stage, bind_flags_stage store,
      bind_output_stage C store, bind_positional_stage parsed]"

definition bind_options :: "bc_core \<Rightarrow> os \<Rightarrow> config_store \<Rightarrow> cli_parsed \<Rightarrow> message + cli_options" where
  "bind_options C os store parsed =
     run_stages (bind_stages C os store parsed) (zero_options\<lparr>opt_respect_ignore_defaults := True\<rparr>)"

lemmas bind_stage_defs = bind_threads_stage_def bind_name_stage_def bind_path_stage_def bind_type_stage_def
  bind_size_stage_def bind_mtime_stage_def bind_newer_stage_def bind_perm_stage_def
  bind_max_depth_stage_def bind_min_depth_stage_def check_depth_stage_def bind_flags_stage_def
  bind_output_stage_def bind_positional_stage_def

section \<open>The invariant of bound options\<close>

text \<open>The strings of the store are C strings.\<close>

definition store_ok :: "config_store \<Rightarrow> bool" where
  "store_ok store \<longleftrightarrow> (\<forall>key v. store_string store key = Some (Some v) \<longrightarrow> no_nul v)"

lemma lookup_string_Some:
  assumes "store_ok store" "cli_lookup_string store key = Some v"
  shows "v \<noteq> []" "no_nul v"
  using assms by (auto simp: cli_lookup_string_def store_ok_def char_at_def split: option.splits if_splits)

definition some_text :: "string option \<Rightarrow> bool" where
  "some_text v \<longleftrightarrow> v \<noteq> None \<and> v \<noteq> Some []"

definition wf_options :: "cli_options \<Rightarrow> bool" where
  "wf_options opts \<longleftrightarrow>
     (opt_threads_mode opts = THREADS_MODE_EXPLICIT \<longleftrightarrow> 0 < opt_explicit_worker_count opts) \<and>
     opt_explicit_worker_count opts < 2 ^ 64 \<and>
     (opt_has_name_glob opts \<longrightarrow> some_text (opt_name_glob opts)) \<and>
     (opt_has_path_glob opts \<longrightarrow> some_text (opt_path_glob opts)) \<and>
     (opt_has_type_filter opts \<longrightarrow> opt_type_filter opts \<noteq> ENTRY_TYPE_ANY) \<and>
     (opt_has_mtime_filter opts \<longrightarrow>
        0 \<le> sint (opt_mtime_threshold_seconds_ago opts) \<and> 86400 dvd sint (opt_mtime_threshold_seconds_ago opts)) \<and>
     (opt_has_perm_filter opts \<longrightarrow> unat (opt_perm_mask opts) \<le> 0xFFF) \<and>
     (opt_output_mode opts = OUTPUT_MODE_FILE \<longrightarrow> some_text (opt_output_path opts))"

definition depths_ordered :: "cli_options \<Rightarrow> bool" where
  "depths_ordered opts \<longleftrightarrow> (opt_has_max_depth opts \<longrightarrow> opt_min_depth opts \<le> opt_max_depth opts)"

lemma wf_initial: "wf_options (zero_options\<lparr>opt_respect_ignore_defaults := True\<rparr>)"
  by (simp add: wf_options_def zero_options_def)

text \<open>The range test in front of the multiplication by a day's seconds.\<close>

lemma sint_day_limit: "sint (INT64_MAX div 86400) = 106751991167300"
proof -
  have u: "unat (INT64_MAX div 86400) = 106751991167300"
    by (simp add: unat_div unat_INT64_MAX)
  show ?thesis using sint_of_small [of "INT64_MAX div 86400"] u by simp
qed

lemma days_to_seconds:
  fixes days :: i64
  assumes "sint days = int n" "n < 2 ^ 63" "\<not> sint days > sint (INT64_MAX div 86400)"
  shows "sint (days * 86400) = int n * 86400"
proof -
  have n: "unat days = n" using assms(1,2) unat_eq_iff_sint_eq by blast
  have le: "n \<le> 106751991167300" using assms(1,3) sint_day_limit by simp
  have "unat (days * 86400) = n * 86400" using le n by (simp add: unat_word_ariths)
  then show ?thesis using le sint_of_small [of "days * 86400"] by simp
qed

lemma bind_threads_wf:
  assumes "core_ok C" "store_ok store" "bind_threads_stage C store opts = Inr opts'" "wf_options opts"
  shows "wf_options opts'"
proof -
  obtain v m n where v: "store_string store ''global.threads'' = Some v" "parse_threads C v = Some (m, n)"
    and o: "opts' = opts\<lparr>opt_threads_mode := m, opt_explicit_worker_count := n\<rparr>"
    using assms(3) by (auto simp: bind_threads_stage_def bind_global_threads_def split: sum.splits option.splits)
  obtain w where w: "v = Some w" using v(2) by (cases v) (auto simp: parse_threads_def)
  then have "no_nul w" using v(1) assms(2) by (auto simp: store_ok_def)
  then have "(m = THREADS_MODE_EXPLICIT \<longleftrightarrow> 0 < n) \<and> n < 2 ^ 64"
    using v(2) w parse_threads_eq [OF assms(1)] by (auto split: if_splits)
  then show ?thesis using assms(4) o by (simp add: wf_options_def)
qed

lemma bind_mtime_wf:
  assumes "core_ok C" "store_ok store" "bind_mtime_stage C store opts = Inr opts'" "wf_options opts"
  shows "wf_options opts'"
proof (cases "cli_lookup_string store ''find.mtime''")
  case None
  then show ?thesis using assms(3,4) by (simp add: bind_mtime_stage_def)
next
  case (Some v)
  then obtain op days where p: "parse_mtime_filter C (Some v) = Some (op, days)"
    and le: "\<not> sint days > sint (INT64_MAX div 86400)"
    and o: "opts' = opts\<lparr>opt_mtime_op := op, opt_mtime_threshold_seconds_ago := days * 86400,
       opt_has_mtime_filter := True\<rparr>"
    using assms(3) by (auto simp: bind_mtime_stage_def split: option.splits if_splits)
  obtain s where s: "no_nul s" "parse_mtime_body C s = Some days"
    using p mtime_parser.parse_Some_iff lookup_string_Some(2) [OF assms(2) Some] by auto
  then have d: "sint days = int (dec_value s)" "dec_value s < 2 ^ 63"
    using parse_mtime_body_iff [OF assms(1) s(1)] unat_eq_iff_sint_eq by auto
  have "sint (days * 86400) = int (dec_value s) * 86400" by (rule days_to_seconds [OF d le])
  then show ?thesis using assms(4) o by (simp add: wf_options_def)
qed

lemma bind_perm_wf:
  assumes "core_ok C" "store_ok store" "bind_perm_stage C store opts = Inr opts'" "wf_options opts"
  shows "wf_options opts'"
proof (cases "cli_lookup_string store ''find.perm''")
  case None
  then show ?thesis using assms(3,4) by (simp add: bind_perm_stage_def)
next
  case (Some v)
  then obtain b where p: "parse_perm_filter C (Some v) = Some b"
    and o: "opts' = opts\<lparr>opt_perm_mask := b, opt_has_perm_filter := True\<rparr>"
    using assms(3) by (auto simp: bind_perm_stage_def split: option.splits)
  have "unat b \<le> 0xFFF"
    using p parse_perm_filter_eq [OF assms(1) lookup_string_Some(2) [OF assms(2) Some]]
    by (auto simp: unat_of_nat split: if_splits)
  then show ?thesis using assms(4) o by (simp add: wf_options_def)
qed

lemma bind_type_wf:
  assumes "bind_type_stage C store opts = Inr opts'" "wf_options opts"
  shows "wf_options opts'"
proof (cases "cli_lookup_string store ''find.type''")
  case None
  then show ?thesis using assms by (simp add: bind_type_stage_def)
next
  case (Some v)
  then obtain t where t: "parse_type_filter C v = Some t"
    and o: "opts' = opts\<lparr>opt_type_filter := t, opt_has_type_filter := True\<rparr>"
    using assms(1) by (auto simp: bind_type_stage_def split: option.splits)
  have "t \<noteq> ENTRY_TYPE_ANY" using t by (auto simp: parse_type_filter_def split: if_splits)
  then show ?thesis using assms(2) o by (simp add: wf_options_def)
qed

lemma bind_output_wf:
  assumes "bind_output_stage C store opts = Inr opts'" "wf_options opts"
  shows "wf_options opts'"
proof -
  obtain v m path where v: "bind_output C v = Some (m, path)"
    and o: "opts' = opts\<lparr>opt_output_mode := m, opt_output_path := path\<rparr>"
    using assms(1) by (auto simp: bind_output_stage_def split: option.splits)
  have "m = OUTPUT_MODE_FILE \<longrightarrow> some_text path"
    using v by (cases v) (auto simp: bind_output_def some_text_def char_at_def split: if_splits)
  then show ?thesis using assms(2) o by (simp add: wf_options_def)
qed

text \<open>The updates of the other stages keep the invariant.\<close>

lemma wf_updates:
  assumes "wf_options opts"
  shows "v \<noteq> [] \<Longrightarrow> wf_options (opts\<lparr>opt_has_name_glob := True, opt_name_glob := Some v, opt_name_case_insensitive := ci\<rparr>)"
    and "v \<noteq> [] \<Longrightarrow> wf_options (opts\<lparr>opt_has_path_glob := True, opt_path_glob := Some v\<rparr>)"
    and "wf_options (opts\<lparr>opt_size_op := op, opt_size_threshold_bytes := b, opt_has_size_filter := True\<rparr>)"
    and "wf_options (opts\<lparr>opt_has_newer_reference := True, opt_newer_reference_mtime := t\<rparr>)"
    and "wf_options (opts\<lparr>opt_has_max_depth := True, opt_max_depth := n\<rparr>)"
    and "wf_options (opts\<lparr>opt_min_depth := n\<rparr>)"
    and "wf_options (opts\<lparr>opt_include_hidden := f1, opt_respect_ignore_defaults := f2,
           opt_follow_symlinks := f3, opt_one_file_system := f4, opt_null_terminated := f5\<rparr>)"
    and "wf_options (opts\<lparr>opt_positional_argument_count := n, opt_positional_argument_values := vs\<rparr>)"
  using assms by (simp_all add: wf_options_def some_text_def)

lemma bind_name_wf:
  assumes "store_ok store" "bind_name_stage store opts = Inr opts'" "wf_options opts"
  shows "wf_options opts'"
  using assms(2) wf_updates(1) [OF assms(3)] assms(3) lookup_string_Some(1) [OF assms(1)]
  unfolding bind_name_stage_def by (simp split: option.splits) blast+

lemma bind_path_wf:
  assumes "store_ok store" "bind_path_stage store opts = Inr opts'" "wf_options opts"
  shows "wf_options opts'"
  using assms(2) wf_updates(2) [OF assms(3)] assms(3) lookup_string_Some(1) [OF assms(1)]
  unfolding bind_path_stage_def by (simp split: option.splits) blast

lemma bind_size_wf:
  "bind_size_stage C store opts = Inr opts' \<Longrightarrow> wf_options opts \<Longrightarrow> wf_options opts'"
  unfolding bind_size_stage_def using wf_updates(3) [of opts] by (simp split: option.splits prod.splits) blast

lemma bind_newer_wf:
  "bind_newer_stage os store opts = Inr opts' \<Longrightarrow> wf_options opts \<Longrightarrow> wf_options opts'"
  unfolding bind_newer_stage_def using wf_updates(4) [of opts] by (simp split: option.splits) blast

lemma bind_max_depth_wf:
  "bind_max_depth_stage store opts = Inr opts' \<Longrightarrow> wf_options opts \<Longrightarrow> wf_options opts'"
  unfolding bind_max_depth_stage_def using wf_updates(5) [of opts] by (simp split: option.splits if_splits) blast

lemma bind_min_depth_wf:
  "bind_min_depth_stage store opts = Inr opts' \<Longrightarrow> wf_options opts \<Longrightarrow> wf_options opts'"
  unfolding bind_min_depth_stage_def using wf_updates(6) [of opts] by (simp split: option.splits if_splits) blast

lemma check_depth_wf: "check_depth_stage opts = Inr opts' \<Longrightarrow> wf_options opts \<Longrightarrow> wf_options opts'"
  by (simp add: check_depth_stage_def split: if_splits)

lemma bind_flags_wf: "bind_flags_stage store opts = Inr opts' \<Longrightarrow> wf_options opts \<Longrightarrow> wf_options opts'"
  unfolding bind_flags_stage_def using wf_updates(7) [of opts] by (simp only: sum.inject) blast

lemma bind_positional_wf:
  "bind_positional_stage parsed opts = Inr opts' \<Longrightarrow> wf_options opts \<Longrightarrow> wf_options opts'"
  unfolding bind_positional_stage_def using wf_updates(8) [of opts] by (simp only: sum.inject) blast

lemmas stage_wf = bind_threads_wf bind_mtime_wf bind_perm_wf bind_type_wf bind_output_wf bind_name_wf
  bind_path_wf bind_size_wf bind_newer_wf bind_max_depth_wf bind_min_depth_wf check_depth_wf
  bind_flags_wf bind_positional_wf

lemma bind_options_wf:
  assumes "core_ok C" "store_ok store" "bind_options C os store parsed = Inr opts"
  shows "wf_options opts"
proof (rule run_stages_invariant [where P = wf_options, OF _ assms(3) [unfolded bind_options_def] wf_initial])
  fix f a b
  assume f: "f \<in> set (bind_stages C os store parsed)" and ab: "f a = Inr b" "wf_options a"
  from f show "wf_options b"
    unfolding bind_stages_def list.set insert_iff empty_iff
    by (elim disjE FalseE; insert ab assms(1,2)) (auto intro: stage_wf)
qed

text \<open>The depth test runs after both depths are bound, and no later stage touches them.\<close>

lemma bind_options_depths:
  assumes "bind_options C os store parsed = Inr opts"
  shows "depths_ordered opts"
proof -
  let ?a = "take 10 (bind_stages C os store parsed)" and ?b = "drop 11 (bind_stages C os store parsed)"
  have split: "bind_stages C os store parsed = ?a @ [check_depth_stage] @ ?b"
    by (simp add: bind_stages_def)
  have "run_stages (?a @ [check_depth_stage] @ ?b) (zero_options\<lparr>opt_respect_ignore_defaults := True\<rparr>) = Inr opts"
    using assms split by (simp only: bind_options_def)
  then obtain x y where y: "check_depth_stage x = Inr y" "run_stages ?b y = Inr opts"
    unfolding run_stages_append by (auto split: sum.splits)
  have "depths_ordered y" using y(1) by (auto simp: check_depth_stage_def depths_ordered_def split: if_splits)
  then show ?thesis
  proof (rule run_stages_invariant [where P = depths_ordered, OF _ y(2), rotated])
    fix f a b
    assume "f \<in> set ?b" "f a = Inr b" "depths_ordered a"
    then show "depths_ordered b"
      by (auto simp: bind_stages_def bind_flags_stage_def bind_output_stage_def bind_positional_stage_def
          depths_ordered_def split: option.splits)
  qed
qed

section \<open>Properties\<close>

text \<open>The store bc-runtime is documented to fill for a command line without options: every declared
  default, nothing else. It is an instance for the defaults, not code of the repository.\<close>

definition default_store :: "string \<Rightarrow> config_store" where
  "default_store version =
     (let keys = declared_keys (cli_program_spec version);
          value = (\<lambda>key. case map_of keys key of None \<Rightarrow> None | Some (_, d) \<Rightarrow> d)
      in \<lparr>store_string = (\<lambda>key. map_option Some (value key)),
          store_integer = (\<lambda>key. map_option (\<lambda>v. int (dec_value v)) (value key)),
          store_boolean = (\<lambda>key. None)\<rparr>)"

lemma default_store_values:
  "store_string (default_store version) ''global.threads'' = Some (Some ''auto'')"
  "store_string (default_store version) ''find.output'' = Some (Some ''-'')"
  "store_integer (default_store version) ''find.min-depth'' = Some 0"
  "store_integer (default_store version) ''find.max-depth'' = None"
  "store_boolean (default_store version) key = None"
  "key \<in> {''find.name'', ''find.iname'', ''find.path'', ''find.type'', ''find.size'', ''find.mtime'',
     ''find.newer'', ''find.perm''} \<Longrightarrow> store_string (default_store version) key = None"
  by (auto simp: default_store_def Let_def declared_keys_value base_value_def digit_value_def)

lemma default_store_ok: "store_ok (default_store version)"
  by (auto simp: store_ok_def default_store_def Let_def declared_keys_value split: if_splits)

lemma bind_default_options:
  assumes "core_ok C"
  shows "bind_options C os (default_store version) parsed =
    Inr (zero_options\<lparr>opt_respect_ignore_defaults := True,
      opt_positional_argument_count := parsed_positional_count parsed,
      opt_positional_argument_values := parsed_positional_values parsed\<rparr>)"
proof -
  have t: "parse_threads C (Some ''auto'') = Some (THREADS_MODE_AUTO, 0)"
    using parse_threads_eq [OF assms, of "''auto''"] by simp
  have o: "bind_output C ''-'' = Some (OUTPUT_MODE_STDOUT, None)"
    using assms by (simp add: bind_output_def strings_equal_eq)
  show ?thesis
    by (simp add: bind_options_def bind_stages_def bind_stage_defs bind_global_threads_def cli_lookup_string_def
        cli_lookup_integer_def cli_lookup_boolean_def flag_or_def default_store_values t o zero_options_def)
qed

text \<open>C12: options that bind are well formed: the worker count is positive exactly in the
  explicit mode, an active glob or output path is a non-empty string, the age threshold is a
  non-negative whole number of days in seconds (so the multiplication did not overflow), the
  permission mask has at most the 12 mode bits, and the depths are ordered.\<close>

theorem bind_options_invariant:
  assumes "core_ok C" "store_ok store" "bind_options C os store parsed = Inr opts"
  shows "wf_options opts \<and> depths_ordered opts"
  using bind_options_wf [OF assms] bind_options_depths [OF assms(3)] by blast

text \<open>C32: with no option given, the binder returns the zeroed options with the pruning of
  well-known directories on and the positional arguments passed through.\<close>

theorem bind_options_defaults:
  assumes "core_ok C"
  shows "bind_options C os (default_store version) parsed =
    Inr (zero_options\<lparr>opt_respect_ignore_defaults := True,
      opt_positional_argument_count := parsed_positional_count parsed,
      opt_positional_argument_values := parsed_positional_values parsed\<rparr>)"
  by (rule bind_default_options [OF assms])

theorem bind_options_defaults_witness:
  "bind_options ref_core demo_os (default_store ''1'') \<lparr>parsed_positional_count = 1, parsed_positional_values = [''.'']\<rparr> =
    Inr (zero_options\<lparr>opt_respect_ignore_defaults := True, opt_positional_argument_count := 1,
      opt_positional_argument_values := [''.'']\<rparr>)"
  using bind_options_defaults [OF ref_core_ok, of demo_os "''1''"
      "\<lparr>parsed_positional_count = 1, parsed_positional_values = [''.'']\<rparr>"] by simp

lemma bind_defaults_succeed:
  "\<exists>opts. bind_options ref_core demo_os (default_store ''1'') \<lparr>parsed_positional_count = 1, parsed_positional_values = [''.'']\<rparr> = Inr opts"
  using bind_default_options [OF ref_core_ok] by blast

theorem bind_options_invariant_witness:
  "\<exists>opts. bind_options ref_core demo_os (default_store ''1'')
       \<lparr>parsed_positional_count = 1, parsed_positional_values = [''.'']\<rparr> = Inr opts \<and>
     wf_options opts \<and> depths_ordered opts"
  using bind_defaults_succeed bind_options_invariant [OF ref_core_ok default_store_ok] by blast

text \<open>C17: what \<^verbatim>\<open>--mtime\<close> with a sign and digits binds, on every branch: a day count whose
  seconds fit \<open>int64_t\<close> becomes exactly that many seconds, a larger one that still parses is
  out of range, and one beyond \<open>INT64_MAX\<close> is invalid.\<close>

theorem bind_mtime_exact:
  assumes "core_ok C" "cli_lookup_string store ''find.mtime'' = Some v" "v = sign_text op @ ds" "digits ds"
  shows "bind_mtime_stage C store opts =
    (if 2 ^ 63 \<le> dec_value ds then Inl (value_message ''bc-seek: invalid --mtime: '' (Some v))
     else if 106751991167300 < dec_value ds
       then Inl (value_message ''bc-seek: --mtime value out of range: '' (Some v))
     else Inr (opts\<lparr>opt_mtime_op := op, opt_mtime_threshold_seconds_ago := of_nat (dec_value ds * 86400),
       opt_has_mtime_filter := True\<rparr>))"
proof -
  let ?n = "dec_value ds"
  have body: "parse_mtime_filter C (Some v) = map_option (Pair op) (parse_mtime_body C ds)"
    using mtime_parser.parse_sign_text [of op ds] digits_unsigned_start [OF assms(4), of "[]"] assms(3) by simp
  have iff: "parse_mtime_body C ds = Some d \<longleftrightarrow> ?n < 2 ^ 63 \<and> unat d = ?n" for d
    using parse_mtime_body_iff [OF assms(1) digits_no_nul [OF assms(4)]] assms(4) by simp
  show ?thesis
  proof (cases "?n < 2 ^ 63")
    case True
    then have u: "unat (of_nat ?n :: i64) = ?n" by (intro unat_of_nat_64) simp
    then have s: "sint (of_nat ?n :: i64) = int ?n" using True by (subst sint_of_small) simp_all
    have b: "parse_mtime_filter C (Some v) = Some (op, of_nat ?n)"
      using body iff [of "of_nat ?n"] u True by simp
    have p: "(of_nat ?n :: i64) * 86400 = of_nat (?n * 86400)" by simp
    show ?thesis
      unfolding bind_mtime_stage_def assms(2) option.case b prod.case s sint_day_limit p
      using True by simp
  next
    case False
    then have "parse_mtime_body C ds = None" using iff by (cases "parse_mtime_body C ds") auto
    then show ?thesis using body assms(2) False by (simp add: bind_mtime_stage_def)
  qed
qed

definition mtime_store :: "string \<Rightarrow> config_store" where
  "mtime_store v = (default_store ''1'')\<lparr>store_string := (\<lambda>key. if key = ''find.mtime'' then Some (Some v)
     else store_string (default_store ''1'') key)\<rparr>"

theorem bind_mtime_exact_witness:
  "bind_mtime_stage ref_core (mtime_store ''-7'') zero_options =
     Inr (zero_options\<lparr>opt_mtime_op := COMPARE_LESS, opt_mtime_threshold_seconds_ago := 604800,
       opt_has_mtime_filter := True\<rparr>)"
proof -
  have "cli_lookup_string (mtime_store ''-7'') ''find.mtime'' = Some ''-7''"
    by (simp add: cli_lookup_string_def mtime_store_def char_at_def)
  from bind_mtime_exact [OF ref_core_ok this, of COMPARE_LESS "''7''" zero_options] show ?thesis
    by (simp add: sign_text_def digits_def is_digit_def base_value_def digit_value_def)
qed

text \<open>C33: giving both \<^verbatim>\<open>--name\<close> and \<^verbatim>\<open>--iname\<close> is refused with its own message before any
  later option is looked at, whatever the other options are, once the thread mode is valid.\<close>

theorem bind_name_iname_exclusive:
  assumes "bind_global_threads C store = Inr mode"
    and "cli_lookup_string store ''find.name'' = Some a" "cli_lookup_string store ''find.iname'' = Some b"
  shows "bind_options C os store parsed =
    Inl (plain_message ''bc-seek: --name and --iname are mutually exclusive'')"
  using assms
  by (cases mode) (simp add: bind_options_def bind_stages_def bind_threads_stage_def bind_name_stage_def)

definition two_names_store :: config_store where
  "two_names_store = \<lparr>store_string = (\<lambda>key. if key = ''global.threads'' then Some (Some ''auto'')
       else if key = ''find.name'' then Some (Some ''a'') else if key = ''find.iname'' then Some (Some ''b'') else None),
     store_integer = (\<lambda>key. None), store_boolean = (\<lambda>key. None)\<rparr>"

theorem bind_name_iname_exclusive_witness:
  "bind_options ref_core demo_os two_names_store \<lparr>parsed_positional_count = 0, parsed_positional_values = []\<rparr> =
    Inl (plain_message ''bc-seek: --name and --iname are mutually exclusive'')"
  by (rule bind_name_iname_exclusive [where mode = "(THREADS_MODE_AUTO, 0)" and a = "''a''" and b = "''b''"])
    (simp_all add: bind_global_threads_def two_names_store_def cli_lookup_string_def char_at_def
      parse_threads_def strings_equal_eq [OF ref_core_ok])

text \<open>C34: the binder reads declared options only, each at its declared type: two stores that
  agree on the keys of the option tables bind to the same result.\<close>

definition agree_on :: "(string \<times> option_type \<times> string option) list \<Rightarrow> config_store \<Rightarrow> config_store \<Rightarrow> bool" where
  "agree_on keys s1 s2 \<longleftrightarrow> list_all (\<lambda>(key, type, _).
     case type of OPTION_INTEGER \<Rightarrow> store_integer s1 key = store_integer s2 key
     | OPTION_FLAG \<Rightarrow> store_boolean s1 key = store_boolean s2 key
     | _ \<Rightarrow> store_string s1 key = store_string s2 key) keys"

theorem bind_options_reads_declared_keys:
  assumes "agree_on (declared_keys (cli_program_spec version)) s1 s2"
  shows "bind_options C os s1 parsed = bind_options C os s2 parsed"
proof -
  have "bind_stages C os s1 parsed = bind_stages C os s2 parsed"
    using assms
    unfolding agree_on_def declared_keys_value
    by (simp add: bind_stages_def fun_eq_iff bind_stage_defs bind_global_threads_def cli_lookup_string_def
        cli_lookup_integer_def cli_lookup_boolean_def)
  then show ?thesis by (simp only: bind_options_def)
qed

theorem bind_options_reads_declared_keys_witness:
  "bind_options ref_core demo_os two_names_store \<lparr>parsed_positional_count = 0, parsed_positional_values = []\<rparr> =
   bind_options ref_core demo_os
     (two_names_store\<lparr>store_string := (\<lambda>key. if key = ''find.exec'' then Some (Some ''rm'') else store_string two_names_store key)\<rparr>)
     \<lparr>parsed_positional_count = 0, parsed_positional_values = []\<rparr>"
  by (rule bind_options_reads_declared_keys [where version = "''1''"])
    (simp add: agree_on_def declared_keys_value)

end
