(* ===== verification/Seek_Main.thy ===== *)
theory Seek_Main
  imports Seek_Bind Seek_Parallel
begin

text \<open>
  The program of \<^verbatim>\<open>src/bc_seek_main.c\<close>: the callbacks init, run and cleanup on the
  application state, and \<open>main\<close> with its early returns and exit codes.

  The environment is a record of parameters: what the parser of bc-runtime makes of the
  arguments, which resources can be created, the processors, and the runtime, which is given as
  the callback it makes next after a history of callbacks and their results. \<open>runtime_ok\<close> states
  the documented life cycle. The help and version screens, printed by bc-runtime, are not modelled
  beyond their exit code; freeing memory is not modelled.
\<close>

section \<open>State and environment\<close>

datatype parse_status = PARSE_OK | PARSE_HELP_GLOBAL | PARSE_HELP_COMMAND | PARSE_VERSION | PARSE_ERROR

record concurrency_config =
  cc_worker_count_explicit :: bool
  cc_worker_count :: nat
  cc_allow_oversubscribe :: bool

datatype lifecycle = Call_init | Call_run | Call_cleanup

record ('w, 'a) program_env =
  env_core :: bc_core
  env_os :: os
  env_writer :: "'w writer_ops"
  env_array :: "'a array_ops"
  env_signal_handler :: "(nat \<Rightarrow> bool option) option"
  env_register_slot :: bool
  env_slots :: "nat \<Rightarrow> 'a worker_slot option"
  env_workers :: "nat list"
  env_io_walk :: "io_walk_config \<Rightarrow> callback list"
  env_writev :: "nat \<Rightarrow> string list \<Rightarrow> writev_result"
  env_cli_memory_create :: bool
  env_store_create :: bool
  env_cli_parse :: "string list \<Rightarrow> parse_status \<times> config_store \<times> cli_parsed"
  env_logical_processor_count :: nat
  env_physical_core_count :: nat
  env_runtime_create :: "concurrency_config \<Rightarrow> bool"
  env_runtime_next :: "(lifecycle \<times> bool) list \<Rightarrow> lifecycle option"
  env_memory_context :: bool
  env_error_collector_create :: bool
  env_parallel_context :: bool
  env_effective_worker_count :: "concurrency_config \<Rightarrow> nat"
  env_interrupted :: bool

text \<open>\<open>app_errors\<close> is the collector, \<open>None\<close> for NULL. The last three fields record effects: messages
  on standard error, descriptors closed by the output, and bytes written past the writer.\<close>

record 'w application_state =
  app_cli_options :: cli_options
  app_predicate :: predicate
  app_output :: "'w seek_output"
  app_output_opened :: bool
  app_errors :: "(string \<times> errno) list option"
  app_exit_code :: int
  app_messages :: "message list"
  app_closed_fds :: "fd list"
  app_sent :: string

section \<open>Definitions\<close>

text \<open>The parts of a message that are not NULL, in order.\<close>

definition emit_stderr_message ::
  "string option \<Rightarrow> string option \<Rightarrow> string option \<Rightarrow> string option \<Rightarrow> message" where
  "emit_stderr_message before middle path after =
     concat (map (\<lambda>part. case part of None \<Rightarrow> [] | Some text \<Rightarrow> text) [before, middle, path, after])"

definition app_message :: "message \<Rightarrow> 'w application_state \<Rightarrow> 'w application_state" where
  "app_message msg st = st\<lparr>app_messages := app_messages st @ [msg]\<rparr>"

definition application_init :: "('w, 'a) program_env \<Rightarrow> 'w application_state \<Rightarrow> bool \<times> 'w application_state" where
  "application_init env st =
     (if \<not> env_memory_context env then (False, st\<lparr>app_exit_code := 1\<rparr>)
      else if \<not> env_error_collector_create env then (False, st\<lparr>app_exit_code := 1\<rparr>)
      else let st = st\<lparr>app_errors := Some []\<rparr>;
               st = st\<lparr>app_predicate := predicate_from_options (env_os env) (app_cli_options st)\<rparr>
        in if opt_output_mode (app_cli_options st) = OUTPUT_MODE_STDOUT then
             (let (ok, out, closed) = output_open_stdout (env_writer env) (opt_null_terminated (app_cli_options st));
                  st = st\<lparr>app_output := out, app_closed_fds := app_closed_fds st @ closed\<rparr>
              in if \<not> ok then
                   (False, (app_message (emit_stderr_message
                       (Some ''bc-seek: cannot configure stdout output\<newline>'') None None None) st)\<lparr>app_exit_code := 1\<rparr>)
                 else (True, st\<lparr>app_output_opened := True\<rparr>))
           else
             (let (ok, out, closed) = output_open_file (env_writer env) (the (opt_output_path (app_cli_options st)))
                      (opt_null_terminated (app_cli_options st)) (app_output st);
                  st = st\<lparr>app_output := out, app_closed_fds := app_closed_fds st @ closed\<rparr>
              in if \<not> ok then
                   (False, (app_message (emit_stderr_message
                       (Some (''bc-seek: cannot open output '' @ [CHR 0x27])) None
                       (opt_output_path (app_cli_options st)) (Some (CHR 0x27 # ''\<newline>''))) st)\<lparr>app_exit_code := 1\<rparr>)
                 else (True, st\<lparr>app_output_opened := True\<rparr>)))"

definition walk_environment ::
  "('w, 'a) program_env \<Rightarrow> nat \<Rightarrow> 'w application_state \<Rightarrow> ('w, 'a) parallel_context" where
  "walk_environment env effective_workers st =
     \<lparr>pc_core = env_core env, pc_os = env_os env, pc_writer = env_writer env, pc_array = env_array env,
      pc_predicate = app_predicate st, pc_signal_handler = env_signal_handler env,
      pc_follow_symlinks = opt_follow_symlinks (app_cli_options st),
      pc_one_file_system = opt_one_file_system (app_cli_options st),
      pc_output_separator = out_separator (app_output st),
      pc_worker_count = Some effective_workers, pc_register_slot = env_register_slot env,
      pc_slots = env_slots env, pc_workers = env_workers env,
      pc_io_walk = env_io_walk env, pc_writev = env_writev env\<rparr>"

text \<open>The walk the run chooses, with its result, output, errors and bytes past the writer.\<close>

definition application_walk ::
  "nat \<Rightarrow> ('w, 'a) program_env \<Rightarrow> concurrency_config \<Rightarrow> 'w application_state \<Rightarrow> 'w walk_result option" where
  "application_walk fuel env config st =
     (let root_paths = take (opt_positional_argument_count (app_cli_options st))
                          (opt_positional_argument_values (app_cli_options st));
          effective_workers = env_effective_worker_count env config;
          ctx = walk_environment env effective_workers st;
          errors = the (app_errors st)
      in if effective_workers \<ge> 2 \<and> opt_threads_mode (app_cli_options st) \<noteq> THREADS_MODE_MONO
         then walk_parallel fuel ctx root_paths (app_output st) errors
         else case walk_sequential (sequential_context ctx) root_paths (app_output st) errors of
             None \<Rightarrow> None
           | Some (ok, ws) \<Rightarrow>
               Some \<lparr>res_ok = ok, res_output = ws_output ws, res_errors = ws_errors ws, res_sent = []\<rparr>)"

definition application_run ::
  "nat \<Rightarrow> ('w, 'a) program_env \<Rightarrow> concurrency_config \<Rightarrow> 'w application_state \<Rightarrow>
   (bool \<times> 'w application_state) option" where
  "application_run fuel env config st =
     (if \<not> env_memory_context env then Some (False, st\<lparr>app_exit_code := 1\<rparr>)
      else if \<not> env_parallel_context env then Some (False, st\<lparr>app_exit_code := 1\<rparr>)
      else case application_walk fuel env config st of
          None \<Rightarrow> None
        | Some res \<Rightarrow>
            (let st = st\<lparr>app_output := res_output res, app_errors := Some (res_errors res),
                         app_sent := app_sent st @ res_sent res\<rparr>
             in if env_interrupted env then Some (False, st\<lparr>app_exit_code := 130\<rparr>)
                else if \<not> res_ok res \<and> length (res_errors res) = 0 then Some (False, st\<lparr>app_exit_code := 1\<rparr>)
                else Some (True, st\<lparr>app_exit_code := (if length (res_errors res) = 0 then 0 else 1)\<rparr>)))"

definition application_cleanup :: "('w, 'a) program_env \<Rightarrow> 'w application_state \<Rightarrow> 'w application_state" where
  "application_cleanup env st =
     (let st = (if app_output_opened st then
                  (let (_, out, closed) = output_close (env_writer env) (app_output st)
                   in st\<lparr>app_output := out, app_closed_fds := app_closed_fds st @ closed, app_output_opened := False\<rparr>)
                else st)
      in if \<not> env_memory_context env then st
         else if app_errors st \<noteq> None then st\<lparr>app_errors := None\<rparr> else st)"

text \<open>\<open>bc_runtime_run\<close>: the callbacks the runtime makes, until it makes no more.\<close>

fun runtime_run ::
  "nat \<Rightarrow> nat \<Rightarrow> ('w, 'a) program_env \<Rightarrow> concurrency_config \<Rightarrow> (lifecycle \<times> bool) list \<Rightarrow> 'w application_state \<Rightarrow>
   'w application_state option" where
  "runtime_run 0 fuel env config history st = None"
| "runtime_run (Suc calls) fuel env config history st =
     (case env_runtime_next env history of
        None \<Rightarrow> Some st
      | Some Call_init \<Rightarrow>
          (let (ok, st) = application_init env st
           in runtime_run calls fuel env config (history @ [(Call_init, ok)]) st)
      | Some Call_run \<Rightarrow>
          (case application_run fuel env config st of
             None \<Rightarrow> None
           | Some (ok, st) \<Rightarrow> runtime_run calls fuel env config (history @ [(Call_run, ok)]) st)
      | Some Call_cleanup \<Rightarrow>
          runtime_run calls fuel env config (history @ [(Call_cleanup, True)]) (application_cleanup env st))"

text \<open>The concurrency configuration of the thread mode; \<open>None\<close> is a worker count above the processors.\<close>

definition parallel_config_of :: "('w, 'a) program_env \<Rightarrow> cli_options \<Rightarrow> concurrency_config option" where
  "parallel_config_of env options =
     (let config = \<lparr>cc_worker_count_explicit = False, cc_worker_count = 0, cc_allow_oversubscribe = False\<rparr>
      in case opt_threads_mode options of
           THREADS_MODE_MONO \<Rightarrow> Some (config\<lparr>cc_worker_count_explicit := True, cc_worker_count := 0\<rparr>)
         | THREADS_MODE_EXPLICIT \<Rightarrow>
             (let config = config\<lparr>cc_worker_count_explicit := True,
                    cc_worker_count := (if opt_explicit_worker_count options > 0
                                        then opt_explicit_worker_count options - 1 else 0)\<rparr>
              in if opt_explicit_worker_count options > env_logical_processor_count env then None
                 else if opt_explicit_worker_count options > env_physical_core_count env
                   then Some (config\<lparr>cc_allow_oversubscribe := True\<rparr>)
                 else Some config)
         | THREADS_MODE_IO \<Rightarrow>
             Some (config\<lparr>cc_allow_oversubscribe := True, cc_worker_count_explicit := True,
                    cc_worker_count := (if env_logical_processor_count env \<ge> 2
                                        then env_logical_processor_count env - 1 else 0)\<rparr>)
         | THREADS_MODE_AUTO \<Rightarrow> Some config)"

text \<open>\<open>bc_core_zero(&state, sizeof(state))\<close>, with the options bound after it. The zeroed writer is
  that of the writer library; the zeroed descriptor is 0.\<close>

definition initial_state :: "('w, 'a) program_env \<Rightarrow> cli_options \<Rightarrow> 'w application_state" where
  "initial_state env options =
     \<lparr>app_cli_options = options, app_predicate = predicate_from_options (env_os env) zero_options,
      app_output = \<lparr>out_writer = wr_zero (env_writer env), out_fd = 0, out_owns_fd = False,
                    out_separator = NUL, out_emitted_count = 0\<rparr>,
      app_output_opened = False, app_errors = None, app_exit_code = 0, app_messages = [], app_closed_fds = [],
      app_sent = []\<rparr>"

text \<open>\<open>main\<close>: the exit code and, when the runtime was run, the state it left. \<open>None\<close> is a write loop
  that does not end on the fuel given; four runtime calls cover the life cycle.\<close>

definition seek_main ::
  "nat \<Rightarrow> nat \<Rightarrow> ('w, 'a) program_env \<Rightarrow> string list \<Rightarrow> (int \<times> message list \<times> 'w application_state option) option" where
  "seek_main calls fuel env argument_values =
     (if \<not> env_cli_memory_create env then
        Some (1, [emit_stderr_message (Some ''bc-seek: failed to initialize CLI memory context\<newline>'') None None None], None)
      else if \<not> env_store_create env then
        Some (1, [emit_stderr_message (Some ''bc-seek: failed to initialize CLI config store\<newline>'') None None None], None)
      else let (parse_status, cli_store, parsed) = env_cli_parse env argument_values in
        if parse_status = PARSE_HELP_GLOBAL then Some (0, [], None)
        else if parse_status = PARSE_HELP_COMMAND then Some (0, [], None)
        else if parse_status = PARSE_VERSION then Some (0, [], None)
        else if parse_status = PARSE_ERROR then Some (2, [], None)
        else (case bind_options (env_core env) (env_os env) cli_store parsed of
            Inl msg \<Rightarrow> Some (2, [msg], None)
          | Inr options \<Rightarrow>
              (case parallel_config_of env options of
                 None \<Rightarrow> Some (2, [emit_stderr_message
                   (Some ''bc-seek: --threads exceeds online logical processors\<newline>'') None None None], None)
               | Some config \<Rightarrow>
                   if \<not> env_runtime_create env config then
                     Some (1, [emit_stderr_message (Some ''bc-seek: failed to initialize runtime\<newline>'') None None None], None)
                   else (case runtime_run calls fuel env config [] (initial_state env options) of
                       None \<Rightarrow> None
                     | Some st \<Rightarrow> Some (app_exit_code st, app_messages st, Some st)))))"

section \<open>The life cycle\<close>

text \<open>What bc-runtime documents: init, then run if init succeeded, then cleanup.\<close>

definition runtime_ok :: "((lifecycle \<times> bool) list \<Rightarrow> lifecycle option) \<Rightarrow> bool" where
  "runtime_ok runtime_next \<longleftrightarrow>
     runtime_next [] = Some Call_init \<and>
     runtime_next [(Call_init, True)] = Some Call_run \<and>
     runtime_next [(Call_init, False)] = Some Call_cleanup \<and>
     (\<forall>ok. runtime_next [(Call_init, True), (Call_run, ok)] = Some Call_cleanup) \<and>
     (\<forall>ok. runtime_next [(Call_init, True), (Call_run, ok), (Call_cleanup, True)] = None) \<and>
     runtime_next [(Call_init, False), (Call_cleanup, True)] = None"

lemma runtime_run_cycle:
  assumes "runtime_ok (env_runtime_next env)" "4 \<le> calls"
  shows "runtime_run calls fuel env config [] st =
    (case application_init env st of
       (False, st) \<Rightarrow> Some (application_cleanup env st)
     | (True, st) \<Rightarrow> (case application_run fuel env config st of
         None \<Rightarrow> None
       | Some (ok, st) \<Rightarrow> Some (application_cleanup env st)))"
proof -
  obtain j where "calls = 4 + j" using le_Suc_ex [OF assms(2)] by blast
  then obtain k where k: "calls = Suc (Suc (Suc (Suc k)))" by (auto simp: eval_nat_numeral)
  show ?thesis
    using assms(1) unfolding k runtime_ok_def by (auto split: prod.splits bool.splits option.splits)
qed

lemma close_keeps_accepted:
  assumes "writer_ok W"
  shows "wr_accepted W (out_writer (fst (snd (output_close W out)))) = wr_accepted W (out_writer out)"
proof -
  have "wr_accepted W w' = wr_accepted W w" if "wr_flush W w = (ok, w')" for w ok w'
    using writer_okD(6) [OF assms, of w] that by simp
  moreover have "wr_accepted W w' = wr_accepted W w" if "wr_destroy W w = (ok, w')" for w ok w'
    using writer_okD(7) [OF assms, of w] that by simp
  ultimately show ?thesis by (simp add: output_close_def Let_def split: prod.splits)
qed

lemma cleanup_frame:
  shows "app_exit_code (application_cleanup env st) = app_exit_code st"
    and "app_messages (application_cleanup env st) = app_messages st"
    and "app_sent (application_cleanup env st) = app_sent st"
    and "\<not> app_output_opened (application_cleanup env st)"
    and "writer_ok (env_writer env) \<Longrightarrow> wr_accepted (env_writer env) (out_writer (app_output (application_cleanup env st))) =
      wr_accepted (env_writer env) (out_writer (app_output st))"
  using close_keeps_accepted [of "env_writer env" "app_output st"]
  by (auto simp: application_cleanup_def Let_def split: prod.splits)

text \<open>The cleanup closes the output that init has opened, and so hands the descriptor what the writer
  still holds.\<close>

lemma cleanup_delivers:
  assumes "writer_ok (env_writer env)" "writer_delivers (env_writer env)" "app_output_opened st" "0 \<le> out_fd (app_output st)"
  defines "w \<equiv> out_writer (app_output (application_cleanup env st))"
  shows "prefix (wr_written (env_writer env) w) (wr_accepted (env_writer env) (out_writer (app_output st)))"
    and "(\<And>v. fst (wr_flush (env_writer env) v)) \<Longrightarrow>
      wr_written (env_writer env) w = wr_accepted (env_writer env) (out_writer (app_output st))"
proof -
  have w: "w = out_writer (fst (snd (output_close (env_writer env) (app_output st))))"
    using assms(3) by (simp add: w_def application_cleanup_def Let_def split: prod.splits)
  show "prefix (wr_written (env_writer env) w) (wr_accepted (env_writer env) (out_writer (app_output st)))"
    using close_delivers(1,2) [OF assms(1,2,4)] unfolding w by simp
  show "wr_written (env_writer env) w = wr_accepted (env_writer env) (out_writer (app_output st))"
    if "\<And>v. fst (wr_flush (env_writer env) v)"
    using close_delivers(3) [OF assms(1,2,4) that] unfolding w .
qed

text \<open>Standard output is set up whenever the writer is.\<close>

lemma init_stdout:
  assumes "env_memory_context env" "env_error_collector_create env" "opt_output_mode (app_cli_options st) = OUTPUT_MODE_STDOUT"
    and "wr_init (env_writer env) STDOUT_FILENO OUTPUT_BUFFER_BYTES = Some w"
  shows "\<exists>st'. application_init env st = (True, st') \<and> app_cli_options st' = app_cli_options st \<and>
    app_predicate st' = predicate_from_options (env_os env) (app_cli_options st) \<and> app_errors st' = Some [] \<and>
    app_output_opened st' \<and> out_fd (app_output st') = STDOUT_FILENO \<and> out_writer (app_output st') = w \<and> app_messages st' = app_messages st \<and> app_sent st' = app_sent st \<and>
    out_separator (app_output st') = (if opt_null_terminated (app_cli_options st) then NUL else CHR ''\<newline>'')"
  using assms by (simp add: application_init_def output_open_stdout_def output_attach_def Let_def)

section \<open>Properties\<close>

definition demo_config :: concurrency_config where
  "demo_config = \<lparr>cc_worker_count_explicit = True, cc_worker_count = 0, cc_allow_oversubscribe = False\<rparr>"

definition demo_env :: "(list_state, string) program_env" where
  "demo_env = \<lparr>env_core = ref_core, env_os = demo_os, env_writer = list_writer,
     env_array = \<lparr>ar_zero = [], ar_reserve = (\<lambda>a n. (True, a)), ar_append_bulk = (\<lambda>a bs. (True, a @ bs)),
       ar_push = (\<lambda>a c. (True, a @ [c])), ar_data = (\<lambda>a. a)\<rparr>,
     env_signal_handler = None, env_register_slot = True, env_slots = (\<lambda>w. None), env_workers = [],
     env_io_walk = (\<lambda>config. []), env_writev = (\<lambda>k iov. Written (length (concat iov))),
     env_cli_memory_create = True, env_store_create = True,
     env_cli_parse = (\<lambda>arguments. (PARSE_OK, default_store ''mono'',
       \<lparr>parsed_positional_count = 0, parsed_positional_values = []\<rparr>)),
     env_logical_processor_count = 8, env_physical_core_count = 4, env_runtime_create = (\<lambda>config. True),
     env_runtime_next = (\<lambda>history. case map fst history of
         [] \<Rightarrow> Some Call_init
       | [c] \<Rightarrow> if snd (hd history) then Some Call_run else Some Call_cleanup
       | [c, d] \<Rightarrow> if d = Call_run then Some Call_cleanup else None
       | _ \<Rightarrow> None),
     env_memory_context = True, env_error_collector_create = True, env_parallel_context = True,
     env_effective_worker_count = (\<lambda>config. 1), env_interrupted = False\<rparr>"

lemma demo_runtime_ok: "runtime_ok (env_runtime_next demo_env)"
  by (simp add: demo_env_def runtime_ok_def)

text \<open>C37: the workers asked of bc-concurrency, with the main thread, never exceed the logical
  processors, and oversubscription is allowed exactly in the io mode and for an explicit count
  above the physical cores.\<close>

theorem worker_count_within_processors:
  assumes "parallel_config_of env options = Some config"
  shows "cc_worker_count config + 1 \<le> max 1 (env_logical_processor_count env) \<and>
    (cc_allow_oversubscribe config \<longleftrightarrow> opt_threads_mode options = THREADS_MODE_IO \<or>
       opt_threads_mode options = THREADS_MODE_EXPLICIT \<and>
       opt_explicit_worker_count options > env_physical_core_count env) \<and>
    (opt_threads_mode options = THREADS_MODE_EXPLICIT \<and> 0 < opt_explicit_worker_count options \<longrightarrow>
       cc_worker_count config + 1 = opt_explicit_worker_count options)"
  using assms by (auto simp: parallel_config_of_def Let_def split: threads_mode.splits if_splits)

theorem worker_count_within_processors_witness:
  "\<exists>config. parallel_config_of demo_env
     (zero_options\<lparr>opt_threads_mode := THREADS_MODE_EXPLICIT, opt_explicit_worker_count := 6\<rparr>) = Some config \<and>
     cc_worker_count config + 1 = 6 \<and> cc_allow_oversubscribe config"
proof -
  let ?options = "zero_options\<lparr>opt_threads_mode := THREADS_MODE_EXPLICIT, opt_explicit_worker_count := 6\<rparr>"
  obtain config where c: "parallel_config_of demo_env ?options = Some config"
    by (auto simp: parallel_config_of_def Let_def demo_env_def zero_options_def)
  from worker_count_within_processors [OF c] c show ?thesis
    by (auto simp: demo_env_def)
qed

end
