(* ===== verification/Seek_Fuzz.thy ===== *)
theory Seek_Fuzz
  imports Seek_Bind Seek_Filter
begin

text \<open>
  The three fuzzing programs of \<^verbatim>\<open>fuzzing/\<close>: the harness of the argument parser and the
  binder (\<^verbatim>\<open>fuzz_bc_seek_cli_parse.c\<close>), of the value parsers
  (\<^verbatim>\<open>fuzz_bc_seek_filter_parsers.c\<close>) and of the glob and ignore tests
  (\<^verbatim>\<open>fuzz_bc_seek_glob_match.c\<close>), with the stand-alone \<open>main\<close> each of them has.

  A harness copies its input into arrays on the stack. An array is its bytes, arbitrary before
  they are written; a write or copy outside an array is \<open>None\<close>, so that a harness that returns
  \<open>Some\<close> has stayed inside its arrays. What a harness hands to the code under test, and what
  comes back, is its value, although the C functions discard it and return 0.

  \<^item> \<open>build_argv_from_fuzz_buffer\<close> is shown to be the splitting \<open>split_arguments\<close> of the input.
  \<^item> No input makes a harness leave its arrays, and the programs run as many inputs as asked.
\<close>

section \<open>Definitions\<close>

subsection \<open>Arrays on the stack\<close>

definition store_byte :: "string \<Rightarrow> nat \<Rightarrow> char \<Rightarrow> string option" where
  "store_byte array i c = (if i < length array then Some (array[i := c]) else None)"

text \<open>\<open>memcpy\<close> to the start of an array.\<close>

definition copy_bytes :: "string \<Rightarrow> string \<Rightarrow> nat \<Rightarrow> string option" where
  "copy_bytes array source n =
     (if n \<le> length array \<and> n \<le> length source then Some (take n source @ drop n array) else None)"

subsection \<open>The argument vector of the parser harness\<close>

abbreviation FUZZ_CLI_MAX_ARGS :: nat where "FUZZ_CLI_MAX_ARGS \<equiv> 16"
abbreviation FUZZ_CLI_MAX_ARG_LENGTH :: nat where "FUZZ_CLI_MAX_ARG_LENGTH \<equiv> 64"
abbreviation FUZZ_CLI_BUFFER_SIZE :: nat where "FUZZ_CLI_BUFFER_SIZE \<equiv> 1024"

text \<open>An element of \<open>argv\<close>: a literal, or a pointer into the buffer.\<close>

datatype fuzz_argument = Argument_literal string | Argument_at nat

fun argument_value :: "string \<Rightarrow> fuzz_argument \<Rightarrow> string" where
  "argument_value buffer (Argument_literal text) = text"
| "argument_value buffer (Argument_at start) = cstr (drop start buffer)"

text \<open>The inner loop over the bytes from \<open>data_position\<close> on: what is left of them, the buffer
  position and the buffer.\<close>

fun fuzz_copy_argument :: "string \<Rightarrow> nat \<Rightarrow> nat \<Rightarrow> string \<Rightarrow> (string \<times> nat \<times> string) option" where
  "fuzz_copy_argument [] argument_start buffer_position buffer = Some ([], buffer_position, buffer)"
| "fuzz_copy_argument (byte # data) argument_start buffer_position buffer =
     (if \<not> buffer_position < FUZZ_CLI_BUFFER_SIZE - 1 then Some (byte # data, buffer_position, buffer)
      else if byte = NUL then Some (data, buffer_position, buffer)
      else (case store_byte buffer buffer_position byte of
          None \<Rightarrow> None
        | Some buffer \<Rightarrow>
            if buffer_position + 1 - argument_start \<ge> FUZZ_CLI_MAX_ARG_LENGTH - 1
            then Some (data, buffer_position + 1, buffer)
            else fuzz_copy_argument data argument_start (buffer_position + 1) buffer))"

text \<open>The outer loop: \<open>argv\<close> holds the elements written so far, \<open>argument_count\<close> many.\<close>

function fuzz_build_arguments ::
  "string \<Rightarrow> nat \<Rightarrow> nat \<Rightarrow> string \<Rightarrow> fuzz_argument list \<Rightarrow> (string \<times> fuzz_argument list) option" where
  "fuzz_build_arguments data argv_capacity buffer_position buffer argv =
     (if data \<noteq> [] \<and> length argv < argv_capacity \<and> buffer_position < FUZZ_CLI_BUFFER_SIZE - 1 then
        (case fuzz_copy_argument data buffer_position buffer_position buffer of
           None \<Rightarrow> None
         | Some (data, end_position, buffer) \<Rightarrow>
             (case store_byte buffer end_position NUL of
                None \<Rightarrow> None
              | Some buffer \<Rightarrow>
                  fuzz_build_arguments data argv_capacity (end_position + 1) buffer
                    (argv @ [Argument_at buffer_position])))
      else Some (buffer, argv))"
  by pat_completeness auto
termination by (relation "measure (\<lambda>(data, argv_capacity, position, buffer, argv). argv_capacity - length argv)") auto

declare fuzz_build_arguments.simps [simp del]

definition build_argv_from_fuzz_buffer ::
  "string \<Rightarrow> string \<Rightarrow> nat \<Rightarrow> (string \<times> fuzz_argument list) option" where
  "build_argv_from_fuzz_buffer data buffer argv_capacity =
     (if argv_capacity = 0 then None
      else fuzz_build_arguments data argv_capacity 0 buffer [Argument_literal ''bc-seek''])"

subsection \<open>The harnesses\<close>

text \<open>What the parser harness relies on: its resources, and the parser of bc-runtime, whose result
  is the store and the positional values when it accepts the arguments.\<close>

record fuzz_env =
  fz_core :: bc_core
  fz_os :: os
  fz_memory_create :: bool
  fz_store_create :: bool
  fz_cli_parse :: "string list \<Rightarrow> (config_store \<times> cli_parsed) option"

text \<open>The arguments handed to the parser, when it is reached, and what the binder answers, when the
  parser accepts them.\<close>

definition fuzz_cli_parse ::
  "fuzz_env \<Rightarrow> string \<Rightarrow> string \<Rightarrow> (string list \<times> (message + cli_options) option) option option" where
  "fuzz_cli_parse env argv_buffer data =
     (case build_argv_from_fuzz_buffer data argv_buffer FUZZ_CLI_MAX_ARGS of
        None \<Rightarrow> None
      | Some (argv_buffer, argv) \<Rightarrow>
          if \<not> fz_memory_create env then Some None
          else if \<not> fz_store_create env then Some None
          else let arguments = map (argument_value argv_buffer) argv in
            (case fz_cli_parse env arguments of
               None \<Rightarrow> Some (Some (arguments, None))
             | Some (store, parsed) \<Rightarrow>
                 Some (Some (arguments, Some (bind_options (fz_core env) (fz_os env) store parsed)))))"

record parser_results =
  pr_size :: "(compare_op \<times> u64) option"
  pr_mtime :: "(compare_op \<times> i64) option"
  pr_type :: "entry_type option"
  pr_perm :: "u32 option"
  pr_threads :: "(threads_mode \<times> nat) option"

text \<open>The array \<open>value\<close> has 256 bytes; the inner option is \<open>None\<close> for the empty input.\<close>

definition fuzz_filter_parsers :: "bc_core \<Rightarrow> string \<Rightarrow> string \<Rightarrow> parser_results option option" where
  "fuzz_filter_parsers C value data =
     (if length data = 0 then Some None
      else let copy_length = (if length data < length value - 1 then length data else length value - 1) in
        (case copy_bytes value data copy_length of
           None \<Rightarrow> None
         | Some value \<Rightarrow>
             (case store_byte value copy_length NUL of
                None \<Rightarrow> None
              | Some value \<Rightarrow>
                  let v = cstr value in
                  Some (Some \<lparr>pr_size = parse_size_filter C (Some v), pr_mtime = parse_mtime_filter C (Some v),
                    pr_type = parse_type_filter C v, pr_perm = parse_perm_filter C (Some v),
                    pr_threads = parse_threads C (Some v)\<rparr>))))"

text \<open>The arrays \<open>pattern\<close> and \<open>value\<close> have 256 and 512 bytes; the results of the glob test and of the
  ignore test, which is given the bytes of \<open>value\<close> and their number.\<close>

definition fuzz_glob_match :: "bc_core \<Rightarrow> os \<Rightarrow> string \<Rightarrow> string \<Rightarrow> string \<Rightarrow> (bool \<times> bool) option option" where
  "fuzz_glob_match C os pattern value data =
     (if length data < 3 then Some None
      else let pattern_length = (of_char (data ! 0) :: nat);
               case_insensitive = ((of_char (data ! 1) :: 8 word) AND 0x1 \<noteq> 0);
               position = 2
        in if position + pattern_length > length data then Some None
        else let pattern_actual = (if pattern_length < length pattern - 1 then pattern_length else length pattern - 1) in
          (case copy_bytes pattern (drop position data) pattern_actual of
             None \<Rightarrow> None
           | Some pattern \<Rightarrow>
               (case store_byte pattern pattern_actual NUL of
                  None \<Rightarrow> None
                | Some pattern \<Rightarrow>
                    (let position = position + pattern_length;
                         value_available = length data - position;
                         value_actual = (if value_available < length value - 1 then value_available else length value - 1)
                     in (case copy_bytes value (drop position data) value_actual of
                           None \<Rightarrow> None
                         | Some value \<Rightarrow>
                             (case store_byte value value_actual NUL of
                                None \<Rightarrow> None
                              | Some value \<Rightarrow>
                                  Some (Some (filter_glob_matches os (cstr pattern) (cstr value) case_insensitive,
                                    filter_ignored_directory_name C value value_actual))))))))"

subsection \<open>The stand-alone programs\<close>

text \<open>The three files have the same \<open>main\<close> up to the size of the buffer. The generator of the C
  library is a parameter: \<open>srand\<close> makes a state of the seed, \<open>rand\<close> a number that is not negative.\<close>

definition fuzz_main_arguments :: "bc_core \<Rightarrow> string \<Rightarrow> string list \<Rightarrow> message + u64 \<times> u64" where
  "fuzz_main_arguments C argv0 arguments =
     (case arguments of
        [] \<Rightarrow> Inl (''usage: '' @ argv0 @ '' <iterations> [seed]\<newline>'')
      | iterations_text # rest \<Rightarrow>
          let invalid_iterations = Inl (''invalid iterations: '' @ iterations_text @ ''\<newline>'') in
          (case core_parse_u64 C iterations_text (length iterations_text) of
             None \<Rightarrow> invalid_iterations
           | Some (iterations, consumed) \<Rightarrow>
               if consumed \<noteq> length iterations_text then invalid_iterations
               else (case rest of
                   [] \<Rightarrow> Inr (iterations, 0)
                 | seed_text # _ \<Rightarrow>
                     (let invalid_seed = Inl (''invalid seed: '' @ seed_text @ ''\<newline>'') in
                      (case core_parse_u64 C seed_text (length seed_text) of
                         None \<Rightarrow> invalid_seed
                       | Some (seed, consumed) \<Rightarrow>
                           if consumed \<noteq> length seed_text then invalid_seed else Inr (iterations, seed))))))"

primrec fuzz_random_bytes :: "('r \<Rightarrow> nat \<times> 'r) \<Rightarrow> nat \<Rightarrow> 'r \<Rightarrow> string \<times> 'r" where
  "fuzz_random_bytes rand 0 r = ([], r)"
| "fuzz_random_bytes rand (Suc j) r =
     (let (n, r) = rand r; (bytes, r) = fuzz_random_bytes rand j r in (char_of (n AND 0xFF) # bytes, r))"

text \<open>The inputs and what the harness made of them.\<close>

primrec fuzz_loop ::
  "('r \<Rightarrow> nat \<times> 'r) \<Rightarrow> (string \<Rightarrow> 'b option) \<Rightarrow> nat \<Rightarrow> nat \<Rightarrow> 'r \<Rightarrow> (string \<times> 'b) list option" where
  "fuzz_loop rand test buffer_size 0 r = Some []"
| "fuzz_loop rand test buffer_size (Suc i) r =
     (let (n, r) = rand r; (data, r) = fuzz_random_bytes rand (n mod buffer_size) r
      in (case test data of
            None \<Rightarrow> None
          | Some result \<Rightarrow> map_option ((#) (data, result)) (fuzz_loop rand test buffer_size i r)))"

definition fuzz_main ::
  "bc_core \<Rightarrow> (u32 \<Rightarrow> 'r) \<Rightarrow> ('r \<Rightarrow> nat \<times> 'r) \<Rightarrow> nat \<Rightarrow> (string \<Rightarrow> 'b option) \<Rightarrow> string \<Rightarrow> string list \<Rightarrow>
   (int \<times> message list \<times> (string \<times> 'b) list) option" where
  "fuzz_main C srand rand buffer_size test argv0 arguments =
     (case fuzz_main_arguments C argv0 arguments of
        Inl msg \<Rightarrow> Some (2, [msg], [])
      | Inr (iterations, seed) \<Rightarrow>
          map_option (\<lambda>results. (0, [], results)) (fuzz_loop rand test buffer_size (unat iterations) (srand (ucast seed))))"

definition fuzz_cli_parse_main ::
  "fuzz_env \<Rightarrow> string \<Rightarrow> (u32 \<Rightarrow> 'r) \<Rightarrow> ('r \<Rightarrow> nat \<times> 'r) \<Rightarrow> string \<Rightarrow> string list \<Rightarrow>
   (int \<times> message list \<times> (string \<times> (string list \<times> (message + cli_options) option) option) list) option" where
  "fuzz_cli_parse_main env argv_buffer srand rand argv0 arguments =
     fuzz_main (fz_core env) srand rand 2048 (fuzz_cli_parse env argv_buffer) argv0 arguments"

definition fuzz_filter_parsers_main ::
  "bc_core \<Rightarrow> string \<Rightarrow> (u32 \<Rightarrow> 'r) \<Rightarrow> ('r \<Rightarrow> nat \<times> 'r) \<Rightarrow> string \<Rightarrow> string list \<Rightarrow>
   (int \<times> message list \<times> (string \<times> parser_results option) list) option" where
  "fuzz_filter_parsers_main C value srand rand argv0 arguments =
     fuzz_main C srand rand 512 (fuzz_filter_parsers C value) argv0 arguments"

definition fuzz_glob_match_main ::
  "bc_core \<Rightarrow> os \<Rightarrow> string \<Rightarrow> string \<Rightarrow> (u32 \<Rightarrow> 'r) \<Rightarrow> ('r \<Rightarrow> nat \<times> 'r) \<Rightarrow> string \<Rightarrow> string list \<Rightarrow>
   (int \<times> message list \<times> (string \<times> (bool \<times> bool) option) list) option" where
  "fuzz_glob_match_main C os pattern value srand rand argv0 arguments =
     fuzz_main C srand rand 1024 (fuzz_glob_match C os pattern value) argv0 arguments"

section \<open>The arguments are a splitting of the input\<close>

text \<open>At most \<open>n\<close> arguments, each up to the next NUL or 63 characters long.\<close>

fun split_arguments :: "nat \<Rightarrow> string \<Rightarrow> string list" where
  "split_arguments 0 data = []"
| "split_arguments (Suc n) data =
     (if data = [] then []
      else let argument = take 63 (takeWhile (\<lambda>c. c \<noteq> NUL) data)
        in argument # split_arguments n (drop (if length argument < 63 then length argument + 1 else 63) data))"

lemma argument_no_nul: "no_nul (take n (takeWhile (\<lambda>c. c \<noteq> NUL) data))"
  by (auto simp: no_nul_def dest: in_set_takeD set_takeWhileD)

lemma split_arguments_bounds:
  "length (split_arguments n data) \<le> n \<and> (\<forall>a \<in> set (split_arguments n data). length a \<le> 63 \<and> no_nul a)"
proof (induction n arbitrary: data)
  case (Suc n)
  let ?a = "take 63 (takeWhile (\<lambda>c. c \<noteq> NUL) data)"
  have a: "length ?a \<le> 63 \<and> no_nul ?a" using argument_no_nul by simp
  show ?case
  proof (cases "data = []")
    case False
    then have "split_arguments (Suc n) data = ?a # split_arguments n (drop (if length ?a < 63 then length ?a + 1 else 63) data)"
      by (simp only: split_arguments.simps Let_def if_False)
    moreover note Suc [of "drop (if length ?a < 63 then length ?a + 1 else 63) data"]
    ultimately show ?thesis using a by (metis Suc_le_mono length_Cons set_ConsD)
  qed simp
qed simp

declare split_arguments.simps(2) [simp del]

lemma copy_argument:
  assumes "length buffer = FUZZ_CLI_BUFFER_SIZE" "start \<le> position" "position < start + 63" "start \<le> 896"
    and "argument = take (start + 63 - position) (takeWhile (\<lambda>c. c \<noteq> NUL) data)"
  shows "fuzz_copy_argument data start position buffer =
    Some (drop (if length argument < start + 63 - position then length argument + 1 else length argument) data,
      position + length argument, take position buffer @ argument @ drop (position + length argument) buffer)"
  using assms
proof (induction data arbitrary: position buffer argument)
  case Nil
  then show ?case by simp
next
  case (Cons byte data)
  have i: "position < length buffer" "position < 1023" using Cons.prems by simp_all
  have upd: "buffer[position := byte] = take position buffer @ byte # drop (Suc position) buffer"
    using i(1) by (rule upd_conv_take_nth_drop)
  consider "byte = NUL" | "byte \<noteq> NUL" "start + 63 - position = 1" | "byte \<noteq> NUL" "position + 1 < start + 63"
    using Cons.prems(3) by linarith
  then show ?case
  proof cases
    case 1
    then show ?thesis using Cons.prems i by simp
  next
    case 2
    have "start + 63 = Suc position" using 2(2) Cons.prems(3) by simp
    then have "63 \<le> position + 1 - start" by simp
    then show ?thesis using 2 Cons.prems i upd by (simp add: store_byte_def)
  next
    case 3
    let ?tail = "take (start + 63 - (position + 1)) (takeWhile (\<lambda>c. c \<noteq> NUL) data)"
    let ?buffer = "buffer[position := byte]"
    have m: "start + 63 - position = Suc (start + 63 - (position + 1))" using 3(2) by simp
    have a: "argument = byte # ?tail" unfolding Cons.prems(5) m using 3(1) by simp
    have "\<not> 63 \<le> position + 1 - start" using 3(2) by simp
    then have "fuzz_copy_argument (byte # data) start position buffer = fuzz_copy_argument data start (position + 1) ?buffer"
      using 3 i Cons.prems(2) by (simp add: store_byte_def)
    also have "\<dots> = Some (drop (if length ?tail < start + 63 - (position + 1) then length ?tail + 1 else length ?tail) data,
        position + 1 + length ?tail, take (position + 1) ?buffer @ ?tail @ drop (position + 1 + length ?tail) ?buffer)"
      using 3(2) Cons.prems(1,2,4) by (intro Cons.IH) simp_all
    also have "take (position + 1) ?buffer = take position buffer @ [byte]"
      using i(1) unfolding upd by simp
    finally show ?thesis unfolding a using m by simp
  qed
qed

text \<open>An argument whose terminating NUL lies before a position reads only bytes before it.\<close>

fun terminated :: "string \<Rightarrow> fuzz_argument \<Rightarrow> bool" where
  "terminated front (Argument_literal text) \<longleftrightarrow> True"
| "terminated front (Argument_at start) \<longleftrightarrow> NUL \<in> set (drop start front)"

lemma terminated_value: "terminated front a \<Longrightarrow> argument_value (front @ rear) a = argument_value front a"
  by (cases a) (auto simp: cstr_def)

lemma terminated_mono: "terminated front a \<Longrightarrow> terminated (front @ rear) a"
  by (cases a) auto

text \<open>One turn of the outer loop, and the whole loop.\<close>

lemma build_arguments:
  assumes "length front = position" "length (front @ rear) = FUZZ_CLI_BUFFER_SIZE"
    and "position \<le> 64 * (length argv - 1)" "argv \<noteq> []" "length argv + n = 16"
    and "\<forall>a \<in> set argv. terminated front a"
  shows "\<exists>buffer argv'. fuzz_build_arguments data 16 position (front @ rear) argv = Some (buffer, argv') \<and>
    length buffer = FUZZ_CLI_BUFFER_SIZE \<and>
    map (argument_value buffer) argv' = map (argument_value (front @ rear)) argv @ split_arguments n data"
  using assms
proof (induction n arbitrary: data position front rear argv)
  case 0
  then show ?case by (subst fuzz_build_arguments.simps) simp
next
  case (Suc n)
  show ?case
  proof (cases "data = []")
    case True
    then show ?thesis using Suc.prems by (subst fuzz_build_arguments.simps) (simp add: split_arguments.simps(2))
  next
    case False
    let ?a = "take 63 (takeWhile (\<lambda>c. c \<noteq> NUL) data)"
    let ?rest = "drop (if length ?a < 63 then length ?a + 1 else 63) data"
    let ?front = "front @ ?a @ [NUL]" let ?tail = "drop (length ?a + 1) rear"
    have pos: "position \<le> 896" "length argv < 16" using Suc.prems(3,5) by simp_all
    have la: "length ?a \<le> 63" by simp
    have rear: "length ?a < length rear" using pos(1) la Suc.prems(1,2) by simp
    have drop: "(if length ?a < 63 then length ?a + 1 else length ?a) = (if length ?a < 63 then length ?a + 1 else 63)"
      using la by simp
    have "fuzz_copy_argument data position position (front @ rear) =
        Some (?rest, position + length ?a, front @ ?a @ drop (length ?a) rear)"
      using copy_argument [of "front @ rear" position position ?a data] pos(1) Suc.prems(1,2) drop
      by (simp del: length_take)
    moreover have "store_byte (front @ ?a @ drop (length ?a) rear) (position + length ?a) NUL = Some (?front @ ?tail)"
    proof -
      have "(drop (length ?a) rear)[0 := NUL] = NUL # ?tail"
        using rear by (metis Cons_nth_drop_Suc Suc_eq_plus1 list_update_code(2))
      then show ?thesis using rear Suc.prems(1) by (simp add: store_byte_def list_update_append del: length_take)
    qed
    ultimately have step: "fuzz_build_arguments data 16 position (front @ rear) argv =
        fuzz_build_arguments ?rest 16 (position + length ?a + 1) (?front @ ?tail) (argv @ [Argument_at position])"
      using False pos by (subst fuzz_build_arguments.simps) (simp del: length_take)
    have new: "argument_value (?front @ ?tail) (Argument_at position) = ?a"
      using Suc.prems(1) cstr_prefix [OF argument_no_nul, of 63 data ?tail] by simp
    have old: "map (argument_value (?front @ ?tail)) argv = map (argument_value (front @ rear)) argv"
    proof (rule map_cong [OF refl])
      fix a assume "a \<in> set argv"
      then have t: "terminated front a" using Suc.prems(6) by blast
      show "argument_value (?front @ ?tail) a = argument_value (front @ rear) a"
        using terminated_value [OF t, of "?a @ [NUL] @ ?tail"] terminated_value [OF t, of rear] by simp
    qed
    have pre: "length ?front = position + length ?a + 1" "length (?front @ ?tail) = FUZZ_CLI_BUFFER_SIZE"
      using Suc.prems(1,2) rear by (simp_all del: length_take)
    have room: "position + length ?a + 1 \<le> 64 * (length (argv @ [Argument_at position]) - 1)"
      using Suc.prems(3,4) la by (cases argv) (simp_all del: length_take)
    have count: "argv @ [Argument_at position] \<noteq> []" "length (argv @ [Argument_at position]) + n = 16"
      using Suc.prems(5) by simp_all
    have ends: "\<forall>a \<in> set (argv @ [Argument_at position]). terminated ?front a"
      using terminated_mono Suc.prems(1,6) by auto
    obtain buffer argv' where r:
      "fuzz_build_arguments ?rest 16 (position + length ?a + 1) (?front @ ?tail) (argv @ [Argument_at position]) = Some (buffer, argv')"
      "length buffer = FUZZ_CLI_BUFFER_SIZE"
      "map (argument_value buffer) argv' =
         map (argument_value (?front @ ?tail)) (argv @ [Argument_at position]) @ split_arguments n ?rest"
      using Suc.IH [OF pre room count ends, of ?rest] by (elim exE conjE) (rule that)
    show ?thesis
      unfolding step using r new old False by (simp add: split_arguments.simps(2) [of n data] Let_def del: length_take)
  qed
qed

section \<open>What the harnesses do\<close>

abbreviation fuzz_arguments :: "string \<Rightarrow> string list" where
  "fuzz_arguments data \<equiv> ''bc-seek'' # split_arguments (FUZZ_CLI_MAX_ARGS - 1) data"

lemma build_argv:
  assumes "length buffer = FUZZ_CLI_BUFFER_SIZE"
  shows "\<exists>buffer' argv. build_argv_from_fuzz_buffer data buffer FUZZ_CLI_MAX_ARGS = Some (buffer', argv) \<and>
    length buffer' = FUZZ_CLI_BUFFER_SIZE \<and> map (argument_value buffer') argv = fuzz_arguments data"
  using build_arguments [of "[]" 0 buffer "[Argument_literal ''bc-seek'']" 15 data] assms
  by (simp add: build_argv_from_fuzz_buffer_def)

definition cli_parse_outcome :: "fuzz_env \<Rightarrow> string \<Rightarrow> (string list \<times> (message + cli_options) option) option" where
  "cli_parse_outcome env data =
     (if fz_memory_create env \<and> fz_store_create env then
        Some (fuzz_arguments data, map_option (\<lambda>(store, parsed). bind_options (fz_core env) (fz_os env) store parsed)
          (fz_cli_parse env (fuzz_arguments data)))
      else None)"

lemma fuzz_cli_parse_outcome:
  assumes "length argv_buffer = FUZZ_CLI_BUFFER_SIZE"
  shows "fuzz_cli_parse env argv_buffer data = Some (cli_parse_outcome env data)"
proof -
  obtain buffer argv where "build_argv_from_fuzz_buffer data argv_buffer FUZZ_CLI_MAX_ARGS = Some (buffer, argv)"
    "map (argument_value buffer) argv = fuzz_arguments data" using that build_argv [OF assms, of data] by auto
  then show ?thesis
    by (simp add: fuzz_cli_parse_def cli_parse_outcome_def Let_def split: option.splits)
qed

text \<open>Copying \<open>n\<close> bytes and terminating them.\<close>

lemma copy_terminate:
  assumes "n < length array" "n \<le> length data"
  shows "copy_bytes array data n = Some (take n data @ drop n array)"
    and "store_byte (take n data @ drop n array) n NUL = Some (take n data @ NUL # drop (Suc n) array)"
proof -
  show "copy_bytes array data n = Some (take n data @ drop n array)"
    using assms by (simp add: copy_bytes_def)
  have "(drop n array)[0 := NUL] = NUL # drop (Suc n) array"
    using assms(1) by (metis Cons_nth_drop_Suc list_update_code(2))
  then show "store_byte (take n data @ drop n array) n NUL = Some (take n data @ NUL # drop (Suc n) array)"
    using assms by (simp add: store_byte_def list_update_append)
qed

lemma cstr_terminated: "cstr (s @ NUL # rest) = cstr s"
  by (induction s) (simp_all add: cstr_def)

definition parsers_outcome :: "bc_core \<Rightarrow> string \<Rightarrow> parser_results option" where
  "parsers_outcome C data =
     (if data = [] then None
      else let v = cstr (take 255 data) in
        Some \<lparr>pr_size = parse_size_filter C (Some v), pr_mtime = parse_mtime_filter C (Some v),
          pr_type = parse_type_filter C v, pr_perm = parse_perm_filter C (Some v), pr_threads = parse_threads C (Some v)\<rparr>)"

lemma fuzz_filter_parsers_outcome:
  assumes "length v = 256"
  shows "fuzz_filter_parsers C v data = Some (parsers_outcome C data)"
proof -
  let ?n = "if length data < length v - 1 then length data else length v - 1"
  have n: "?n < length v" "?n \<le> length data" and t: "take ?n data = take 255 data" using assms by auto
  show ?thesis
    using copy_terminate [OF n] unfolding fuzz_filter_parsers_def parsers_outcome_def Let_def
    by (simp only: option.case cstr_terminated t length_0_conv split: if_split) simp
qed

definition glob_outcome :: "os \<Rightarrow> string \<Rightarrow> (bool \<times> bool) option" where
  "glob_outcome os data =
     (let n = of_char (data ! 0); rest = drop 2 data in
      if length data < 3 \<or> length rest < n then None
      else Some (filter_glob_matches os (cstr (take n rest)) (cstr (take 511 (drop n rest)))
             ((of_char (data ! 1) :: 8 word) AND 1 \<noteq> 0),
           take 511 (drop n rest) \<in> set ignored_directory_names))"

lemma of_char_bound: "(of_char c :: nat) < 256"
  by (metis nat_of_char_less_256)

lemma fuzz_glob_match_outcome:
  assumes "core_ok C" "length p = 256" "length v = 512"
  shows "fuzz_glob_match C os p v data = Some (glob_outcome os data)"
proof (cases "length data < 3 \<or> length data < 2 + (of_char (data ! 0) :: nat)")
  case True
  then show ?thesis by (auto simp: fuzz_glob_match_def glob_outcome_def Let_def)
next
  case False
  define n where "n = (of_char (data ! 0) :: nat)"
  have n: "n \<le> 255" using of_char_bound [of "data ! 0"] unfolding n_def by linarith
  let ?rest = "drop (2 + n) data"
  let ?m = "if length data - (2 + n) < 512 - 1 then length data - (2 + n) else 512 - 1"
  have a: "(if n < 256 - 1 then n else 256 - 1) = n" using n by auto
  have b: "?m < length v" "?m \<le> length ?rest" "take ?m ?rest = take 511 ?rest" using assms(3) by auto
  have c: "n < length p" "n \<le> length (drop 2 data)" using n assms(2) False by (auto simp: n_def)
  have i: "filter_ignored_directory_name C (take 511 ?rest @ NUL # drop (Suc ?m) v) ?m \<longleftrightarrow>
      take 511 ?rest \<in> set ignored_directory_names"
    using ignored_directory_name_iff [OF assms(1), of ?m "take 511 ?rest @ NUL # drop (Suc ?m) v"] b by auto
  have e: "drop n (drop 2 data) = ?rest" by (simp add: add.commute)
  have f: "\<not> length data < 3" "\<not> length data < 2 + n" "\<not> length (drop 2 data) < n" using False by (auto simp: n_def)
  show ?thesis
    using f copy_terminate [OF c] copy_terminate [OF b(1,2)] i
    unfolding fuzz_glob_match_def glob_outcome_def Let_def n_def [symmetric] assms(2,3) a b(3) e
    by (simp add: cstr_terminated)
qed

text \<open>The programs: the arguments they accept, and what a run does with a harness that does not fail.\<close>

definition accepted_arguments :: "string list \<Rightarrow> bool" where
  "accepted_arguments arguments \<longleftrightarrow>
     arguments \<noteq> [] \<and> (\<forall>s \<in> set (take 2 arguments). digits s \<and> dec_value s < 2 ^ 64)"

definition runs_inputs ::
  "string list \<Rightarrow> nat \<Rightarrow> (string \<Rightarrow> 'b) \<Rightarrow> (int \<times> message list \<times> (string \<times> 'b) list) option \<Rightarrow> bool" where
  "runs_inputs arguments buffer_size outcome result \<longleftrightarrow>
     (if accepted_arguments arguments then
        (\<exists>results. result = Some (0, [], results) \<and> length results = dec_value (hd arguments) \<and>
           (\<forall>(data, r) \<in> set results. length data < buffer_size \<and> r = outcome data))
      else (\<exists>msg. result = Some (2, [msg], [])))"

lemma random_bytes_length: "length (fst (fuzz_random_bytes rand j r)) = j"
  by (induction j arbitrary: r) (simp_all add: case_prod_unfold Let_def)

lemma fuzz_loop_total:
  assumes "0 < buffer_size" "\<And>data. test data = Some (outcome data)"
  shows "\<exists>results. fuzz_loop rand test buffer_size i r = Some results \<and> length results = i \<and>
    (\<forall>(data, r) \<in> set results. length data < buffer_size \<and> r = outcome data)"
proof (induction i arbitrary: r)
  case (Suc i)
  obtain n r1 where n: "rand r = (n, r1)" by fastforce
  obtain data r2 where d: "fuzz_random_bytes rand (n mod buffer_size) r1 = (data, r2)" by fastforce
  have "length data < buffer_size"
    using random_bytes_length [of rand "n mod buffer_size" r1] d assms(1) by simp
  then show ?case using Suc [of r2] n d assms(2) by auto
qed simp

lemma main_arguments:
  assumes "core_ok C"
  shows "if accepted_arguments arguments
    then \<exists>iterations seed. fuzz_main_arguments C argv0 arguments = Inr (iterations, seed) \<and>
      unat iterations = dec_value (hd arguments)
    else \<exists>msg. fuzz_main_arguments C argv0 arguments = Inl msg"
proof -
  have number: "(case core_parse_u64 C s (length s) of None \<Rightarrow> Inl msg
      | Some (k, consumed) \<Rightarrow> if consumed \<noteq> length s then Inl msg else f k) =
    (if digits s \<and> dec_value s < 2 ^ 64 then f (of_nat (dec_value s)) else Inl msg)"
    for s :: string and msg :: message and f :: "u64 \<Rightarrow> message + u64 \<times> u64"
  proof (cases "s = []")
    case True
    then show ?thesis using assms by (simp add: core_parse_u64I parse_u64_prefix_def digits_def)
  next
    case False
    have "(case parse_u64_prefix s of None \<Rightarrow> None
          | Some (k, consumed) \<Rightarrow> if consumed \<noteq> length s then None else Some k) =
        (if list_all is_digit s \<and> dec_value s < 2 ^ 64 then Some (of_nat (dec_value s)) else None)"
      using parse_u64_prefix_all [OF False, of Some] .
    then show ?thesis
      using assms False by (auto simp: core_parse_u64I digits_def split: option.splits prod.splits if_splits)
  qed
  show ?thesis
    unfolding fuzz_main_arguments_def Let_def number
    by (auto simp: accepted_arguments_def unat_of_nat_64 split: list.splits)
qed

lemma fuzz_main_runs:
  assumes "core_ok C" "0 < buffer_size" "\<And>data. test data = Some (outcome data)"
  shows "runs_inputs arguments buffer_size outcome (fuzz_main C srand rand buffer_size test argv0 arguments)"
  using main_arguments [OF assms(1), of arguments argv0] fuzz_loop_total [OF assms(2,3), of rand]
  unfolding runs_inputs_def fuzz_main_def
  by (cases "accepted_arguments arguments") fastforce+

section \<open>Properties\<close>

text \<open>C29: whatever the input and whatever its buffer held before, the parser harness never writes
  outside the buffer and hands the parser the program name and the input split at its NULs and
  after every 63 characters: at most 16 arguments, none longer than 63 characters.\<close>

theorem fuzz_argv_splits_input:
  assumes "length buffer = FUZZ_CLI_BUFFER_SIZE"
  shows "\<exists>buffer' argv. build_argv_from_fuzz_buffer data buffer FUZZ_CLI_MAX_ARGS = Some (buffer', argv) \<and>
    length buffer' = FUZZ_CLI_BUFFER_SIZE \<and> map (argument_value buffer') argv = fuzz_arguments data \<and>
    length argv \<le> FUZZ_CLI_MAX_ARGS \<and> (\<forall>a \<in> set argv. length (argument_value buffer' a) < FUZZ_CLI_MAX_ARG_LENGTH)"
proof -
  obtain buffer' argv where r: "build_argv_from_fuzz_buffer data buffer FUZZ_CLI_MAX_ARGS = Some (buffer', argv)"
    "length buffer' = FUZZ_CLI_BUFFER_SIZE" "map (argument_value buffer') argv = fuzz_arguments data"
    using that build_argv [OF assms, of data] by auto
  have "length argv = Suc (length (split_arguments 15 data))" using arg_cong [OF r(3), of length] by simp
  moreover have "argument_value buffer' a \<in> set (fuzz_arguments data)" if "a \<in> set argv" for a
    using that r(3) by (metis image_eqI set_map)
  ultimately show ?thesis using r split_arguments_bounds [of 15 data] by fastforce
qed

theorem fuzz_argv_splits_input_witness:
  "\<exists>buffer' argv. build_argv_from_fuzz_buffer (''find'' @ [NUL] @ ''--name=x'') (replicate FUZZ_CLI_BUFFER_SIZE CHR ''?'')
      FUZZ_CLI_MAX_ARGS = Some (buffer', argv) \<and>
     map (argument_value buffer') argv = [''bc-seek'', ''find'', ''--name=x'']"
proof -
  have "split_arguments 15 (''find'' @ [NUL] @ ''--name=x'') = [''find'', ''--name=x'']" by code_simp
  then show ?thesis
    using fuzz_argv_splits_input [of "replicate FUZZ_CLI_BUFFER_SIZE CHR ''?''" "''find'' @ [NUL] @ ''--name=x''"] by auto
qed

text \<open>C30: the three fuzzing programs never leave their arrays, whatever the generator yields: with
  decimal arguments that fit 64 bits they test as many inputs as asked, each shorter than the
  buffer, and the outcome of each is that of the code under test on the strings copied out of
  it; otherwise they exit with 2, one message and no test.\<close>

theorem fuzz_programs_stay_in_bounds:
  assumes "core_ok C" "core_ok (fz_core env)"
    and "length argv_buffer = FUZZ_CLI_BUFFER_SIZE" "length v256 = 256" "length p256 = 256" "length v512 = 512"
  shows "runs_inputs arguments 2048 (cli_parse_outcome env) (fuzz_cli_parse_main env argv_buffer srand rand argv0 arguments) \<and>
    runs_inputs arguments 512 (parsers_outcome C) (fuzz_filter_parsers_main C v256 srand rand argv0 arguments) \<and>
    runs_inputs arguments 1024 (glob_outcome os) (fuzz_glob_match_main C os p256 v512 srand rand argv0 arguments)"
  unfolding fuzz_cli_parse_main_def fuzz_filter_parsers_main_def fuzz_glob_match_main_def
  using assms by (simp add: fuzz_main_runs fuzz_cli_parse_outcome fuzz_filter_parsers_outcome fuzz_glob_match_outcome)

theorem fuzz_programs_stay_in_bounds_witness:
  "\<exists>results. fuzz_filter_parsers_main ref_core (replicate 256 NUL) (\<lambda>seed. unat seed) (\<lambda>r. (r, r + 1)) ''fuzz'' [''2'', ''48''] =
     Some (0, [], results) \<and> length results = 2 \<and> (\<forall>(data, r) \<in> set results. r = parsers_outcome ref_core data)"
proof -
  let ?env = "\<lparr>fz_core = ref_core, fz_os = demo_os, fz_memory_create = False, fz_store_create = False, fz_cli_parse = (\<lambda>a. None)\<rparr>"
  have "accepted_arguments [''2'', ''48'']" "dec_value ''2'' = 2"
    by (simp_all add: accepted_arguments_def digits_def base_value_def is_digit_def digit_value_def)
  then show ?thesis
    using fuzz_programs_stay_in_bounds [of ref_core ?env "replicate FUZZ_CLI_BUFFER_SIZE NUL" "replicate 256 NUL" "replicate 256 NUL"
        "replicate 512 NUL" "[''2'', ''48'']" "\<lambda>seed. unat seed" "\<lambda>r. (r, r + 1)" "''fuzz''" demo_os] ref_core_ok
    by (fastforce simp: runs_inputs_def)
qed

end
