(* ===== verification/Spec2Isabelle.thy ===== *)
theory Spec2Isabelle
  imports Seek_Walk_Buffer Seek_Walk_Stop Seek_Interleaving Seek_Main Seek_Fuzz
begin

text \<open>
  A model of bc-seek, a \<^verbatim>\<open>find\<close>-like program in C: it walks directory trees, sequentially or on
  several threads, filters the entries by name, path, type, size, age, permission and depth, and
  writes the paths that match. Paths of the C files below are relative to the repository.

  \<^bold>\<open>The program.\<close> \<open>main\<close> (\<^verbatim>\<open>src/bc_seek_main.c\<close>) hands the option tables to the argument parser of
  bc-runtime, binds the parsed values to the options, turns the thread mode into a configuration
  of bc-concurrency and lets bc-runtime call \<open>init\<close>, \<open>run\<close> and \<open>cleanup\<close>. \<open>init\<close> makes the predicate
  of the options and opens the output; \<open>run\<close> chooses the parallel or the sequential walk; both
  build a candidate for every entry, evaluate the predicate on it and emit its path. Errors go to
  a collector, and their number decides the exit code.

  \<^bold>\<open>Theories.\<close>
  \<^item> \<open>Seek_Prelude\<close>: machine integers, C strings (a \<open>string\<close> up to its NUL; a byte buffer is a
    \<open>char list\<close>, read with \<open>cstr\<close>), decimal numbers, bc-core and its documented behaviour
    \<open>core_ok\<close>, the collections of rules.
  \<^item> \<open>Seek_Types\<close>: the enums and structs of \<^verbatim>\<open>include/internal\<close>; the operating system as the record
    \<open>os\<close>. \<open>Seek_Demo\<close>: a concrete tree for the closed instances.
  \<^item> \<open>Seek_Strings\<close>, \<open>Seek_Parsers\<close>: \<^verbatim>\<open>src/strings\<close> and \<^verbatim>\<open>src/cli/bc_seek_cli_parsers.c\<close>; the
    grammars of all values, the digit loop as checked decimal evaluation, a round trip.
  \<^item> \<open>Seek_Spec\<close>, \<open>Seek_Bind\<close>: \<^verbatim>\<open>src/cli/bc_seek_cli_spec.c\<close>, the option tables and the binder as a
    list of stages; the invariant of bound options, exact bounds of the age, and that the binder
    reads declared options only, at their declared types.
  \<^item> \<open>Seek_Filter\<close>: \<^verbatim>\<open>src/filter/bc_seek_filter.c\<close>; the early returns decide a conjunction, the lazy
    stat decides as an eager one, and a stat is made exactly when \<open>stat_wanted\<close> says so.
  \<^item> \<open>Seek_Output\<close>: \<^verbatim>\<open>src/output/bc_seek_output.c\<close>; the contract \<open>match_sink\<close> of everything that
    takes matches, interpreted here and on the buffers of the parallel walk.
  \<^item> \<open>Seek_Walk\<close>: \<^verbatim>\<open>src/discovery/bc_seek_discovery_walk_sequential.c\<close>, with the path buffer as an
    array and each way out of a loop as a branch. \<open>Seek_Walk_Frame\<close>: the contract \<open>walk_relation\<close>
    of what every run keeps (errors, the stop flag, descriptors, output) and termination.
    \<open>Seek_Walk_Spec\<close>: the abstract walk over path strings and events, and the refinement.
    \<open>Seek_Walk_Reach\<close>: what it finds, by reachability instead of recursion, and the bounds of the
    paths. \<open>Seek_Walk_Buffer\<close>: the path buffer under failing writers and stops.
    \<open>Seek_Walk_Stop\<close>: a stopped run against the run of the same walk without a signal handler.
  \<^item> \<open>Seek_Parallel\<close>: \<^verbatim>\<open>src/discovery/bc_seek_discovery_walk_parallel.c\<close>. \<open>Seek_Parallel_Spec\<close>: the
    slots, the vectored write, the bytes of a whole walk, and where the two walks differ.
    \<open>Seek_Interleaving\<close>: the threads, as the sequences of callbacks they amount to, and which
    sequences leave the same slots and errors.
  \<^item> \<open>Seek_Main\<close>: \<^verbatim>\<open>src/bc_seek_main.c\<close>. \<open>Seek_Fuzz\<close>: the three programs of \<^verbatim>\<open>fuzzing\<close>.
  \<^item> This theory: the statements that span components, from the arguments to the bytes.

  \<^bold>\<open>State and effects.\<close> What a C struct only reads is a context record, what it changes a state
  record passed along; out-parameters are results. A C function that returns false is \<open>None\<close> or
  \<open>Inl\<close> of its message, or a boolean where the caller keeps the state it has changed. Descriptors,
  messages, closed files and bytes written past the writer are logs in the state; the walk logs
  every directory descriptor it opens or closes. Integers are
  words of their C width where they can wrap (\<open>uint64_t\<close> sizes, \<open>time_t\<close>, modes); lengths of
  strings that exist in memory and depths are \<open>nat\<close>.

  \<^bold>\<open>Bounds and fuel.\<close> A directory is walked on fuel 4096, the capacity of the path buffer: each level
  lengthens the path by a byte at least, so the fuel is never used up, and more fuel changes
  nothing (\<open>directory_result_independent_of_fuel\<close>). The write loop needs a call
  per byte and per interrupt; a vector of only empty buffers would repeat for ever, and none is
  gathered. The runtime makes at most three callbacks, and four calls of its loop see it end.

  \<^bold>\<open>Parameters and hypotheses.\<close> Code outside the repository is an argument: bc-core (\<open>core_ok\<close>), the
  buffered writer (\<open>writer_ok\<close>: what it accepts is what it was given, in order; \<open>writer_reliable\<close>:
  it takes every write; \<open>writer_delivers\<close>: what has reached the descriptor is a first part of what it
  accepted, all of it after a flush that succeeds), the generated arrays (\<open>array_ok\<close>, \<open>array_reliable\<close>), the slots and workers
  of bc-concurrency and the directory walker of bc-io (any sequence of callbacks), \<open>writev\<close>
  (\<open>writev_ok\<close>), \<open>readdir\<close> (\<open>readdir_ok\<close>: names are not empty and hold neither NUL nor slash), the
  other system calls (any answers), the signal handler (any answers over time), the life cycle of
  bc-runtime (\<open>runtime_ok\<close>). The answers of a system call depend on its arguments only: the file
  system does not change during a walk. Each set of hypotheses is met by a concrete instance.

  \<^bold>\<open>Not modelled.\<close> Allocation contexts and the freeing of memory; the screens of help and version,
  which bc-runtime prints, beyond their exit code; the printing of the collected errors, also by
  bc-runtime; the creation and destruction of directory readers beyond the failure of the
  creation; a failing append of the error collector, whose result the code does not look at; the
  inside of the bc-io walker, in particular which entries it hands over; threads and their scheduling; weak
  memory effects of the atomic root device, which is written before the workers start; the build
  files, scripts and tests.
\<close>

section \<open>The program end to end\<close>

text \<open>What the sequential walk of the program is given: the environment and the bound options.\<close>

definition program_context :: "('w, 'a) program_env \<Rightarrow> cli_options \<Rightarrow> 'w walk_context" where
  "program_context env options =
     \<lparr>wc_core = env_core env, wc_os = env_os env, wc_writer = env_writer env,
      wc_predicate = predicate_from_options (env_os env) options,
      wc_signal_handler = env_signal_handler env,
      wc_follow_symlinks = opt_follow_symlinks options, wc_one_file_system = opt_one_file_system options\<rparr>"

definition program_roots :: "cli_options \<Rightarrow> string list" where
  "program_roots options = take (opt_positional_argument_count options) (opt_positional_argument_values options)"

text \<open>Nothing around the walk fails: every resource is there and the runtime keeps its life cycle.\<close>

definition runs_through :: "('w, 'a) program_env \<Rightarrow> concurrency_config \<Rightarrow> bool" where
  "runs_through env config \<longleftrightarrow>
     env_cli_memory_create env \<and> env_store_create env \<and> env_runtime_create env config \<and>
     runtime_ok (env_runtime_next env) \<and> env_memory_context env \<and> env_error_collector_create env \<and>
     env_parallel_context env \<and> \<not> env_interrupted env"

lemma walk_environment_sequential:
  "app_cli_options st = options \<Longrightarrow> app_predicate st = predicate_from_options (env_os env) options \<Longrightarrow>
   sequential_context (walk_environment env n st) = program_context env options"
  by (simp add: sequential_context_def walk_environment_def program_context_def)

text \<open>A quiet sequential run carries out the specification.\<close>

lemma sequential_run:
  assumes "env_memory_context env" "env_parallel_context env" "\<not> env_interrupted env"
    and "app_cli_options st = options" "app_predicate st = predicate_from_options (env_os env) options" "app_errors st = Some []"
    and seq: "opt_threads_mode options = THREADS_MODE_MONO \<or> env_effective_worker_count env config < 2"
    and q: "quiet (program_context env options)" "\<forall>root \<in> set (program_roots options). no_nul root"
    and spec: "spec_walk (program_context env options) (program_roots options) = (evs, ok)"
  shows "\<exists>ok' st'. application_run fuel env config st = Some (ok', st') \<and>
    app_exit_code st' = (if ok \<and> failures evs = [] then 0 else 1) \<and> app_messages st' = app_messages st \<and>
    app_sent st' = app_sent st \<and> app_output_opened st' = app_output_opened st \<and>
    out_fd (app_output st') = out_fd (app_output st) \<and>
    wr_accepted (env_writer env) (out_writer (app_output st')) =
      wr_accepted (env_writer env) (out_writer (app_output st)) @ lines_of (out_separator (app_output st)) (found evs)"
proof -
  let ?ctx = "program_context env options"
  have r: "ready (walk_start (app_output st) []) None" by (simp add: ready_def walk_start_def)
  obtain ws where w: "walk_sequential ?ctx (program_roots options) (app_output st) [] = Some (ok, ws)"
    and m: "advanced ?ctx (walk_start (app_output st) []) evs ws"
  proof (cases "program_roots options = []")
    case True
    then obtain dev where "spec_root ?ctx None ''.'' = (evs, ok, dev)"
      using spec by (auto simp: spec_walk_def split: prod.splits)
    then show ?thesis
      using that visit_root_refines [OF q(1) _ r, of "''.''"] True by (auto simp: walk_sequential_def walk_from_def)
  next
    case False
    then show ?thesis
      using that roots_refine [OF q r, of evs ok True] spec by (auto simp: walk_sequential_def walk_from_def spec_walk_def)
  qed
  have walk: "application_walk fuel env config st =
      Some \<lparr>res_ok = ok, res_output = ws_output ws, res_errors = ws_errors ws, res_sent = []\<rparr>"
    using seq w walk_environment_sequential [OF assms(4,5)] assms(4,6)
    by (auto simp: application_walk_def Let_def program_roots_def)
  have "out_fd (ws_output ws) = out_fd (app_output st)"
    using out.walk w unfolding walk_sequential_def by (fastforce simp: output_grows_def walk_start_def)
  moreover have "ws_errors ws = failures evs"
    "wr_accepted (env_writer env) (out_writer (ws_output ws)) =
      wr_accepted (env_writer env) (out_writer (app_output st)) @ lines_of (out_separator (app_output st)) (found evs)"
    using m by (simp_all add: advanced_def moved_def accepted_def walk_start_def program_context_def)
  ultimately show ?thesis using assms(1-3) walk by (auto simp: application_run_def)
qed

text \<open>What surrounds a run: the state \<open>init\<close> leaves, and what \<open>main\<close> makes of the state after the run.\<close>

lemma program_runs:
  assumes parse: "env_cli_parse env arguments = (PARSE_OK, store, parsed)"
    and bind: "bind_options (env_core env) (env_os env) store parsed = Inr options"
    and config: "parallel_config_of env options = Some config" and through: "runs_through env config" and calls: "4 \<le> calls"
    and stdout: "opt_output_mode options = OUTPUT_MODE_STDOUT"
    and writer: "wr_init (env_writer env) STDOUT_FILENO OUTPUT_BUFFER_BYTES = Some w"
  obtains st1 where "app_cli_options st1 = options" "app_predicate st1 = predicate_from_options (env_os env) options"
    "app_errors st1 = Some []" "out_writer (app_output st1) = w" "app_messages st1 = []" "app_sent st1 = []"
    "out_separator (app_output st1) = (if opt_null_terminated options then NUL else CHR ''\<newline>'')"
    "app_output_opened st1" "out_fd (app_output st1) = STDOUT_FILENO"
    "\<And>ok' st2. application_run fuel env config st1 = Some (ok', st2) \<Longrightarrow>
       seek_main calls fuel env arguments = Some (app_exit_code st2, app_messages st2, Some (application_cleanup env st2))"
proof -
  let ?st0 = "initial_state env options"
  have st0: "app_cli_options ?st0 = options" "app_messages ?st0 = []" "app_sent ?st0 = []" by (simp_all add: initial_state_def)
  have env: "env_memory_context env" "env_error_collector_create env" using through by (simp_all add: runs_through_def)
  obtain st1 where i: "application_init env ?st0 = (True, st1)" and st1: "app_cli_options st1 = options"
      "app_predicate st1 = predicate_from_options (env_os env) options" "app_errors st1 = Some []"
      "out_writer (app_output st1) = w" "app_messages st1 = []" "app_sent st1 = []"
      "out_separator (app_output st1) = (if opt_null_terminated options then NUL else CHR ''\<newline>'')"
      "app_output_opened st1" "out_fd (app_output st1) = STDOUT_FILENO"
    using init_stdout [OF env _ writer, of ?st0] stdout st0 by auto
  have "seek_main calls fuel env arguments = Some (app_exit_code st2, app_messages st2, Some (application_cleanup env st2))"
    if "application_run fuel env config st1 = Some (ok', st2)" for ok' st2
  proof -
    have "runtime_run calls fuel env config [] ?st0 = Some (application_cleanup env st2)"
      using through calls i that by (simp add: runtime_run_cycle runs_through_def)
    then show ?thesis using parse bind config through by (simp add: seek_main_def runs_through_def cleanup_frame(1,2))
  qed
  then show ?thesis by (rule that [OF st1])
qed

text \<open>C1: from the command line to the bytes on standard output: when the arguments bind to options
  for standard output and the walk is sequential, the buffered writer takes every write and no
  signal arrives, what has reached standard output at the end is a first part of the lines the
  specification finds for the roots, and all of them if flushing succeeds. The program prints no
  message of its own and exits with 0 if the walk succeeded and recorded no error, else with 1;
  whether the last flush succeeded makes no difference to the exit code.\<close>

theorem program_prints_specified_matches:
  assumes "env_cli_parse env arguments = (PARSE_OK, store, parsed)"
    and "bind_options (env_core env) (env_os env) store parsed = Inr options"
    and "parallel_config_of env options = Some config" "runs_through env config" "4 \<le> calls"
    and "opt_output_mode options = OUTPUT_MODE_STDOUT"
    and "wr_init (env_writer env) STDOUT_FILENO OUTPUT_BUFFER_BYTES = Some w"
    and "opt_threads_mode options = THREADS_MODE_MONO \<or> env_effective_worker_count env config < 2"
    and "quiet (program_context env options)" "\<forall>root \<in> set (program_roots options). no_nul root"
    and "spec_walk (program_context env options) (program_roots options) = (evs, ok)"
    and "writer_delivers (env_writer env)"
  shows "\<exists>st. seek_main calls fuel env arguments = Some (if ok \<and> failures evs = [] then 0 else 1, [], Some st) \<and>
    prefix (wr_written (env_writer env) (out_writer (app_output st)))
      (lines_of (if opt_null_terminated options then NUL else CHR ''\<newline>'') (found evs)) \<and>
    ((\<forall>v. fst (wr_flush (env_writer env) v)) \<longrightarrow>
       wr_written (env_writer env) (out_writer (app_output st)) =
         lines_of (if opt_null_terminated options then NUL else CHR ''\<newline>'') (found evs))"
proof -
  have env: "env_memory_context env" "env_parallel_context env" "\<not> env_interrupted env"
    using assms(4) by (simp_all add: runs_through_def)
  have W: "writer_ok (env_writer env)" using assms(9) by (simp add: quiet_def program_context_def)
  obtain st1 where i: "app_cli_options st1 = options" "app_predicate st1 = predicate_from_options (env_os env) options"
      "app_errors st1 = Some []" "out_writer (app_output st1) = w" "app_messages st1 = []"
      "out_separator (app_output st1) = (if opt_null_terminated options then NUL else CHR ''\<newline>'')"
      "app_output_opened st1" "out_fd (app_output st1) = STDOUT_FILENO"
    and main: "\<And>ok' st2. application_run fuel env config st1 = Some (ok', st2) \<Longrightarrow>
      seek_main calls fuel env arguments = Some (app_exit_code st2, app_messages st2, Some (application_cleanup env st2))"
    using program_runs [OF assms(1-7)] by metis
  obtain ok' st2 where r: "application_run fuel env config st1 = Some (ok', st2)"
      "app_exit_code st2 = (if ok \<and> failures evs = [] then 0 else 1)" "app_messages st2 = []"
      "app_output_opened st2" "0 \<le> out_fd (app_output st2)"
      "wr_accepted (env_writer env) (out_writer (app_output st2)) =
        wr_accepted (env_writer env) w @ lines_of (if opt_null_terminated options then NUL else CHR ''\<newline>'') (found evs)"
    using sequential_run [OF env i(1-3) assms(8-11), of fuel] i(4-8) by (auto simp: STDOUT_FILENO_def)
  note delivered = cleanup_delivers [OF W assms(12) r(4,5)]
  show ?thesis
    using main [OF r(1)] r(2,3,6) writer_okD(1) [OF W assms(7)] delivered by simp
qed

definition demo_options :: cli_options where
  "demo_options = zero_options\<lparr>opt_respect_ignore_defaults := True\<rparr>"

lemma demo_program: "program_context demo_env demo_options = demo_context" "program_roots demo_options = []"
  by (simp_all add: program_context_def demo_env_def demo_context_def demo_options_def zero_options_def
      predicate_from_options_def plain_predicate_def demo_os_def program_roots_def)

theorem program_prints_specified_matches_witness:
  "\<exists>st. seek_main 4 0 demo_env [''bc-seek'', ''find''] = Some (0, [], Some st) \<and>
     wr_written list_writer (out_writer (app_output st)) = lines_of CHR ''\<newline>''
       [''.'', ''./top.txt'', ''./sub'', ''./sub/alpha.c'', ''./sub/beta.h'', ''./sub/deep'', ''./sub/deep/gamma.c'']"
proof -
  let ?parsed = "\<lparr>parsed_positional_count = 0, parsed_positional_values = []\<rparr>"
  let ?config = "\<lparr>cc_worker_count_explicit = False, cc_worker_count = 0, cc_allow_oversubscribe = False\<rparr>"
  have parse: "env_cli_parse demo_env [''bc-seek'', ''find''] = (PARSE_OK, default_store ''mono'', ?parsed)"
    by (simp add: demo_env_def)
  have bind: "bind_options (env_core demo_env) (env_os demo_env) (default_store ''mono'') ?parsed = Inr demo_options"
    using bind_default_options [OF ref_core_ok, of demo_os "''mono''" ?parsed]
    by (simp add: demo_env_def demo_options_def zero_options_def)
  have config: "parallel_config_of demo_env demo_options = Some ?config"
    by (simp add: parallel_config_of_def demo_options_def zero_options_def)
  have through: "runs_through demo_env ?config"
    using demo_runtime_ok by (simp add: runs_through_def) (simp add: demo_env_def)
  have rest: "opt_output_mode demo_options = OUTPUT_MODE_STDOUT"
    "wr_init (env_writer demo_env) STDOUT_FILENO OUTPUT_BUFFER_BYTES = Some ([], [])"
    "env_effective_worker_count demo_env ?config < 2" "\<not> opt_null_terminated demo_options"
    "env_writer demo_env = list_writer" "\<forall>v. fst (wr_flush list_writer v)"
    by (simp_all add: demo_options_def zero_options_def demo_env_def list_writer_def)
  have "quiet (program_context demo_env demo_options)"
    "\<forall>root \<in> set (program_roots demo_options). no_nul root" by (simp_all add: demo_program demo_quiet)
  note t = program_prints_specified_matches [OF parse bind config through _ rest(1,2) _ this, unfolded demo_program,
      OF _ _ demo_walk, of 4 0]
  show ?thesis using t rest list_writer_ok(3) by auto
qed

section \<open>The program on several threads\<close>







section \<open>Another device\<close>

lemma entry_not_skipped:
  "pred_include_hidden (wc_predicate ctx) \<or> \<not> walk_is_hidden_name (de_name e) \<Longrightarrow>
   walk_entry ctx fd len depth e st \<noteq> Entry_skipped st'"
  by (auto simp: walk_entry_def Let_def split: option.splits prod.splits sum.splits if_splits)

lemma reported_directory_kept:
  assumes "wf_predicate (wc_predicate ctx)" "\<not> wc_follow_symlinks ctx"
  shows "fst (entry_is_directory ctx (snd (filter_evaluate (wc_os ctx) (wc_predicate ctx)
    (entry_candidate ctx path n name len DT_DIR fd depth))))"
proof -
  let ?c = "entry_candidate ctx path n name len DT_DIR fd depth"
  have c: "cand_type_resolved ?c" "cand_entry_type ?c = ENTRY_TYPE_DIRECTORY" "\<not> cand_follow_symlinks_enabled ?c"
    using assms(2) by (simp_all add: entry_candidate_def walk_type_from_dtype_def DT_DIR_def DT_REG_def)
  obtain b c1 where ev: "filter_evaluate (wc_os ctx) (wc_predicate ctx) ?c = (if b then DECISION_ACCEPT else DECISION_REJECT, c1)"
    and shape: "c1 = ?c \<or> filter_populate_stat (wc_os ctx) ?c = (True, c1)"
    using evaluate_shape [OF assms(1), of "wc_os ctx" ?c] by blast
  have "cand_type_resolved c1 \<and> cand_entry_type c1 = ENTRY_TYPE_DIRECTORY"
    using shape c populate_keeps_type [of "wc_os ctx" ?c True c1] by auto
  then show ?thesis using ev assms(2) by (simp add: entry_is_directory_def)
qed

text \<open>C23: a directory on another device, met with \<^verbatim>\<open>--one-file-system\<close>, is an error for the
  sequential walk, recorded with whatever \<open>errno\<close> held, so that the program exits with 1; the
  parallel walk passes over it in silence.\<close>

theorem other_device_is_error_only_sequentially:
  assumes "quiet ctx" "wc_one_file_system ctx" "\<not> wc_follow_symlinks ctx"
    and "holds_path (ws_buffer st) path" "\<not> ws_stop_requested st" "ws_root_device st = Some dev"
    and "de_d_type e = DT_DIR" "no_nul (de_name e)" "length (child_path path (de_name e)) < PATH_CAPACITY"
    and "walk_should_descend_directory ctx (de_name e) (length (de_name e)) (depth + 1)"
    and "sys_openat (wc_os ctx) fd (de_name e) True = Inr sub" "sys_fstat (wc_os ctx) sub = Inr s" "st_dev s \<noteq> dev"
    and "pc_one_file_system pctx" "ps_root_device pst = Some dev" "we_device_id entry = st_dev s"
  shows "(\<exists>st'. walk_entry ctx fd (length path) depth e st = Entry_done st' \<and>
      ws_errors st' = ws_errors st @ [(child_path path (de_name e), sys_errno_residue (wc_os ctx) fd (de_name e))]) \<and>
    parallel_visit pctx worker entry pst = (True, pst) \<and> \<not> parallel_should_descend pctx (Some dev) entry"
proof
  let ?name = "de_name e" let ?child = "child_path path (de_name e)"
  let ?c = "entry_candidate ctx ?child (length ?child) ?name (length ?name) DT_DIR fd depth"
  have visible: "pred_include_hidden (wc_predicate ctx) \<or> \<not> walk_is_hidden_name ?name"
    using assms(10) by (auto simp: walk_should_descend_directory_def split: if_splits)
  have wf: "wf_predicate (wc_predicate ctx)" using assms(1) by (simp add: quiet_def)
  have visit: "entry_visit ctx (ws_root_device st) fd path depth e =
      (candidate_events ctx ?c @ [Failed ?child (sys_errno_residue (wc_os ctx) fd ?name)], None)"
    using visible assms(2,3,6,7,9,10,11,12,13) reported_directory_kept [OF wf assms(3), of ?child "length ?child" ?name "length ?name" fd depth]
    by (simp add: entry_visit_def Let_def subdir_answer_def)
  have "failures (candidate_events ctx ?c) = []" by (simp add: candidate_events_def)
  then show "\<exists>st'. walk_entry ctx fd (length path) depth e st = Entry_done st' \<and>
      ws_errors st' = ws_errors st @ [(?child, sys_errno_residue (wc_os ctx) fd ?name)]"
    using entry_refines [OF assms(1,4,5,8) visit] entry_not_skipped [OF visible] by (auto simp: moved_def)
  show "parallel_visit pctx worker entry pst = (True, pst) \<and> \<not> parallel_should_descend pctx (Some dev) entry"
    using assms(14-16) \<open>st_dev s \<noteq> dev\<close>
    by (auto simp: parallel_visit_def off_device_def parallel_should_descend_def split: prod.splits)
qed

theorem other_device_is_error_only_sequentially_witness:
  "\<exists>st'. walk_entry (demo_context\<lparr>wc_one_file_system := True\<rparr>) 3 (length ''.'') 0 (dir_entry ''sub'')
      (demo_state\<lparr>ws_root_device := Some 2\<rparr>) = Entry_done st' \<and> ws_errors st' = [(''./sub'', 0)]"
proof -
  let ?ctx = "demo_context\<lparr>wc_one_file_system := True\<rparr>" let ?st = "demo_state\<lparr>ws_root_device := Some 2\<rparr>"
  let ?entry = "\<lparr>we_absolute_path = ''./sub'', we_absolute_path_length = length ''./sub'', we_kind = WALK_ENTRY_DIRECTORY, we_depth = 1,
      we_file_size = 0, we_modification_time_seconds = 0, we_permission_mask = 0, we_stat_populated = False, we_device_id = 1\<rparr>"
  let ?pst = "\<lparr>ps_slots = (\<lambda>w. None), ps_errors = [], ps_root_device = Some 2, ps_main_output = [], ps_main_emitted_count = 0\<rparr>"
  have q: "quiet ?ctx" using demo_quiet by (simp add: quiet_def handler_says_stop_def)
  have h: "holds_path (ws_buffer ?st) ''.''" "\<not> ws_stop_requested ?st" using demo_state_holds by simp_all
  have ctx: "wc_one_file_system ?ctx" "\<not> wc_follow_symlinks ?ctx" "ws_root_device ?st = Some 2"
    "de_d_type (dir_entry ''sub'') = DT_DIR" "no_nul (de_name (dir_entry ''sub''))"
    "length (child_path ''.'' (de_name (dir_entry ''sub''))) < PATH_CAPACITY"
    by (simp_all add: dir_entry_def DT_DIR_def child_path_def PATH_CAPACITY_def)
  have down: "walk_should_descend_directory ?ctx (de_name (dir_entry ''sub'')) (length (de_name (dir_entry ''sub''))) (0 + 1)"
    using ignored_directory_name_iff [OF ref_core_ok, of "length ''sub''" "''sub''"]
    by (simp add: walk_should_descend_directory_def dir_entry_def plain_predicate_flags walk_is_hidden_name_def char_at_def
        ignored_directory_names_def)
  have os: "sys_openat (wc_os ?ctx) 3 (de_name (dir_entry ''sub'')) True = Inr 4" "sys_fstat (wc_os ?ctx) 4 = Inr directory"
    "st_dev directory \<noteq> 2"
    by (simp_all add: demo_simps)
  have par: "pc_one_file_system (demo_parallel\<lparr>pc_one_file_system := True\<rparr>)" "ps_root_device ?pst = Some 2"
    "we_device_id ?entry = st_dev directory" by (simp_all add: directory_def)
  have "ws_errors ?st = []" "child_path ''.'' (de_name (dir_entry ''sub'')) = ''./sub''"
    "sys_errno_residue (wc_os ?ctx) 3 (de_name (dir_entry ''sub'')) = 0"
    by (simp_all add: demo_state_def walk_start_def child_path_def dir_entry_def demo_os_def)
  with other_device_is_error_only_sequentially [OF q ctx(1,2) h ctx(3-6) down os par, of 0] show ?thesis by simp
qed

end
